(* ===== verification/Prelude.thy ===== *)
theory Prelude
  imports Main "HOL-Library.Word"
begin

text \<open>
  What every component of the development shares: the machine types of the C++ code, the
  ways a call can fail, the results the kernel hands back, the log of the system calls a
  component issues, the model of \<open>std::unordered_map\<close>, and the generic lemmas on
  lists and words the component proofs are built from.
\<close>

unbundle bit_operations_syntax

named_theorems umap_simps \<open>the laws of the unordered map\<close>


section \<open>Machine types\<close>

type_synonym u8 = "8 word"
type_synonym u16 = "16 word"
type_synonym u32 = "32 word"
type_synonym u64 = "64 word"

text \<open>A file descriptor is a C \<open>int\<close> the kernel chose: small and non-negative, or -1.\<close>

type_synonym fd = int

text \<open>
  \<open>size_t\<close> values are sizes of objects in memory, kept as \<^typ>\<open>nat\<close>; a subtraction on
  \<open>size_t\<close> that goes below zero wraps around modulo two to the 64.
\<close>

definition size_sub :: "nat \<Rightarrow> nat \<Rightarrow> nat" where
  "size_sub a b = (if b \<le> a then a - b else 2 ^ 64 + a - b)"

lemma size_sub_le [simp]: "b \<le> a \<Longrightarrow> size_sub a b = a - b"
  by (simp add: size_sub_def)


section \<open>Failures\<close>

text \<open>
  \<open>fault\<close> collects the undefined behaviour a definition can run into, so that a model that
  would execute it has a value that says so; \<open>exn\<close> the C++ exceptions the code throws.
\<close>

datatype fault = Out_of_bounds | Null_deref | Div_by_zero | Use_after_free

datatype exn = Runtime_error string | Out_of_range string | Invalid_argument string

datatype failure = Thrown exn | Undefined fault

datatype errno = EAGAIN | EWOULDBLOCK | EINTR | EOTHER nat

text \<open>A read of \<open>n\<close> bytes at offset \<open>off\<close> of a buffer, as \<open>memcpy\<close> performs it.\<close>

definition read_bytes :: "'a list \<Rightarrow> nat \<Rightarrow> nat \<Rightarrow> fault + 'a list" where
  "read_bytes buf off n =
     (if off + n \<le> length buf then Inr (take n (drop off buf)) else Inl Out_of_bounds)"

lemma read_bytes_ok [simp]:
  "off + n \<le> length buf \<Longrightarrow> read_bytes buf off n = Inr (take n (drop off buf))"
  by (simp add: read_bytes_def)

lemma read_bytes_InrD:
  "read_bytes buf off n = Inr bs \<Longrightarrow> off + n \<le> length buf \<and> bs = take n (drop off buf)"
  by (auto simp: read_bytes_def split: if_splits)


section \<open>Bit fields\<close>

text \<open>A shifted value and a value that fits below it add up.\<close>

lemma nat_push_or:
  fixes a c :: nat
  assumes "c < 2 ^ n"
  shows "push_bit n a OR c = a * 2 ^ n + c"
proof -
  have c: "c = take_bit n c"
    using assms by (simp add: take_bit_nat_eq_self)
  have "push_bit n a AND take_bit n c = 0"
    by (rule bit_eqI) (auto simp: bit_simps)
  with c have "push_bit n a + c = push_bit n a OR c"
    by (metis disjunctive_add_eq_or)
  then show ?thesis by (simp add: push_bit_eq_mult)
qed

lemma unat_push_bit:
  "unat a * 2 ^ n < 2 ^ LENGTH('a) \<Longrightarrow> unat (push_bit n (a :: 'a::len word)) = unat a * 2 ^ n"
  unfolding unsigned_push_bit_eq by (simp add: push_bit_eq_mult take_bit_nat_eq_self)

lemma unat_pack2:
  assumes "unat c < 2 ^ n" "unat a * 2 ^ n < 2 ^ LENGTH('a)"
  shows "unat (push_bit n a OR (c :: 'a::len word)) = unat a * 2 ^ n + unat c"
  using assms by (simp add: unsigned_or_eq unat_push_bit push_bit_eq_mult [symmetric] nat_push_or)

lemma unat_pack3:
  fixes a b c :: "'a::len word"
  assumes "unat c < 2 ^ w" "unat b * 2 ^ w + unat c < 2 ^ t" "unat a * 2 ^ t < 2 ^ LENGTH('a)"
    and "t \<le> LENGTH('a)"
  shows "unat (push_bit t a OR push_bit w b OR c) = unat a * 2 ^ t + (unat b * 2 ^ w + unat c)"
proof -
  have "(2 :: nat) ^ t \<le> 2 ^ LENGTH('a)" using assms(4) by simp
  with assms(2) have "unat b * 2 ^ w < 2 ^ LENGTH('a)" by linarith
  with assms(1) have "unat (push_bit w b OR c) = unat b * 2 ^ w + unat c"
    by (rule unat_pack2)
  with assms(2,3) show ?thesis
    by (simp add: unat_pack2)
qed


section \<open>Little-endian integers\<close>

text \<open>
  The bytes of an integer in memory, and the integer a run of bytes holds, on the
  little-endian machines the code is built for.
\<close>

fun le_bytes :: "nat \<Rightarrow> nat \<Rightarrow> u8 list" where
  "le_bytes 0 x = []"
| "le_bytes (Suc n) x = word_of_nat (x mod 256) # le_bytes n (x div 256)"

fun le_value :: "u8 list \<Rightarrow> nat" where
  "le_value [] = 0"
| "le_value (b # bs) = unat b + 256 * le_value bs"

lemma length_le_bytes [simp]: "length (le_bytes n x) = n"
  by (induction n arbitrary: x) auto

lemma le_bytes_numeral:
  "le_bytes (numeral k) x = word_of_nat (x mod 256) # le_bytes (pred_numeral k) (x div 256)"
  unfolding numeral_eq_Suc [of k] by (simp only: le_bytes.simps)

lemma unat_less_exp: "unat (w :: 'a::len word) < 2 ^ LENGTH('a)"
  by (rule unsigned_less)

lemma unat_u8_less [simp]: "unat (b :: u8) < 256"
  using unat_less_exp [of b] by simp

lemma le_value_bytes: "x < 256 ^ n \<Longrightarrow> le_value (le_bytes n x) = x"
proof (induction n arbitrary: x)
  case 0
  then show ?case by simp
next
  case (Suc n)
  have "unat (word_of_nat (x mod 256) :: u8) = x mod 256"
    by (simp add: unat_of_nat)
  with Suc show ?case by (simp add: less_mult_imp_div_less mult.commute)
qed

lemma le_bytes_value: "le_bytes (length bs) (le_value bs) = bs"
proof (induction bs)
  case Nil
  then show ?case by simp
next
  case (Cons b bs)
  have "(unat b + 256 * le_value bs) mod 256 = unat b"
      "(unat b + 256 * le_value bs) div 256 = le_value bs"
    by simp_all
  with Cons show ?case by (simp only: list.size add_0_right add_Suc_right le_bytes.simps
        le_value.simps of_nat_unat ucast_id)
qed

lemma le_value_less: "le_value bs < 256 ^ length bs"
proof (induction bs)
  case Nil
  then show ?case by simp
next
  case (Cons b bs)
  have "unat b + 256 * le_value bs < 256 * (le_value bs + 1)"
    by simp
  also have "\<dots> \<le> 256 * 256 ^ length bs"
    using Cons by (intro mult_le_mono2) simp
  finally show ?case by simp
qed


section \<open>What a receiving call returns\<close>

text \<open>
  \<open>recv\<close>, \<open>read\<close>: the bytes it delivered (none of them: the peer closed, or end of
  file, the return value 0), or -1 with the error number.
\<close>

datatype recv_result = Received "u8 list" | Recv_failed errno

fun recv_count :: "recv_result \<Rightarrow> int" where
  "recv_count (Received bs) = int (length bs)"
| "recv_count (Recv_failed e) = - 1"


section \<open>Decimal numbers\<close>

text \<open>\<open>std::to_string\<close> of an unsigned number.\<close>

fun to_string :: "nat \<Rightarrow> string" where
  "to_string n =
     (if n < 10 then [char_of (48 + n)] else to_string (n div 10) @ [char_of (48 + n mod 10)])"

declare to_string.simps [simp del]

text \<open>A signed number on a stream.\<close>

definition show_int :: "int \<Rightarrow> string" where
  "show_int n = (if n < 0 then ''-'' @ to_string (nat (- n)) else to_string (nat n))"


section \<open>Options\<close>

lemma option_eq_SomeI: "(\<And>x. a = Some x \<longleftrightarrow> b = Some x) \<Longrightarrow> a = b"
  by (cases a; cases b) auto


section \<open>The first element that satisfies a test\<close>

lemma find_Some_in: "List.find P xs = Some x \<Longrightarrow> x \<in> set xs \<and> P x"
  by (auto simp: find_Some_iff)

lemma find_cong_but_one:
  assumes "List.find P xs = Some x"
    and "x \<noteq> i"
    and "\<not> Q i"
    and "\<And>y. y \<in> set xs \<Longrightarrow> y \<noteq> i \<Longrightarrow> Q y = P y"
  shows "List.find Q xs = Some x"
  using assms by (induction xs) (auto split: if_splits)


lemma length_filter_update:
  "length (filter P xs) \<le> Suc (length (filter P (xs[i := x])))"
proof (induction xs arbitrary: i)
  case Nil
  then show ?case by simp
next
  case (Cons y ys)
  then show ?case by (cases i) (auto simp: le_SucI)
qed


section \<open>The least element\<close>

text \<open>
  \<open>std::min_element\<close> by a key: the index of the first least element, \<open>None\<close> (the end
  iterator) for an empty range.
\<close>

fun min_scan :: "('a \<Rightarrow> int) \<Rightarrow> 'a list \<Rightarrow> nat \<Rightarrow> nat \<Rightarrow> int \<Rightarrow> nat" where
  "min_scan key [] i best least = best"
| "min_scan key (x # xs) i best least =
     (if key x < least then min_scan key xs (i + 1) i (key x)
      else min_scan key xs (i + 1) best least)"

fun min_element :: "('a \<Rightarrow> int) \<Rightarrow> 'a list \<Rightarrow> nat option" where
  "min_element key [] = None"
| "min_element key (x # xs) = Some (min_scan key xs 1 0 (key x))"

lemma min_scan_least:
  assumes "best < length pre" "least = key (pre ! best)" "\<And>z. z \<in> set pre \<Longrightarrow> least \<le> key z"
    and "r = min_scan key xs (length pre) best least"
  shows "r < length (pre @ xs) \<and> (\<forall>z\<in>set (pre @ xs). key ((pre @ xs) ! r) \<le> key z)"
  using assms
proof (induction xs arbitrary: pre best least)
  case Nil
  then show ?case by simp
next
  case (Cons x xs)
  show ?case
  proof (cases "key x < least")
    case True
    with Cons.prems show ?thesis
      using Cons.IH [of "length pre" "pre @ [x]" "key x"] by fastforce
  next
    case False
    with Cons.prems show ?thesis
      using Cons.IH [of best "pre @ [x]" least] by (force simp: nth_append)
  qed
qed

lemma min_element_least:
  assumes "min_element key xs = Some i"
  shows "i < length xs" "z \<in> set xs \<Longrightarrow> key (xs ! i) \<le> key z"
proof -
  obtain y ys where xs: "xs = y # ys" using assms by (cases xs) auto
  with assms have "i = min_scan key ys (length [y]) 0 (key y)" by simp
  from min_scan_least [OF _ _ _ this] xs
  show "i < length xs" "z \<in> set xs \<Longrightarrow> key (xs ! i) \<le> key z" by force+
qed

lemma min_element_None [simp]: "min_element key xs = None \<longleftrightarrow> xs = []"
  by (cases xs) simp_all


section \<open>Unordered maps\<close>

text \<open>
  \<open>std::unordered_map\<close> as the list of its entries in iteration order. The order is
  unspecified in C++; no lemma of the development depends on where an insertion puts an
  entry. \<open>emplace\<close> keeps an entry that is there, \<open>m[k] = v\<close> overwrites it, \<open>erase\<close>
  of an absent key changes nothing.
\<close>

type_synonym ('k, 'v) umap = "('k \<times> 'v) list"

definition umap_wf :: "('k, 'v) umap \<Rightarrow> bool" where
  "umap_wf m \<longleftrightarrow> distinct (map fst m)"

definition umap_find :: "'k \<Rightarrow> ('k, 'v) umap \<Rightarrow> 'v option" where
  "umap_find k m = map_of m k"

definition umap_count :: "'k \<Rightarrow> ('k, 'v) umap \<Rightarrow> bool" where
  "umap_count k m \<longleftrightarrow> k \<in> fst ` set m"

definition umap_emplace :: "'k \<Rightarrow> 'v \<Rightarrow> ('k, 'v) umap \<Rightarrow> ('k, 'v) umap" where
  "umap_emplace k v m = (if umap_count k m then m else m @ [(k, v)])"

definition umap_erase :: "'k \<Rightarrow> ('k, 'v) umap \<Rightarrow> ('k, 'v) umap" where
  "umap_erase k m = filter (\<lambda>e. fst e \<noteq> k) m"

definition umap_set :: "'k \<Rightarrow> 'v \<Rightarrow> ('k, 'v) umap \<Rightarrow> ('k, 'v) umap" where
  "umap_set k v m =
     (if umap_count k m then map (\<lambda>e. if fst e = k then (k, v) else e) m else m @ [(k, v)])"

text \<open>\<open>m[k]\<close> used as an lvalue: the entry is created with a default value if absent.\<close>

definition umap_modify :: "'k \<Rightarrow> 'v \<Rightarrow> ('v \<Rightarrow> 'v) \<Rightarrow> ('k, 'v) umap \<Rightarrow> ('k, 'v) umap" where
  "umap_modify k dflt f m =
     umap_set k (f (case umap_find k m of None \<Rightarrow> dflt | Some v \<Rightarrow> v)) m"

lemma map_fst_overwrite: "map fst (map (\<lambda>e. if fst e = k then (k, v) else e) m) = map fst m"
  by (induction m) auto

lemma umap_count_find: "umap_count k m \<longleftrightarrow> umap_find k m \<noteq> None"
  by (auto simp: umap_count_def umap_find_def map_of_eq_None_iff)

lemma umap_wf_empty [simp]: "umap_wf []"
  by (simp add: umap_wf_def)

lemma umap_find_empty [simp]: "umap_find k [] = None"
  by (simp add: umap_find_def)

lemma umap_keys_emplace [umap_simps]:
  "fst ` set (umap_emplace k v m) = insert k (fst ` set m)"
  by (auto simp: umap_emplace_def umap_count_def)

lemma umap_keys_erase [umap_simps]: "fst ` set (umap_erase k m) = fst ` set m - {k}"
  by (auto simp: umap_erase_def)

lemma umap_keys_set [umap_simps]: "fst ` set (umap_set k v m) = insert k (fst ` set m)"
  by (simp only: umap_set_def umap_count_def set_map [symmetric] map_fst_overwrite split: if_split)
    (auto simp del: set_map simp: map_fst_overwrite)

lemma umap_keys_modify [umap_simps]:
  "fst ` set (umap_modify k d f m) = insert k (fst ` set m)"
  by (simp add: umap_modify_def umap_keys_set)

lemma umap_wf_emplace [simp]: "umap_wf m \<Longrightarrow> umap_wf (umap_emplace k v m)"
  by (auto simp: umap_wf_def umap_emplace_def umap_count_def)

lemma umap_wf_erase [simp]: "umap_wf m \<Longrightarrow> umap_wf (umap_erase k m)"
  by (simp add: umap_wf_def umap_erase_def distinct_map_filter)

lemma umap_wf_set [simp]: "umap_wf m \<Longrightarrow> umap_wf (umap_set k v m)"
  by (auto simp: umap_wf_def umap_set_def umap_count_def map_fst_overwrite simp del: map_map)

lemma umap_wf_modify [simp]: "umap_wf m \<Longrightarrow> umap_wf (umap_modify k d f m)"
  by (simp add: umap_modify_def)

lemma umap_find_emplace [umap_simps]:
  "umap_find k' (umap_emplace k v m) =
     (if k' = k \<and> umap_find k m = None then Some v else umap_find k' m)"
  by (auto simp: umap_emplace_def umap_count_find umap_find_def map_add_def split: option.splits)

lemma umap_find_erase [umap_simps]:
  "umap_find k' (umap_erase k m) = (if k' = k then None else umap_find k' m)"
  by (induction m) (auto simp: umap_erase_def umap_find_def)

lemma map_of_overwrite:
  "map_of (map (\<lambda>e. if fst e = k then (k, v) else e) m) k' =
     (if k' = k \<and> k \<in> fst ` set m then Some v else map_of m k')"
  by (induction m) (auto simp: rev_image_eqI)

lemma umap_find_set [umap_simps]:
  "umap_find k' (umap_set k v m) = (if k' = k then Some v else umap_find k' m)"
proof (cases "umap_count k m")
  case True
  then show ?thesis
    by (simp add: umap_set_def umap_find_def umap_count_def map_of_overwrite)
next
  case False
  then have "map_of m k = None"
    by (simp add: umap_count_def map_of_eq_None_iff)
  with False show ?thesis
    by (simp add: umap_set_def umap_find_def map_add_def split: option.splits)
qed

lemma umap_find_modify [umap_simps]:
  "umap_find k' (umap_modify k d f m) =
     (if k' = k then Some (f (case umap_find k m of None \<Rightarrow> d | Some v \<Rightarrow> v))
      else umap_find k' m)"
  by (simp add: umap_modify_def umap_find_set)

lemma length_umap_emplace [umap_simps]:
  "length (umap_emplace k v m) = (if umap_count k m then length m else Suc (length m))"
  by (simp add: umap_emplace_def)

lemma length_umap_erase [umap_simps]:
  "umap_wf m \<Longrightarrow> length (umap_erase k m) = (if umap_count k m then length m - 1 else length m)"
proof (induction m)
  case Nil
  then show ?case by (simp add: umap_erase_def umap_count_def)
next
  case (Cons e m)
  show ?case
  proof (cases "fst e = k")
    case True
    with Cons.prems have "filter (\<lambda>x. fst x \<noteq> k) m = m"
      by (intro filter_True) (auto simp: umap_wf_def image_iff)
    with True show ?thesis
      by (simp add: umap_erase_def umap_count_def)
  next
    case False
    with Cons show ?thesis
      by (cases m) (auto simp: umap_wf_def umap_erase_def umap_count_def)
  qed
qed

lemma length_umap_set [umap_simps]:
  "length (umap_set k v m) = (if umap_count k m then length m else Suc (length m))"
  by (simp add: umap_set_def)

lemma length_umap_modify [umap_simps]:
  "length (umap_modify k d f m) = (if umap_count k m then length m else Suc (length m))"
  by (simp add: umap_modify_def length_umap_set)


section \<open>Sums over lists\<close>

lemma sum_list_swap:
  "i < length xs \<Longrightarrow> sum_list (xs[i := y]) + xs ! i = sum_list xs + (y :: nat)"
  by (induction xs arbitrary: i) (auto split: nat.split)

end
