(* ===== verification/Wire.thy ===== *)
theory Wire
  imports Prelude
begin

text \<open>
  The wire format of \<open>netlib/serialization.h\<close>: the message types, the three packed
  structures and the bytes \<open>memcpy\<close> moves between a structure and a buffer. A
  \<open>std::array<uint8_t, 16>\<close> is a list that \<open>uuid_ok\<close> says has 16 elements. The lemmas are
  the two round trips of each structure.
\<close>


section \<open>Structures\<close>

type_synonym message_type = u8

definition AUTH_REQUEST :: message_type where "AUTH_REQUEST = 1"
definition AUTH_RESPONSE :: message_type where "AUTH_RESPONSE = 2"
definition DATA_PKT :: message_type where "DATA_PKT = 3"

lemmas message_types = AUTH_REQUEST_def AUTH_RESPONSE_def DATA_PKT_def

type_synonym uuid = "u8 list"

definition uuid_ok :: "uuid \<Rightarrow> bool" where
  "uuid_ok u \<longleftrightarrow> length u = 16"

record auth_request =
  request_type :: message_type
  request_uuid :: uuid

record auth_response =
  response_type :: message_type
  response_uuid :: uuid
  restore_seq_num :: u64

record data_pkt_header =
  header_type :: message_type
  seq_num :: u64
  data_size :: u32

text \<open>\<open>sizeof\<close> of the packed structures.\<close>

definition sizeof_auth_request :: nat where "sizeof_auth_request = 17"
definition sizeof_auth_response :: nat where "sizeof_auth_response = 25"
definition sizeof_data_pkt_header :: nat where "sizeof_data_pkt_header = 13"

lemmas sizes = sizeof_auth_request_def sizeof_auth_response_def sizeof_data_pkt_header_def


section \<open>Structures as bytes\<close>

definition auth_request_bytes :: "auth_request \<Rightarrow> u8 list" where
  "auth_request_bytes r = request_type r # request_uuid r"

definition auth_request_of :: "u8 list \<Rightarrow> auth_request" where
  "auth_request_of bs = \<lparr>request_type = bs ! 0, request_uuid = take 16 (drop 1 bs)\<rparr>"

definition auth_response_bytes :: "auth_response \<Rightarrow> u8 list" where
  "auth_response_bytes r =
     response_type r # response_uuid r @ le_bytes 8 (unat (restore_seq_num r))"

definition auth_response_of :: "u8 list \<Rightarrow> auth_response" where
  "auth_response_of bs =
     \<lparr>response_type = bs ! 0, response_uuid = take 16 (drop 1 bs),
      restore_seq_num = word_of_nat (le_value (take 8 (drop 17 bs)))\<rparr>"

definition data_pkt_header_bytes :: "data_pkt_header \<Rightarrow> u8 list" where
  "data_pkt_header_bytes h =
     header_type h # le_bytes 8 (unat (seq_num h)) @ le_bytes 4 (unat (data_size h))"

definition data_pkt_header_of :: "u8 list \<Rightarrow> data_pkt_header" where
  "data_pkt_header_of bs =
     \<lparr>header_type = bs ! 0, seq_num = word_of_nat (le_value (take 8 (drop 1 bs))),
      data_size = word_of_nat (le_value (take 4 (drop 9 bs)))\<rparr>"

lemma length_auth_request_bytes [simp]:
  "uuid_ok (request_uuid r) \<Longrightarrow> length (auth_request_bytes r) = 17"
  by (simp add: auth_request_bytes_def uuid_ok_def)

lemma length_auth_response_bytes [simp]:
  "uuid_ok (response_uuid r) \<Longrightarrow> length (auth_response_bytes r) = 25"
  by (simp add: auth_response_bytes_def uuid_ok_def)

lemma length_data_pkt_header_bytes [simp]: "length (data_pkt_header_bytes h) = 13"
  by (simp add: data_pkt_header_bytes_def)

text \<open>Reading back what was written.\<close>

lemma le_u64 [simp]: "word_of_nat (le_value (le_bytes 8 (unat x))) = (x :: u64)"
  using unat_less_exp [of x] by (subst le_value_bytes) simp_all

lemma le_u32 [simp]: "word_of_nat (le_value (le_bytes 4 (unat x))) = (x :: u32)"
  using unat_less_exp [of x] by (subst le_value_bytes) simp_all

lemma auth_request_round_trip [simp]:
  "uuid_ok (request_uuid r) \<Longrightarrow> auth_request_of (auth_request_bytes r @ rest) = r"
  by (simp add: auth_request_of_def auth_request_bytes_def uuid_ok_def)

lemma auth_response_round_trip [simp]:
  "uuid_ok (response_uuid r) \<Longrightarrow> auth_response_of (auth_response_bytes r @ rest) = r"
  by (simp add: auth_response_of_def auth_response_bytes_def uuid_ok_def)

lemma data_pkt_header_round_trip [simp]:
  "data_pkt_header_of (data_pkt_header_bytes h @ rest) = h"
  by (simp add: data_pkt_header_of_def data_pkt_header_bytes_def)

lemmas round_trips_exact [simp] =
  auth_request_round_trip [where rest = "[]", simplified]
  auth_response_round_trip [where rest = "[]", simplified]
  data_pkt_header_round_trip [where rest = "[]", simplified]

text \<open>Writing back what was read: every 13 bytes are the image of one header.\<close>

lemma take_one: "bs \<noteq> [] \<Longrightarrow> bs ! 0 # drop (Suc 0) bs = bs"
  by (cases bs) simp_all

lemma unat_le_value_u64:
  "length bs = 8 \<Longrightarrow> unat (word_of_nat (le_value bs) :: u64) = le_value bs"
  using le_value_less [of bs] by (simp add: unat_of_nat)

lemma unat_le_value_u32:
  "length bs = 4 \<Longrightarrow> unat (word_of_nat (le_value bs) :: u32) = le_value bs"
  using le_value_less [of bs] by (simp add: unat_of_nat)

lemma data_pkt_header_bytes_of:
  assumes "length bs = 13"
  shows "data_pkt_header_bytes (data_pkt_header_of bs) = bs"
proof -
  have len: "length (take 8 (drop 1 bs)) = 8" "length (take 4 (drop 9 bs)) = 4"
    using assms by simp_all
  have "le_bytes 8 (le_value (take 8 (drop 1 bs))) = take 8 (drop 1 bs)"
      "le_bytes 4 (le_value (take 4 (drop 9 bs))) = take 4 (drop 9 bs)"
    using le_bytes_value [of "take 8 (drop 1 bs)"] le_bytes_value [of "take 4 (drop 9 bs)"] len
    by (simp_all del: length_take length_drop)
  moreover have "take 8 (drop 1 bs) @ take 4 (drop 9 bs) = drop 1 bs"
    using assms append_take_drop_id [of 8 "drop 1 bs"] by (simp add: take_all)
  moreover have "bs \<noteq> []" using assms by auto
  ultimately show ?thesis
    using len by (simp add: data_pkt_header_bytes_def data_pkt_header_of_def unat_le_value_u64
        unat_le_value_u32 take_one del: length_take length_drop)
qed

end
