(* ===== verification/MessageParser.thy ===== *)
theory MessageParser
  imports Wire
begin

text \<open>
  \<open>class MessageParser\<close> of \<open>netlib/serialization.h\<close>: the buffer a socket's bytes are
  collected in, the three parsers, the reading loop and the three senders. A read outside
  the buffer would be undefined behaviour: the parsers return it as \<open>Inl\<close>. The kernel is
  the list of the results its calls will give: \<open>recv_result\<close> for \<open>recv\<close>, a count for
  \<open>send\<close>. A function returns \<open>None\<close> where the list ends before the code does (the call
  is still blocked).
\<close>


section \<open>State\<close>

text \<open>The union of \<open>ParsedMessage\<close> by its active member.\<close>

datatype msg_body =
    Auth_request auth_request
  | Auth_response auth_response
  | Packet_header data_pkt_header

record parsed_message =
  msg_type :: message_type
  size_header :: int
  body :: msg_body
  packet_data :: "u8 list"

record parser =
  sockfd :: fd
  recv_buffer :: "u8 list"
  recv_capacity :: nat
  parsed_bytes :: nat
  is_timeout :: bool

definition new_parser :: "fd \<Rightarrow> nat \<Rightarrow> parser" where
  "new_parser fd size_buff =
     \<lparr>sockfd = fd, recv_buffer = [], recv_capacity = max size_buff 1, parsed_bytes = 0,
      is_timeout = False\<rparr>"

text \<open>\<open>recv_buffer_.size() - parsed_bytes_\<close>, and the read of \<open>n\<close> bytes behind it.\<close>

definition available :: "parser \<Rightarrow> nat" where
  "available p = size_sub (length (recv_buffer p)) (parsed_bytes p)"

definition peek :: "parser \<Rightarrow> nat \<Rightarrow> nat \<Rightarrow> fault + u8 list" where
  "peek p off n = read_bytes (recv_buffer p) (parsed_bytes p + off) n"


section \<open>Parsing one message\<close>

type_synonym parse_result = "fault + bool \<times> parser \<times> parsed_message"

definition parseAuthRequest :: "parser \<Rightarrow> parsed_message \<Rightarrow> parse_result" where
  "parseAuthRequest p result =
     (if available p < sizeof_auth_request then Inr (False, p, result)
      else case peek p 0 sizeof_auth_request of
        Inl f \<Rightarrow> Inl f
      | Inr bs \<Rightarrow> Inr (True, p\<lparr>parsed_bytes := parsed_bytes p + sizeof_auth_request\<rparr>,
          result\<lparr>msg_type := AUTH_REQUEST, body := Auth_request (auth_request_of bs)\<rparr>))"

definition parseAuthResponse :: "parser \<Rightarrow> parsed_message \<Rightarrow> parse_result" where
  "parseAuthResponse p result =
     (if available p < sizeof_auth_response then Inr (False, p, result)
      else case peek p 0 sizeof_auth_response of
        Inl f \<Rightarrow> Inl f
      | Inr bs \<Rightarrow> Inr (True, p\<lparr>parsed_bytes := parsed_bytes p + sizeof_auth_response\<rparr>,
          result\<lparr>msg_type := AUTH_RESPONSE, body := Auth_response (auth_response_of bs)\<rparr>))"

definition parseDataPacket :: "parser \<Rightarrow> parsed_message \<Rightarrow> parse_result" where
  "parseDataPacket p result =
     (if available p < sizeof_data_pkt_header then Inr (False, p, result)
      else case peek p 0 sizeof_data_pkt_header of
        Inl f \<Rightarrow> Inl f
      | Inr bs \<Rightarrow>
          let header = data_pkt_header_of bs;
              total_size = sizeof_data_pkt_header + unat (data_size header)
          in if available p < total_size then Inr (False, p, result)
             else case peek p sizeof_data_pkt_header (unat (data_size header)) of
               Inl f \<Rightarrow> Inl f
             | Inr payload \<Rightarrow> Inr (True, p\<lparr>parsed_bytes := parsed_bytes p + total_size\<rparr>,
                 result\<lparr>msg_type := DATA_PKT, body := Packet_header header,
                        packet_data := payload\<rparr>))"

definition tryParseMessage :: "parser \<Rightarrow> parsed_message \<Rightarrow> parse_result" where
  "tryParseMessage p result =
     (if available p < 1 then Inr (False, p, result)
      else case peek p 0 1 of
        Inl f \<Rightarrow> Inl f
      | Inr bs \<Rightarrow>
          if bs ! 0 = AUTH_REQUEST then parseAuthRequest p result
          else if bs ! 0 = AUTH_RESPONSE then parseAuthResponse p result
          else if bs ! 0 = DATA_PKT then parseDataPacket p result
          else Inr (False, p\<lparr>parsed_bytes := parsed_bytes p + 1\<rparr>, result))"


section \<open>Reading from the socket\<close>

text \<open>
  \<open>reserve\<close> and the growth of a vector when \<open>n\<close> elements are appended. Neither has an
  effect on the contents.
\<close>

definition vec_reserve :: "nat \<Rightarrow> nat \<Rightarrow> nat" where
  "vec_reserve capacity n = max capacity n"

definition vec_grow :: "nat \<Rightarrow> nat \<Rightarrow> nat \<Rightarrow> nat" where
  "vec_grow capacity sz n = (if sz + n \<le> capacity then capacity else sz + max sz n)"

definition readAvailable :: "parser \<Rightarrow> recv_result \<Rightarrow> bool \<times> parser" where
  "readAvailable p received =
     (let available_space = size_sub (recv_capacity p) (length (recv_buffer p));
          p = (if available_space < 1024
               then p\<lparr>recv_capacity := vec_reserve (recv_capacity p) (recv_capacity p * 2)\<rparr> else p)
      in case received of
           Received bs \<Rightarrow>
             if recv_count received > 0
             then (True, p\<lparr>recv_buffer := recv_buffer p @ bs,
                    recv_capacity := vec_grow (recv_capacity p) (length (recv_buffer p)) (length bs)\<rparr>)
             else (False, p)
         | Recv_failed errn \<Rightarrow>
             if errn = EAGAIN \<or> errn = EWOULDBLOCK then (True, p\<lparr>is_timeout := True\<rparr>)
             else (False, p))"

fun readMessage :: "parser \<Rightarrow> parsed_message \<Rightarrow> bool \<Rightarrow> recv_result list
    \<Rightarrow> (fault + bool \<times> parser \<times> parsed_message \<times> recv_result list) option" where
  "readMessage p result wait_timeout [] = None"
| "readMessage p result wait_timeout (received # ks) =
     (case readAvailable p received of
        (False, p1) \<Rightarrow> Some (Inr (False, p1, result, ks))
      | (True, p1) \<Rightarrow>
          if is_timeout p1 then
            (let p2 = p1\<lparr>is_timeout := False\<rparr>
             in if wait_timeout then readMessage p2 result wait_timeout ks
                else Some (Inr (False, p2, result, ks)))
          else (case tryParseMessage p1 result of
                  Inl f \<Rightarrow> Some (Inl f)
                | Inr (True, p2, result2) \<Rightarrow> Some (Inr (True, p2, result2, ks))
                | Inr (False, p2, result2) \<Rightarrow> readMessage p2 result2 wait_timeout ks))"


section \<open>Sending\<close>

text \<open>
  The loop of \<open>sendAll\<close> and \<open>sendPacketPayload\<close>: \<open>total_sent\<close> bytes of the buffer are
  out, \<open>remaining\<close> are to go; the result says whether all went out, and the bytes the
  kernel took.
\<close>

fun send_loop :: "u8 list \<Rightarrow> nat \<Rightarrow> nat \<Rightarrow> int list
    \<Rightarrow> (fault + bool \<times> u8 list \<times> int list) option" where
  "send_loop buf total_sent remaining [] =
     (if remaining > 0 then None else Some (Inr (True, [], [])))"
| "send_loop buf total_sent remaining (sent # ks) =
     (if remaining > 0 then
        (if sent \<le> 0 then Some (Inr (False, [], ks))
         else (case read_bytes buf total_sent (nat sent) of
                 Inl f \<Rightarrow> Some (Inl f)
               | Inr bs \<Rightarrow>
                   map_option (map_sum id (\<lambda>(ok, out, k). (ok, bs @ out, k)))
                     (send_loop buf (total_sent + nat sent) (size_sub remaining (nat sent)) ks)))
      else Some (Inr (True, [], sent # ks)))"

definition sendAll :: "u8 list \<Rightarrow> int list \<Rightarrow> (fault + bool \<times> u8 list \<times> int list) option" where
  "sendAll dat ks = send_loop dat 0 (length dat) ks"

text \<open>A sequence of two sends whose first result is ignored.\<close>

definition then_send :: "(fault + bool \<times> u8 list \<times> int list) option
    \<Rightarrow> (int list \<Rightarrow> (fault + bool \<times> u8 list \<times> int list) option)
    \<Rightarrow> (fault + bool \<times> u8 list \<times> int list) option" where
  "then_send r1 f =
     (case r1 of
        None \<Rightarrow> None
      | Some (Inl e) \<Rightarrow> Some (Inl e)
      | Some (Inr (ok1, out1, k1)) \<Rightarrow>
          map_option (map_sum id (\<lambda>(ok2, out2, k2). (ok2, out1 @ out2, k2))) (f k1))"

text \<open>\<open>size_t remaining = size\<close>: a negative \<open>int\<close> becomes a huge size.\<close>

definition sendPacketPayload :: "u8 list \<Rightarrow> u8 list \<Rightarrow> int \<Rightarrow> int list
    \<Rightarrow> (fault + bool \<times> u8 list \<times> int list) option" where
  "sendPacketPayload header dat sz ks =
     then_send (sendAll header ks) (send_loop dat 0 (nat (sz mod 2 ^ 64)))"

definition sendAuthResponce :: "parsed_message \<Rightarrow> uuid \<Rightarrow> u64 \<Rightarrow> int list
    \<Rightarrow> parsed_message \<times> (fault + bool \<times> u8 list \<times> int list) option" where
  "sendAuthResponce msg uid restore_seq ks =
     (let r = \<lparr>response_type = AUTH_RESPONSE, response_uuid = uid, restore_seq_num = 0\<rparr>
      in (msg\<lparr>body := Auth_response r, size_header := int sizeof_auth_response\<rparr>,
          sendAll (auth_response_bytes r) ks))"

definition sendAuthRequest :: "parsed_message \<Rightarrow> uuid \<Rightarrow> int list
    \<Rightarrow> parsed_message \<times> (fault + bool \<times> u8 list \<times> int list) option" where
  "sendAuthRequest msg uid ks =
     (let r = \<lparr>request_type = AUTH_REQUEST, request_uuid = uid\<rparr>
      in (msg\<lparr>body := Auth_request r, size_header := int sizeof_auth_request\<rparr>,
          sendAll (auth_request_bytes r) ks))"

definition sendDataPkt :: "parsed_message \<Rightarrow> u64 \<Rightarrow> u8 list \<Rightarrow> int \<Rightarrow> int list
    \<Rightarrow> parsed_message \<times> (fault + bool \<times> u8 list \<times> int list) option" where
  "sendDataPkt msg seqn dat sz ks =
     (let h = \<lparr>header_type = DATA_PKT, seq_num = seqn, data_size = word_of_int sz\<rparr>;
          resp = data_pkt_header_bytes h
      in (msg\<lparr>body := Packet_header h, size_header := int sizeof_data_pkt_header + sz\<rparr>,
          then_send (sendAll resp ks) (sendPacketPayload resp dat sz)))"



section \<open>The unparsed part of the buffer\<close>

definition parser_ok :: "parser \<Rightarrow> bool" where
  "parser_ok p \<longleftrightarrow> parsed_bytes p \<le> length (recv_buffer p)"

definition unparsed :: "parser \<Rightarrow> u8 list" where
  "unparsed p = drop (parsed_bytes p) (recv_buffer p)"

named_theorems parse_simps \<open>the parsers in terms of the unparsed bytes\<close>

lemma available_unparsed [parse_simps]: "parser_ok p \<Longrightarrow> available p = length (unparsed p)"
  by (simp add: available_def parser_ok_def unparsed_def)

lemma peek_unparsed [parse_simps]:
  "parser_ok p \<Longrightarrow> off + n \<le> length (unparsed p) \<Longrightarrow> peek p off n = Inr (take n (drop off (unparsed p)))"
  by (simp add: peek_def parser_ok_def unparsed_def add.commute)

text \<open>The three parsers as functions of the unparsed bytes alone.\<close>

definition advance :: "nat \<Rightarrow> parser \<Rightarrow> parser" where
  "advance n p = p\<lparr>parsed_bytes := parsed_bytes p + n\<rparr>"

lemma advance_ok [simp]: "parser_ok p \<Longrightarrow> n \<le> length (unparsed p) \<Longrightarrow> parser_ok (advance n p)"
  by (simp add: parser_ok_def unparsed_def advance_def)

lemma advance_unparsed [simp]: "unparsed (advance n p) = drop n (unparsed p)"
  by (simp add: unparsed_def advance_def add.commute)

lemma advance_sel [simp]:
  "recv_buffer (advance n p) = recv_buffer p" "is_timeout (advance n p) = is_timeout p"
  "parsed_bytes (advance n p) = parsed_bytes p + n" "sockfd (advance n p) = sockfd p"
  by (simp_all add: advance_def)

lemma parseAuthRequest_eq [parse_simps]:
  assumes "parser_ok p"
  shows "parseAuthRequest p r =
    (if length (unparsed p) < 17 then Inr (False, p, r)
     else Inr (True, advance 17 p,
       r\<lparr>msg_type := AUTH_REQUEST,
         body := Auth_request (auth_request_of (take 17 (unparsed p)))\<rparr>))"
  using assms by (simp add: parseAuthRequest_def parse_simps sizes advance_def)

lemma parseAuthResponse_eq [parse_simps]:
  assumes "parser_ok p"
  shows "parseAuthResponse p r =
    (if length (unparsed p) < 25 then Inr (False, p, r)
     else Inr (True, advance 25 p,
       r\<lparr>msg_type := AUTH_RESPONSE,
         body := Auth_response (auth_response_of (take 25 (unparsed p)))\<rparr>))"
  using assms by (simp add: parseAuthResponse_def parse_simps sizes advance_def)

lemma parseDataPacket_eq [parse_simps]:
  assumes "parser_ok p"
  shows "parseDataPacket p r =
    (if length (unparsed p) < 13 then Inr (False, p, r)
     else let h = data_pkt_header_of (take 13 (unparsed p)); n = unat (data_size h)
          in if length (unparsed p) < 13 + n then Inr (False, p, r)
             else Inr (True, advance (13 + n) p,
               r\<lparr>msg_type := DATA_PKT, body := Packet_header h,
                 packet_data := take n (drop 13 (unparsed p))\<rparr>))"
  using assms by (simp add: parseDataPacket_def parse_simps sizes advance_def Let_def)

lemma tryParseMessage_eq [parse_simps]:
  assumes "parser_ok p"
  shows "tryParseMessage p r =
    (case unparsed p of
       [] \<Rightarrow> Inr (False, p, r)
     | t # _ \<Rightarrow> if t = AUTH_REQUEST then parseAuthRequest p r
               else if t = AUTH_RESPONSE then parseAuthResponse p r
               else if t = DATA_PKT then parseDataPacket p r
               else Inr (False, advance 1 p, r))"
  using assms by (cases "unparsed p") (simp_all add: tryParseMessage_def parse_simps advance_def)

text \<open>
  One call keeps the buffer and moves the parse position forward inside it, whatever the
  bytes are.
\<close>

definition stays_inside :: "parser \<Rightarrow> parse_result \<Rightarrow> bool" where
  "stays_inside p res \<longleftrightarrow>
     (\<exists>ok n r'. res = Inr (ok, advance n p, r') \<and> n \<le> length (unparsed p) \<and> (ok \<longrightarrow> 0 < n))"

lemma stays_inside_unchanged [intro, simp]: "stays_inside p (Inr (False, p, r))"
  unfolding stays_inside_def
  by (intro exI [of _ False] exI [of _ 0] exI [of _ r]) (simp add: advance_def)

lemma stays_inside_advance [intro, simp]:
  "0 < n \<Longrightarrow> n \<le> length (unparsed p) \<Longrightarrow> stays_inside p (Inr (ok, advance n p, r))"
  by (auto simp: stays_inside_def)

lemma tryParseMessage_inside:
  assumes "parser_ok p"
  shows "stays_inside p (tryParseMessage p r)"
  using assms by (cases "unparsed p") (auto simp: parse_simps Let_def not_less)

lemma tryParseMessage_cases:
  assumes "parser_ok p"
  obtains ok n r' where "tryParseMessage p r = Inr (ok, advance n p, r')"
    "n \<le> length (unparsed p)" "ok \<Longrightarrow> 0 < n"
  using tryParseMessage_inside [OF assms, of r] that unfolding stays_inside_def by blast


section \<open>The messages on the wire\<close>

text \<open>
  The reference: a message, its bytes, and the fields the receiver must find in its
  \<open>ParsedMessage\<close>.
\<close>

datatype wire_message =
    Request uuid
  | Response uuid u64
  | Data u64 "u8 list"

fun wire_ok :: "wire_message \<Rightarrow> bool" where
  "wire_ok (Request u) = uuid_ok u"
| "wire_ok (Response u s) = uuid_ok u"
| "wire_ok (Data s bs) = (length bs < 2 ^ 32)"

fun header_of :: "u64 \<Rightarrow> nat \<Rightarrow> data_pkt_header" where
  "header_of s n = \<lparr>header_type = DATA_PKT, seq_num = s, data_size = word_of_nat n\<rparr>"

fun encode :: "wire_message \<Rightarrow> u8 list" where
  "encode (Request u) =
     auth_request_bytes \<lparr>request_type = AUTH_REQUEST, request_uuid = u\<rparr>"
| "encode (Response u s) =
     auth_response_bytes
       \<lparr>response_type = AUTH_RESPONSE, response_uuid = u, restore_seq_num = s\<rparr>"
| "encode (Data s bs) = data_pkt_header_bytes (header_of s (length bs)) @ bs"

fun deliver :: "wire_message \<Rightarrow> parsed_message \<Rightarrow> parsed_message" where
  "deliver (Request u) r = r\<lparr>msg_type := AUTH_REQUEST,
     body := Auth_request \<lparr>request_type = AUTH_REQUEST, request_uuid = u\<rparr>\<rparr>"
| "deliver (Response u s) r = r\<lparr>msg_type := AUTH_RESPONSE,
     body := Auth_response
       \<lparr>response_type = AUTH_RESPONSE, response_uuid = u, restore_seq_num = s\<rparr>\<rparr>"
| "deliver (Data s bs) r = r\<lparr>msg_type := DATA_PKT,
     body := Packet_header (header_of s (length bs)), packet_data := bs\<rparr>"

lemma unat_data_size [simp]:
  "n < 2 ^ 32 \<Longrightarrow> unat (word_of_nat n :: u32) = n"
  by (simp add: unat_of_nat)

lemma header_take [simp]:
  "data_pkt_header_of (take 13 (data_pkt_header_bytes h @ rest)) = h"
  by (metis append.right_neutral append_eq_conv_conj data_pkt_header_round_trip
      length_data_pkt_header_bytes)

lemma encode_first:
  "\<exists>bs. encode (Request u) = AUTH_REQUEST # bs"
  "\<exists>bs. encode (Response u s) = AUTH_RESPONSE # bs"
  "\<exists>bs. encode (Data s d) = DATA_PKT # bs"
  by (simp_all add: auth_request_bytes_def auth_response_bytes_def data_pkt_header_bytes_def)

lemma encode_length:
  "uuid_ok u \<Longrightarrow> length (encode (Request u)) = 17"
  "uuid_ok u \<Longrightarrow> length (encode (Response u s)) = 25"
  "length (encode (Data s d)) = 13 + length d"
  by simp_all

text \<open>A complete message in the buffer is delivered, an incomplete one left alone.\<close>

lemma tryParse_complete:
  assumes "parser_ok p" "wire_ok m" "unparsed p = encode m @ rest"
  shows "tryParseMessage p r = Inr (True, advance (length (encode m)) p, deliver m r)"
proof (cases m)
  case (Request u)
  with assms have "tryParseMessage p r = parseAuthRequest p r"
    by (simp add: tryParseMessage_eq auth_request_bytes_def)
  with assms Request show ?thesis
    by (simp add: parseAuthRequest_eq)
next
  case (Response u s)
  with assms have "tryParseMessage p r = parseAuthResponse p r"
    by (simp add: tryParseMessage_eq auth_response_bytes_def message_types)
  with assms Response show ?thesis
    by (simp add: parseAuthResponse_eq)
next
  case (Data s d)
  with assms have "tryParseMessage p r = parseDataPacket p r"
    by (simp add: tryParseMessage_eq data_pkt_header_bytes_def message_types)
  with assms Data show ?thesis
    by (simp add: parseDataPacket_eq Let_def)
qed

lemma tryParse_incomplete:
  assumes "parser_ok p" "wire_ok m" "unparsed p = take k (encode m)" "k < length (encode m)"
  shows "tryParseMessage p r = Inr (False, p, r)"
proof (cases k)
  case 0
  with assms show ?thesis by (simp add: tryParseMessage_eq)
next
  case (Suc j)
  show ?thesis
  proof (cases m)
    case (Request u)
    with assms Suc have "tryParseMessage p r = parseAuthRequest p r"
      by (simp add: tryParseMessage_eq auth_request_bytes_def)
    with assms Request show ?thesis by (simp add: parseAuthRequest_eq)
  next
    case (Response u s)
    with assms Suc have "tryParseMessage p r = parseAuthResponse p r"
      by (simp add: tryParseMessage_eq auth_response_bytes_def message_types)
    with assms Response show ?thesis by (simp add: parseAuthResponse_eq)
  next
    case (Data s d)
    with assms Suc have "tryParseMessage p r = parseDataPacket p r"
      by (simp add: tryParseMessage_eq data_pkt_header_bytes_def message_types)
    with assms Data show ?thesis
      by (cases "13 \<le> k") (simp_all add: parseDataPacket_eq take_append)
  qed
qed



section \<open>Reading: safety, and messages in pieces\<close>

text \<open>What one read does to the parser: bytes arrive, a timeout is noted, or it ends.\<close>

definition timed_out :: "recv_result \<Rightarrow> bool" where
  "timed_out x \<longleftrightarrow> x = Recv_failed EAGAIN \<or> x = Recv_failed EWOULDBLOCK"

definition grown :: "parser \<Rightarrow> u8 list \<Rightarrow> nat \<Rightarrow> parser" where
  "grown p bs cap = p\<lparr>recv_buffer := recv_buffer p @ bs, recv_capacity := cap\<rparr>"

lemma grown_sel [simp]:
  "recv_buffer (grown p bs c) = recv_buffer p @ bs" "is_timeout (grown p bs c) = is_timeout p"
  "parsed_bytes (grown p bs c) = parsed_bytes p" "sockfd (grown p bs c) = sockfd p"
  by (simp_all add: grown_def)

lemma grown_ok [simp]: "parser_ok p \<Longrightarrow> parser_ok (grown p bs c)"
  by (simp add: parser_ok_def)

lemma grown_unparsed [simp]: "parser_ok p \<Longrightarrow> unparsed (grown p bs c) = unparsed p @ bs"
  by (simp add: parser_ok_def unparsed_def)

definition read_capacity :: "parser \<Rightarrow> u8 list \<Rightarrow> nat" where
  "read_capacity p bs =
     (let c = (if size_sub (recv_capacity p) (length (recv_buffer p)) < 1024
               then vec_reserve (recv_capacity p) (recv_capacity p * 2) else recv_capacity p)
      in if bs = [] then c else vec_grow c (length (recv_buffer p)) (length bs))"

lemma readAvailable_data [simp]:
  "bs \<noteq> [] \<Longrightarrow> readAvailable p (Received bs) = (True, grown p bs (read_capacity p bs))"
  by (simp add: readAvailable_def grown_def read_capacity_def Let_def)

lemma readAvailable_timeout [simp]:
  "timed_out x \<Longrightarrow>
     readAvailable p x = (True, (grown p [] (read_capacity p []))\<lparr>is_timeout := True\<rparr>)"
  by (auto simp: readAvailable_def grown_def read_capacity_def Let_def timed_out_def)

lemma readAvailable_ended [simp]:
  "readAvailable p (Received []) = (False, grown p [] (read_capacity p []))"
  "\<not> timed_out (Recv_failed e) \<Longrightarrow>
     readAvailable p (Recv_failed e) = (False, grown p [] (read_capacity p []))"
  by (simp_all add: readAvailable_def grown_def read_capacity_def Let_def timed_out_def)

lemma recv_result_cases:
  obtains (data) bs where "x = Received bs" "bs \<noteq> []"
  | (timeout) "timed_out x"
  | (closed) "x = Received []"
  | (error) e where "x = Recv_failed e" "\<not> timed_out x"
  by (cases x) auto

text \<open>\<open>readMessage\<close> by the result of its next \<open>recv\<close>, while no timeout is pending.\<close>

lemma readMessage_data:
  assumes "\<not> is_timeout p" "bs \<noteq> []"
  shows "readMessage p r w (Received bs # ks) =
    (case tryParseMessage (grown p bs (read_capacity p bs)) r of
       Inl f \<Rightarrow> Some (Inl f)
     | Inr (True, p2, r2) \<Rightarrow> Some (Inr (True, p2, r2, ks))
     | Inr (False, p2, r2) \<Rightarrow> readMessage p2 r2 w ks)"
  using assms by simp

lemma readMessage_timeout:
  assumes "timed_out x"
  shows "readMessage p r w (x # ks) =
    (let p2 = (grown p [] (read_capacity p []))\<lparr>is_timeout := False\<rparr>
     in if w then readMessage p2 r w ks else Some (Inr (False, p2, r, ks)))"
  using assms by (simp add: Let_def)

lemma readMessage_closed:
  "readMessage p r w (Received [] # ks) =
     Some (Inr (False, grown p [] (read_capacity p []), r, ks))"
  by simp

lemma readMessage_error:
  "\<not> timed_out (Recv_failed e) \<Longrightarrow> readMessage p r w (Recv_failed e # ks) =
     Some (Inr (False, grown p [] (read_capacity p []), r, ks))"
  by simp

declare readMessage.simps(2) [simp del]

lemmas readMessage_steps =
  readMessage_data readMessage_timeout readMessage_closed readMessage_error

text \<open>
  From a parser in order, reading never leaves the buffer, whatever the peer sends and
  the kernel reports; what was received stays in the buffer and the parse position only
  moves forward.
\<close>

definition extends :: "parser \<Rightarrow> parser \<Rightarrow> bool" where
  "extends p p' \<longleftrightarrow> parser_ok p' \<and> parsed_bytes p \<le> parsed_bytes p' \<and>
     (\<exists>bs. recv_buffer p' = recv_buffer p @ bs)"

lemma extends_refl [simp]: "parser_ok p \<Longrightarrow> extends p p"
  by (simp add: extends_def)

lemma extends_trans [trans]: "extends p q \<Longrightarrow> extends q r \<Longrightarrow> extends p r"
  by (auto simp: extends_def)

lemma extends_grown [simp]: "parser_ok p \<Longrightarrow> extends p (grown p bs c)"
  by (simp add: extends_def)

lemma extends_timeout [simp]: "extends p (q\<lparr>is_timeout := b\<rparr>) \<longleftrightarrow> extends p q"
  by (simp add: extends_def parser_ok_def)

lemma extends_advance [simp]:
  "parser_ok p \<Longrightarrow> n \<le> length (unparsed p) \<Longrightarrow> extends p (advance n p)"
  by (simp add: extends_def)

lemma extends_okD: "extends p q \<Longrightarrow> parser_ok q"
  by (simp add: extends_def)

fun outcome_ok :: "parser \<Rightarrow> (fault + bool \<times> parser \<times> parsed_message \<times> recv_result list) option
    \<Rightarrow> bool" where
  "outcome_ok p None = True"
| "outcome_ok p (Some (Inl f)) = False"
| "outcome_ok p (Some (Inr (b, p', r', ks'))) = extends p p'"

lemma outcome_ok_trans: "extends p q \<Longrightarrow> outcome_ok q res \<Longrightarrow> outcome_ok p res"
  by (cases "(p, res)" rule: outcome_ok.cases) (auto intro: extends_trans)

text \<open>C16: \<open>readMessage\<close> never reads outside its buffer, whatever bytes the peer sends and
  errors the kernel reports; received bytes are kept and the parse position never moves back.\<close>

theorem readMessage_safe:
  assumes "parser_ok p" "\<not> is_timeout p"
  shows "outcome_ok p (readMessage p r w ks)"
  using assms
proof (induction ks arbitrary: p r)
  case Nil
  then show ?case by simp
next
  case (Cons x ks)
  show ?case
  proof (cases x rule: recv_result_cases)
    case (data bs)
    let ?q = "grown p bs (read_capacity p bs)"
    have q: "parser_ok ?q" "extends p ?q" "\<not> is_timeout ?q" using Cons.prems by simp_all
    obtain ok n r' where t: "tryParseMessage ?q r = Inr (ok, advance n ?q, r')"
      "n \<le> length (unparsed ?q)"
      using q(1) by (rule tryParseMessage_cases)
    have e: "extends p (advance n ?q)"
      using extends_trans [OF q(2)] extends_advance [OF q(1) t(2)] by blast
    show ?thesis
      using Cons.IH [of "advance n ?q" r'] data t e q(3) outcome_ok_trans [OF e] extends_okD [OF e]
        Cons.prems by (simp add: readMessage_data split: bool.split)
  next
    case timeout
    let ?q = "(grown p [] (read_capacity p []))\<lparr>is_timeout := False\<rparr>"
    have e: "extends p ?q" using Cons.prems by simp
    show ?thesis
      using Cons.IH [of ?q r] timeout e outcome_ok_trans [OF e] extends_okD [OF e]
      by (cases w) (simp_all add: readMessage_timeout Let_def)
  next
    case closed
    with Cons.prems show ?thesis by (simp add: readMessage_closed)
  next
    case (error e)
    with Cons.prems show ?thesis by (simp add: readMessage_error)
  qed
qed

lemma readMessage_safe_witness:
  "outcome_ok (new_parser 5 1024) (readMessage (new_parser 5 1024)
     \<lparr>msg_type = 0, size_header = 0, body = Auth_request \<lparr>request_type = 0, request_uuid = []\<rparr>,
      packet_data = []\<rparr> True [Received [9, 3], Recv_failed EAGAIN, Received [255], Received []])"
  by (rule readMessage_safe) (simp_all add: new_parser_def parser_ok_def)

text \<open>
  A read that delivers bytes or, for a caller that waits, times out; and the bytes.
\<close>

fun quiet :: "bool \<Rightarrow> recv_result \<Rightarrow> bool" where
  "quiet w (Received bs) = (bs \<noteq> [])"
| "quiet w (Recv_failed e) = (w \<and> timed_out (Recv_failed e))"

fun bytes_of :: "recv_result \<Rightarrow> u8 list" where
  "bytes_of (Received bs) = bs"
| "bytes_of (Recv_failed e) = []"

lemma short_is_take:
  "xs @ ys = zs @ extra \<Longrightarrow> length xs < length zs \<Longrightarrow> xs = take (length xs) zs"
  by (metis append_eq_append_conv_if less_imp_le)

text \<open>One read of a piece that does not complete the message.\<close>

lemma readMessage_piece:
  assumes "parser_ok p" "\<not> is_timeout p" "wire_ok m" "bs \<noteq> []"
    and "(unparsed p @ bs) @ later = encode m @ extra" "length (unparsed p @ bs) < length (encode m)"
  shows "readMessage p r w (Received bs # ks) =
    readMessage (grown p bs (read_capacity p bs)) r w ks"
proof -
  have len: "length (unparsed p) + length bs < length (encode m)" using assms(6) by simp
  have "unparsed (grown p bs (read_capacity p bs)) =
      take (length (unparsed p @ bs)) (encode m)"
    using assms(1) short_is_take [OF assms(5,6)] by (simp only: grown_unparsed)
  then have "tryParseMessage (grown p bs (read_capacity p bs)) r =
      Inr (False, grown p bs (read_capacity p bs), r)"
    using assms(1,3) len by (intro tryParse_incomplete [where k = "length (unparsed p @ bs)"])
      (simp_all del: grown_unparsed)
  with assms(2,4) show ?thesis by (simp add: readMessage_data)
qed

lemma readMessage_stream:
  assumes "parser_ok p" "\<not> is_timeout p" "wire_ok m"
    and "list_all (quiet w) rs" "c \<noteq> []"
    and "unparsed p @ concat (map bytes_of rs) @ c = encode m @ extra"
    and "length (unparsed p @ concat (map bytes_of rs)) < length (encode m)"
  shows "\<exists>p'. readMessage p r w (rs @ Received c # ks) = Some (Inr (True, p', deliver m r, ks)) \<and>
    parser_ok p' \<and> \<not> is_timeout p' \<and> unparsed p' = extra"
  using assms
proof (induction rs arbitrary: p)
  case Nil
  let ?q = "grown p c (read_capacity p c)"
  have "tryParseMessage ?q r = Inr (True, advance (length (encode m)) ?q, deliver m r)"
    using Nil.prems by (intro tryParse_complete) simp_all
  with Nil.prems show ?case
    by (simp add: readMessage_data)
next
  case (Cons x rs)
  show ?case
  proof (cases x rule: recv_result_cases)
    case (data bs)
    let ?q = "grown p bs (read_capacity p bs)"
    have len: "length (unparsed p @ bs) < length (encode m)"
      using Cons.prems(7) unfolding data(1) list.map concat.simps bytes_of.simps length_append
      by linarith
    have "(unparsed p @ bs) @ concat (map bytes_of rs) @ c = encode m @ extra"
      using Cons.prems(6) data by simp
    from readMessage_piece [OF Cons.prems(1,2,3) data(2) this len]
    have "readMessage p r w (Received bs # rs @ Received c # ks) =
        readMessage ?q r w (rs @ Received c # ks)" .
    with Cons.IH [of ?q] Cons.prems data show ?thesis by simp
  next
    case timeout
    then obtain e where x: "x = Recv_failed e" by (auto simp: timed_out_def)
    let ?q = "(grown p [] (read_capacity p []))\<lparr>is_timeout := False\<rparr>"
    have q: "parser_ok ?q" "unparsed ?q = unparsed p"
      using Cons.prems(1) by (simp_all add: parser_ok_def unparsed_def)
    have "readMessage p r w (x # rs @ Received c # ks) = readMessage ?q r w (rs @ Received c # ks)"
      using Cons.prems x timeout by (simp add: readMessage_timeout Let_def)
    with Cons.IH [of ?q] Cons.prems q x show ?thesis by (cases w) simp_all
  next
    case closed
    with Cons.prems show ?thesis by simp
  next
    case (error e)
    with Cons.prems show ?thesis by simp
  qed
qed

text \<open>C3: However the bytes of a message are cut into pieces, and whatever timeouts come
  between them for a caller that waits, \<open>readMessage\<close> returns the message, with every field
  as it was sent, when its last byte is in, and leaves the parser right behind it.\<close>

theorem readMessage_reassembles:
  assumes "parser_ok p" "\<not> is_timeout p" "wire_ok m"
    and "list_all (quiet w) rs" "c \<noteq> []"
    and "unparsed p @ concat (map bytes_of rs) @ c = encode m @ extra"
    and "length (unparsed p @ concat (map bytes_of rs)) < length (encode m)"
  shows "\<exists>p'. readMessage p r w (rs @ Received c # ks) = Some (Inr (True, p', deliver m r, ks)) \<and>
    parser_ok p' \<and> \<not> is_timeout p' \<and> unparsed p' = extra"
  using assms by (rule readMessage_stream)

lemma readMessage_reassembles_witness:
  "\<exists>p'. readMessage (new_parser 5 1024)
      \<lparr>msg_type = 0, size_header = 0, body = Auth_request \<lparr>request_type = 0, request_uuid = []\<rparr>,
       packet_data = []\<rparr> True
      ([Received [3, 7, 0, 0, 0, 0], Recv_failed EAGAIN, Received [0, 0, 0, 2, 0, 0, 0]] @
        Received [65, 66, 1] # [Received []]) =
      Some (Inr (True, p', deliver (Data 7 [65, 66])
        \<lparr>msg_type = 0, size_header = 0, body = Auth_request \<lparr>request_type = 0, request_uuid = []\<rparr>,
         packet_data = []\<rparr>, [Received []])) \<and>
    parser_ok p' \<and> \<not> is_timeout p' \<and> unparsed p' = [1]"
  by (rule readMessage_reassembles)
    (simp_all add: new_parser_def parser_ok_def unparsed_def timed_out_def
      data_pkt_header_bytes_def message_types le_bytes_numeral)

text \<open>
  A complete message that is already in the buffer is only looked at after the next
  \<open>recv\<close>: if the peer closes, it is lost.
\<close>

text \<open>A message that arrived completely, behind the one returned last, is not delivered
  when the peer closes next: \<open>readMessage\<close> returns false although \<open>tryParseMessage\<close> on the
  same buffer would return the message.\<close>

theorem readMessage_drops_buffered_message:
  assumes "parser_ok p" "wire_ok m" "unparsed p = encode m @ rest"
  shows "readMessage p r w (Received [] # ks) =
      Some (Inr (False, grown p [] (read_capacity p []), r, ks)) \<and>
    tryParseMessage p r = Inr (True, advance (length (encode m)) p, deliver m r)"
  using tryParse_complete [OF assms] by (simp add: readMessage_closed)

lemma readMessage_drops_buffered_message_witness:
  "let p = (new_parser 5 64)\<lparr>recv_buffer := encode (Data 1 [65])\<rparr>;
       r = \<lparr>msg_type = 0, size_header = 0, body = Auth_request \<lparr>request_type = 0, request_uuid = []\<rparr>,
       packet_data = []\<rparr>
   in readMessage p r True [Received []] = Some (Inr (False, grown p [] (read_capacity p []), r, [])) \<and>
      tryParseMessage p r = Inr (True, advance (length (encode (Data 1 [65]))) p, deliver (Data 1 [65]) r)"
  unfolding Let_def
  by (rule readMessage_drops_buffered_message [where rest = "[]"])
    (simp_all add: new_parser_def parser_ok_def unparsed_def)


section \<open>Sending\<close>

text \<open>The kernel never reports more bytes sent than it was given.\<close>

fun sends_within :: "nat \<Rightarrow> int list \<Rightarrow> bool" where
  "sends_within n [] = True"
| "sends_within n (s # ks) = 
     (n = 0 \<or> s \<le> int n \<and> (0 < s \<longrightarrow> sends_within (n - nat s) ks))"

lemma send_loop_done [simp]: "send_loop buf t 0 ks = Some (Inr (True, [], ks))"
  by (cases ks) simp_all

lemma send_loop_takes:
  assumes "t + n \<le> length buf" "sends_within n ks"
  shows "case send_loop buf t n ks of
      None \<Rightarrow> True
    | Some (Inl f) \<Rightarrow> False
    | Some (Inr (ok, out, ks')) \<Rightarrow>
        (\<exists>k. k \<le> n \<and> out = take k (drop t buf) \<and> (ok \<longrightarrow> k = n)) \<and>
        ((\<forall>s\<in>set ks. 0 < s) \<longrightarrow> ok)"
  using assms
proof (induction ks arbitrary: t n)
  case Nil
  then show ?case by simp
next
  case (Cons s ks)
  show ?case
  proof (cases "n = 0 \<or> s \<le> 0")
    case True
    then show ?thesis by auto
  next
    case False
    then have s: "nat s \<le> n" "0 < nat s" using Cons.prems by auto
    define res where "res = send_loop buf (t + nat s) (n - nat s) ks"
    have ih: "case res of None \<Rightarrow> True | Some (Inl f) \<Rightarrow> False
      | Some (Inr (ok, out, ks')) \<Rightarrow>
        (\<exists>k. k \<le> n - nat s \<and> out = take k (drop (t + nat s) buf) \<and> (ok \<longrightarrow> k = n - nat s)) \<and>
        ((\<forall>s\<in>set ks. 0 < s) \<longrightarrow> ok)"
      unfolding res_def using Cons.prems False s by (intro Cons.IH) auto
    have step: "send_loop buf t n (s # ks) =
        map_option (map_sum id (\<lambda>(ok, out, k). (ok, take (nat s) (drop t buf) @ out, k))) res"
      using False s Cons.prems by (simp add: res_def)
    have glue: "take (nat s) (drop t buf) @ take k (drop (t + nat s) buf) =
        take (nat s + k) (drop t buf)" for k
      by (simp only: take_add drop_drop add.commute [of t])
    show ?thesis
    proof (cases res)
      case None
      with step show ?thesis by simp
    next
      case (Some x)
      with ih obtain ok out ks' where x: "x = Inr (ok, out, ks')" by (cases x) auto
      with ih Some obtain k where "k \<le> n - nat s" "out = take k (drop (t + nat s) buf)"
        "ok \<longrightarrow> k = n - nat s" "(\<forall>s\<in>set ks. 0 < s) \<longrightarrow> ok" by auto
      with x Some step s show ?thesis
        by (auto simp: glue intro!: exI [of _ "nat s + k"])
    qed
  qed
qed

lemma send_loop_returns:
  "n \<le> length ks \<Longrightarrow> sends_within n ks \<Longrightarrow> t + n \<le> length buf \<Longrightarrow>
     \<exists>x. send_loop buf t n ks = Some x"
proof (induction ks arbitrary: t n)
  case Nil
  then show ?case by simp
next
  case (Cons s ks)
  show ?case
  proof (cases "n = 0 \<or> s \<le> 0")
    case True
    then show ?thesis by auto
  next
    case False
    then have s: "nat s \<le> n" "0 < nat s" using Cons.prems by auto
    with Cons.prems False have "\<exists>x. send_loop buf (t + nat s) (n - nat s) ks = Some x"
      by (intro Cons.IH) auto
    with False s Cons.prems show ?thesis by auto
  qed
qed

text \<open>The bytes on the wire after a send that the kernel serves.\<close>

definition sent_result :: "u8 list \<Rightarrow> int list
    \<Rightarrow> (fault + bool \<times> u8 list \<times> int list) option \<Rightarrow> bool" where
  "sent_result dat ks res \<longleftrightarrow>
     (\<exists>ok k ks'. res = Some (Inr (ok, take k dat, ks')) \<and> (ok \<longrightarrow> k = length dat) \<and>
        ((\<forall>s\<in>set ks. 0 < s) \<longrightarrow> ok))"

lemma sendAll_sent:
  assumes "sends_within (length dat) ks" "length dat \<le> length ks"
  shows "sent_result dat ks (sendAll dat ks)"
proof -
  obtain x where x: "send_loop dat 0 (length dat) ks = Some x"
    using send_loop_returns [of "length dat" ks 0 dat] assms by auto
  with send_loop_takes [of 0 "length dat" dat ks] assms(1)
  show ?thesis
    by (cases x) (force simp: sendAll_def sent_result_def)+
qed

text \<open>\<open>sendAll\<close> returns, reads only its buffer, and puts a prefix of it on the wire: all of
  it when it reports success, which it does unless a \<open>send\<close> fails; short sends are resumed where
  they stopped.\<close>

theorem sendAll_correct:
  assumes "sends_within (length dat) ks" "length dat \<le> length ks"
  shows "sent_result dat ks (sendAll dat ks)"
  using assms by (rule sendAll_sent)

lemma sendAll_correct_witness: "sent_result [1, 2, 3] [2, 1, 5] (sendAll [1, 2, 3] [2, 1, 5])"
  by (rule sendAll_correct) simp_all



section \<open>The three senders\<close>

text \<open>\<open>sendAuthRequest\<close> puts on the wire the encoding of the request, from which
  \<open>readMessage\<close> rebuilds it, when no \<open>send\<close> fails.\<close>

theorem sendAuthRequest_encodes:
  assumes "uuid_ok u" "sends_within 17 ks" "17 \<le> length ks" "\<forall>s\<in>set ks. 0 < s"
  shows "\<exists>ks'. snd (sendAuthRequest msg u ks) = Some (Inr (True, encode (Request u), ks'))"
proof -
  let ?d = "encode (Request u)"
  have "length ?d = 17" using assms(1) by simp
  then have "sent_result ?d ks (sendAll ?d ks)"
    using assms by (intro sendAll_sent) simp_all
  then obtain ks' where "sendAll ?d ks = Some (Inr (True, ?d, ks'))"
    using assms(4) unfolding sent_result_def by auto
  then show ?thesis by (simp add: sendAuthRequest_def Let_def)
qed

lemma sends_within_ones [simp]: "sends_within n (replicate k 1)"
  by (induction k arbitrary: n) auto

lemma sendAuthRequest_encodes_witness:
  "\<exists>ks'. snd (sendAuthRequest
      \<lparr>msg_type = 0, size_header = 0, body = Auth_request \<lparr>request_type = 0, request_uuid = []\<rparr>,
       packet_data = []\<rparr> (replicate 16 7) (replicate 17 1)) =
    Some (Inr (True, encode (Request (replicate 16 7)), ks'))"
  by (rule sendAuthRequest_encodes) (simp_all add: uuid_ok_def)

text \<open>\<open>sendAuthResponce\<close> sends the same bytes whatever sequence number it is told to
  restore: the peer always reads 0.\<close>

theorem sendAuthResponce_drops_seq:
  "sendAuthResponce msg u s ks =
    (msg\<lparr>body := Auth_response
       \<lparr>response_type = AUTH_RESPONSE, response_uuid = u, restore_seq_num = 0\<rparr>,
       size_header := 25\<rparr>, sendAll (encode (Response u 0)) ks)"
  by (simp add: sendAuthResponce_def Let_def sizes)

text \<open>
  \<open>sendDataPkt\<close> sends the header itself and lets \<open>sendPacketPayload\<close> send it again.
\<close>

lemma send_loop_at_once:
  "length d = n \<Longrightarrow> 0 < n \<Longrightarrow> send_loop d 0 n (int n # ks) = Some (Inr (True, d, ks))"
  by simp

text \<open>Every packet \<open>sendDataPkt\<close> sends carries its header twice, and the receiver takes
  the second header for the first 13 bytes of the data: what it delivers is not what was sent.\<close>

theorem sendDataPkt_repeats_header:
  assumes "d \<noteq> []" "length d < 2 ^ 31" "h = data_pkt_header_bytes (header_of s (length d))"
    and "parser_ok p" "unparsed p = h @ h @ d"
  shows "snd (sendDataPkt msg s d (int (length d)) (13 # 13 # int (length d) # ks)) =
      Some (Inr (True, h @ h @ d, ks)) \<and>
    tryParseMessage p r =
      Inr (True, advance (13 + length d) p, deliver (Data s (take (length d) (h @ d))) r)"
proof
  have 13: "length h = 13" using assms(3) by simp
  have d: "nat (int (length d) mod 2 ^ 64) = length d"
    using assms(2) by (simp add: nat_mod_as_int)
  have w: "word_of_int (int (length d)) = (word_of_nat (length d) :: u32)" by simp
  have once: "sendAll h (13 # ks1) = Some (Inr (True, h, ks1))" for ks1
    using 13 send_loop_at_once [of h 13 ks1] by (simp add: sendAll_def)
  have payload: "send_loop d 0 (length d) (int (length d) # ks) = Some (Inr (True, d, ks))"
    using assms(1) by (intro send_loop_at_once) simp_all
  show "snd (sendDataPkt msg s d (int (length d)) (13 # 13 # int (length d) # ks)) =
      Some (Inr (True, h @ h @ d, ks))"
    using assms(3) by (simp only: sendDataPkt_def Let_def w header_of.simps [symmetric] snd_conv)
      (simp only: assms(3) [symmetric] once payload d sendPacketPayload_def then_send_def
        option.case sum.case prod.case option.map map_sum.simps append_assoc)
  define t where "t = take (length d) (h @ d)"
  have t: "length t = length d" by (simp add: t_def)
  have "encode (Data s t) @ drop (length d) (h @ d) = h @ h @ d"
    using assms(3) by (simp only: encode.simps t append_assoc) (simp add: t_def del: append_assoc
        take_append drop_append)
  with assms(5) have "unparsed p = encode (Data s t) @ drop (length d) (h @ d)" by simp
  moreover have "wire_ok (Data s t)" using assms(2) t by simp
  ultimately have "tryParseMessage p r = Inr (True, advance (length (encode (Data s t))) p,
      deliver (Data s t) r)"
    using assms(4) by (intro tryParse_complete)
  then show "tryParseMessage p r =
      Inr (True, advance (13 + length d) p, deliver (Data s (take (length d) (h @ d))) r)"
    by (simp only: encode_length t t_def [symmetric])
qed

lemma sendDataPkt_repeats_header_witness:
  "let h = data_pkt_header_bytes (header_of 1 (length [65, 66 :: u8]));
       msg = \<lparr>msg_type = 0, size_header = 0, body = Auth_request \<lparr>request_type = 0,
         request_uuid = []\<rparr>, packet_data = []\<rparr>
   in snd (sendDataPkt msg 1 [65, 66] (int (length [65, 66 :: u8]))
        (13 # 13 # int (length [65, 66 :: u8]) # [])) = Some (Inr (True, h @ h @ [65, 66], [])) \<and>
      tryParseMessage ((new_parser 5 64)\<lparr>recv_buffer := h @ h @ [65, 66]\<rparr>) msg =
      Inr (True, advance (13 + length [65, 66 :: u8])
          ((new_parser 5 64)\<lparr>recv_buffer := h @ h @ [65, 66]\<rparr>),
        deliver (Data 1 (take (length [65, 66 :: u8]) (h @ [65, 66]))) msg)"
  unfolding Let_def
  by (rule sendDataPkt_repeats_header)
    (simp_all add: new_parser_def parser_ok_def unparsed_def)

end
