(* ===== verification/Conversation.thy ===== *)
theory Conversation
  imports MessageParser
begin

text \<open>
  Two ends of a connection, each with a \<open>MessageParser\<close> of \<open>netlib/serialization.h\<close>: what one
  sends with the senders, the other reads with \<open>readMessage\<close>, over a stream that delivers the bytes
  in any pieces. Shown are the exchange of the two messages of the authentication, and what a
  reader gets from a peer that sends one message at a time.
\<close>


section \<open>One message after the other\<close>

text \<open>
  \<open>rs\<close> are results of \<open>recv\<close> that deliver the bytes \<open>bs\<close>: pieces that are not empty, with timeouts
  between them when the reader waits; the last one is a piece.
\<close>

definition delivery :: "bool \<Rightarrow> u8 list \<Rightarrow> recv_result list \<Rightarrow> bool" where
  "delivery w bs rs \<longleftrightarrow>
     list_all (quiet w) rs \<and> rs \<noteq> [] \<and> bytes_of (last rs) \<noteq> [] \<and> concat (map bytes_of rs) = bs"

text \<open>A reader that calls \<open>readMessage\<close> as long as it returns true, \<open>n\<close> times.\<close>

fun read_each :: "nat \<Rightarrow> bool \<Rightarrow> parser \<Rightarrow> parsed_message \<Rightarrow> recv_result list
    \<Rightarrow> (parsed_message list \<times> parser \<times> recv_result list) option" where
  "read_each 0 w p r ks = Some ([], p, ks)"
| "read_each (Suc n) w p r ks =
     (case readMessage p r w ks of
        Some (Inr (True, p, r, ks)) \<Rightarrow> map_option (\<lambda>(rs, q). (r # rs, q)) (read_each n w p r ks)
      | _ \<Rightarrow> None)"

primrec delivered :: "wire_message list \<Rightarrow> parsed_message \<Rightarrow> parsed_message list" where
  "delivered [] r = []"
| "delivered (m # ms) r = deliver m r # delivered ms (deliver m r)"

definition idle :: "parser \<Rightarrow> bool" where
  "idle p \<longleftrightarrow> parser_ok p \<and> \<not> is_timeout p \<and> unparsed p = []"

lemma idle_new: "0 < n \<Longrightarrow> idle (new_parser fd n)"
  by (simp add: idle_def new_parser_def parser_ok_def unparsed_def)

lemma read_delivery:
  assumes "idle p" "wire_ok m" "delivery w (encode m) rs"
  shows "\<exists>p'. readMessage p r w (rs @ ks) = Some (Inr (True, p', deliver m r, ks)) \<and> idle p'"
proof -
  obtain xs c where rs: "rs = xs @ [c]" using assms(3) by (cases rs rule: rev_cases) (auto simp: delivery_def)
  then obtain bs where c: "c = Received bs" "bs \<noteq> []"
    using assms(3) by (cases c) (auto simp: delivery_def)
  have "concat (map bytes_of xs) @ bs = encode m" using assms(3) rs c by (simp add: delivery_def)
  moreover from this c(2) have "length (concat (map bytes_of xs)) < length (encode m)"
    by (metis length_append length_greater_0_conv less_add_same_cancel1)
  ultimately have "\<exists>p'. readMessage p r w (xs @ Received bs # ks) = Some (Inr (True, p', deliver m r, ks)) \<and>
      parser_ok p' \<and> \<not> is_timeout p' \<and> unparsed p' = []"
    using assms rs c by (intro readMessage_stream) (simp_all add: idle_def delivery_def)
  then show ?thesis by (simp add: rs c idle_def)
qed

lemma read_each_deliveries:
  assumes "list_all2 (\<lambda>m rs. wire_ok m \<and> delivery w (encode m) rs) ms rss" "idle p"
  shows "\<exists>p'. read_each (length ms) w p r (concat rss @ ks) = Some (delivered ms r, p', ks) \<and> idle p'"
  using assms
proof (induction ms rss arbitrary: p r rule: list_all2_induct)
  case Nil
  then show ?case by simp
next
  case (Cons m ms rs rss)
  obtain p1 where p1: "readMessage p r w (rs @ concat rss @ ks) = Some (Inr (True, p1, deliver m r, concat rss @ ks))"
    "idle p1"
    using read_delivery [OF Cons.prems, of m w rs r "concat rss @ ks"] Cons.hyps(1) by blast
  with Cons.IH [OF p1(2), of "deliver m r"] show ?case by auto
qed


section \<open>Properties\<close>

text \<open>A reader whose peer sends its messages one after the other, each when the one before has
  been read, gets them all, in order and unchanged, whatever the pieces they arrive in and whatever
  timeouts come between; it takes exactly the bytes of the messages from the stream.\<close>

theorem messages_in_turn:
  assumes "list_all2 (\<lambda>m rs. wire_ok m \<and> delivery w (encode m) rs) ms rss" "0 < n"
  shows "\<exists>p'. read_each (length ms) w (new_parser fd n) r (concat rss @ ks) = Some (delivered ms r, p', ks) \<and>
    idle p'"
  using read_each_deliveries [OF assms(1) idle_new [OF assms(2)]] by blast

text \<open>What a sender that reports success has put on the wire.\<close>

lemma sent_all:
  assumes "sendAll dat ks = Some (Inr (True, wire, rest))" "sends_within (length dat) ks" "length dat \<le> length ks"
  shows "wire = dat"
  using sendAll_sent [OF assms(2,3)] assms(1) by (auto simp: sent_result_def)

text \<open>C14: The exchange of the authentication, over any way the sends are cut short and the streams cut
  into pieces: the server reads the identifier the client has sent, and the client reads it in the
  answer, with the sequence number 0 whatever number the server wants it to restore.\<close>

theorem auth_exchange:
  assumes "uuid_ok u" "idle server" "idle client"
    and "sends_within 17 ks1" "17 \<le> length ks1" "sends_within 25 ks2" "25 \<le> length ks2"
    and "snd (sendAuthRequest m u ks1) = Some (Inr (True, wire1, left1))" "delivery w1 wire1 rs1"
  shows "\<exists>server' got. readMessage server r w1 (rs1 @ more1) = Some (Inr (True, server', got, more1)) \<and>
    body got = Auth_request \<lparr>request_type = AUTH_REQUEST, request_uuid = u\<rparr> \<and> idle server' \<and>
    (\<forall>wire2 left2 rs2. snd (sendAuthResponce got u seqn ks2) = Some (Inr (True, wire2, left2)) \<and>
       delivery w2 wire2 rs2 \<longrightarrow>
       (\<exists>client' answer. readMessage client q w2 (rs2 @ more2) = Some (Inr (True, client', answer, more2)) \<and>
          msg_type answer = AUTH_RESPONSE \<and> idle client' \<and>
          body answer = Auth_response
            \<lparr>response_type = AUTH_RESPONSE, response_uuid = u, restore_seq_num = 0\<rparr>))"
proof -
  have "sendAll (encode (Request u)) ks1 = Some (Inr (True, wire1, left1))"
    using assms(8) by (simp add: sendAuthRequest_def Let_def)
  from sent_all [OF this] assms(1,4,5) have "wire1 = encode (Request u)" by simp
  with assms(1,9) obtain server' where s: "readMessage server r w1 (rs1 @ more1) =
      Some (Inr (True, server', deliver (Request u) r, more1))" "idle server'"
    using read_delivery [OF assms(2), of "Request u" w1 rs1 r more1] by auto
  have "\<exists>client' answer. readMessage client q w2 (rs2 @ more2) = Some (Inr (True, client', answer, more2)) \<and>
      msg_type answer = AUTH_RESPONSE \<and> idle client' \<and>
      body answer = Auth_response \<lparr>response_type = AUTH_RESPONSE, response_uuid = u, restore_seq_num = 0\<rparr>"
    if "snd (sendAuthResponce (deliver (Request u) r) u seqn ks2) = Some (Inr (True, wire2, left2))"
      "delivery w2 wire2 rs2" for wire2 left2 rs2
  proof -
    have "sendAll (encode (Response u 0)) ks2 = Some (Inr (True, wire2, left2))"
      using that(1) by (simp add: sendAuthResponce_def Let_def)
    from sent_all [OF this] assms(1,6,7) have "wire2 = encode (Response u 0)" by simp
    with assms(1) that(2) show ?thesis
      using read_delivery [OF assms(3), of "Response u 0" w2 rs2 q more2] by auto
  qed
  with s show ?thesis by auto
qed


section \<open>Witnesses\<close>

definition no_message :: parsed_message where
  "no_message = \<lparr>msg_type = 0, size_header = 0, body = Auth_request \<lparr>request_type = 0, request_uuid = []\<rparr>,
     packet_data = []\<rparr>"

definition demo_uuid :: uuid where
  "demo_uuid = replicate 16 7"

lemma messages_in_turn_witness:
  "\<exists>p'. read_each 2 True (new_parser 5 1024) no_message
      [Received [3, 7, 0, 0, 0, 0, 0, 0, 0, 2, 0, 0], Recv_failed EAGAIN, Received [0, 65, 66],
       Received [1], Received demo_uuid] =
      Some (delivered [Data 7 [65, 66], Request demo_uuid] no_message, p', []) \<and> idle p'"
proof -
  have "list_all2 (\<lambda>m rs. wire_ok m \<and> delivery True (encode m) rs) [Data 7 [65, 66], Request demo_uuid]
      [[Received [3, 7, 0, 0, 0, 0, 0, 0, 0, 2, 0, 0], Recv_failed EAGAIN, Received [0, 65, 66]],
       [Received [1], Received demo_uuid]]"
    by (simp add: delivery_def timed_out_def data_pkt_header_bytes_def auth_request_bytes_def message_types
        le_bytes_numeral demo_uuid_def uuid_ok_def)
  from messages_in_turn [OF this, of 1024 5 no_message "[]"] show ?thesis
    by (simp add: numeral_2_eq_2 del: read_each.simps delivered.simps)
qed

lemma auth_exchange_witness:
  "\<exists>server' got. readMessage (new_parser 5 64) no_message True ([Received [1, 7, 7], Received (replicate 14 7)] @ []) =
      Some (Inr (True, server', got, [])) \<and>
    body got = Auth_request \<lparr>request_type = AUTH_REQUEST, request_uuid = demo_uuid\<rparr>"
proof -
  have "snd (sendAuthRequest no_message demo_uuid (replicate 17 1)) =
      Some (Inr (True, 1 # replicate 16 7, []))"
    by (simp add: sendAuthRequest_def sendAll_def auth_request_bytes_def demo_uuid_def message_types Let_def
        eval_nat_numeral)
  moreover have "delivery True (1 # replicate 16 7) [Received [1, 7, 7], Received (replicate 14 7)]"
    by (simp add: delivery_def eval_nat_numeral)
  ultimately show ?thesis
    using auth_exchange [of demo_uuid "new_parser 5 64" "new_parser 6 64" "replicate 17 1" "replicate 25 1" no_message]
    by (fastforce simp: demo_uuid_def uuid_ok_def intro!: idle_new)
qed

end
