(* ===== verification/NetUtils.thy ===== *)
theory NetUtils
  imports Prelude
begin

text \<open>
  \<open>netlib/utils.cpp\<close>: random numbers, session identifiers and their file, the dump file.
  The random engines are parameters: \<open>draw\<close> gives the next number of an engine and the
  engine's next state. A file is the list of its bytes.
\<close>


section \<open>Random numbers\<close>

text \<open>
  The distribution of \<open>getRandomNumber\<close> is a static object: it is built by the first call,
  with that call's range, and kept.
\<close>

definition getRandomNumber :: "('g \<Rightarrow> int \<Rightarrow> int \<Rightarrow> int \<times> 'g) \<Rightarrow> int \<Rightarrow> int
    \<Rightarrow> (int \<times> int) option \<times> 'g \<Rightarrow> int \<times> (int \<times> int) option \<times> 'g" where
  "getRandomNumber uniform from to s =
     (case s of (dis, gen) \<Rightarrow>
        let range = (case dis of None \<Rightarrow> (from, to) | Some r \<Rightarrow> r)
        in case uniform gen (fst range) (snd range) of (n, gen1) \<Rightarrow> (n, Some range, gen1))"

text \<open>\<open>getRandomNumber\<close> draws from the range of the first call for ever: what later calls ask
  for has no influence on the numbers they get.\<close>

theorem random_range_is_stuck:
  "let (n1, s1) = getRandomNumber uniform a b (None, gen)
   in getRandomNumber uniform c d s1 = getRandomNumber uniform a b s1"
  by (simp add: getRandomNumber_def Let_def split: prod.split)


text \<open>
  \<open>generateRandomData\<close>, here and in \<open>mync/epollserver.cpp\<close>: the buffer is filled from the front.
  \<open>gen\<close> is the engine the random device has seeded.
\<close>

fun fill_random :: "('g \<Rightarrow> u8 \<times> 'g) \<Rightarrow> 'g \<Rightarrow> nat \<Rightarrow> u8 list \<Rightarrow> u8 list \<times> 'g" where
  "fill_random dis gen 0 dat = (dat, gen)"
| "fill_random dis gen (Suc n) dat =
     (case dis gen of (b, gen1) \<Rightarrow> fill_random dis gen1 n (dat[length dat - Suc n := b]))"

definition generateRandomData :: "('g \<Rightarrow> u8 \<times> 'g) \<Rightarrow> 'g \<Rightarrow> nat \<Rightarrow> u8 list \<times> 'g" where
  "generateRandomData dis gen sz = fill_random dis gen sz (replicate sz 0)"

text \<open>The bytes an engine gives one after the other.\<close>

primrec draws :: "('g \<Rightarrow> u8 \<times> 'g) \<Rightarrow> nat \<Rightarrow> 'g \<Rightarrow> u8 list" where
  "draws dis 0 gen = []"
| "draws dis (Suc n) gen = fst (dis gen) # draws dis n (snd (dis gen))"

lemma fill_random_draws:
  "n \<le> length dat \<Longrightarrow>
   fst (fill_random dis gen n dat) = take (length dat - n) dat @ draws dis n gen"
proof (induction n arbitrary: gen dat)
  case (Suc n)
  then have "length dat - n = Suc (length dat - Suc n)" by simp
  with Suc show ?case
    by (simp add: take_Suc_conv_app_nth take_update_cancel split: prod.split)
qed simp

text \<open>The buffer has the size asked for and every byte of it is drawn, in order.\<close>

theorem random_data_filled:
  "fst (generateRandomData dis gen sz) = draws dis sz gen \<and>
   length (fst (generateRandomData dis gen sz)) = sz"
proof -
  have "length (draws dis n g) = n" for n g by (induction n arbitrary: g) simp_all
  then show ?thesis by (simp add: generateRandomData_def fill_random_draws)
qed


section \<open>Session identifiers\<close>

type_synonym uuid_bytes = "u8 list"

text \<open>
  \<open>gen\<close> is a default-constructed engine; the \<open>random_device\<close> beside it, here the argument
  \<open>rd\<close>, is never used. The full-range distribution is the engine's output.
\<close>

definition generateUuid :: "('g \<Rightarrow> u64 \<times> 'g) \<Rightarrow> 'r \<Rightarrow> 'g \<Rightarrow> uuid_bytes \<times> 'g" where
  "generateUuid draw rd gen =
     (case draw gen of (part1, gen1) \<Rightarrow>
        case draw gen1 of (part2, gen2) \<Rightarrow>
          let uuid = le_bytes 8 (unat part1) @ le_bytes 8 (unat part2);
              uuid = uuid[6 := (uuid ! 6 AND 0x0F) OR 0x40];
              uuid = uuid[8 := (uuid ! 8 AND 0x3F) OR 0x80]
          in (uuid, gen2))"

text \<open>Files by name; \<open>can_open\<close> and \<open>good\<close> are the answers of the stream library.\<close>

type_synonym files = "(string, u8 list) umap"

definition write_session_uuid :: "bool \<Rightarrow> bool \<Rightarrow> uuid_bytes \<Rightarrow> string \<Rightarrow> files \<Rightarrow> bool \<times> files" where
  "write_session_uuid can_open good uuid filename fs =
     (if \<not> can_open then (False, fs)
      else (good, umap_set filename (if good then uuid else []) fs))"

definition read_session_uuid :: "string \<Rightarrow> uuid_bytes \<Rightarrow> files \<Rightarrow> bool \<times> uuid_bytes" where
  "read_session_uuid filename result fs =
     (case umap_find filename fs of
        None \<Rightarrow> (False, result)
      | Some content \<Rightarrow>
          let gcount = min (length content) (length result);
              result = take gcount content @ drop gcount result;
              valid_size = (gcount = length result)
          in if valid_size then
               (let version_ok = (result ! 6 AND 0xF0 = 0x40);
                    variant_ok = (result ! 8 AND 0xC0 = 0x80)
                in (version_ok \<and> variant_ok, result))
             else (False, result))"

definition uuid_valid :: "uuid_bytes \<Rightarrow> bool" where
  "uuid_valid u \<longleftrightarrow> length u = 16 \<and> u ! 6 AND 0xF0 = 0x40 \<and> u ! 8 AND 0xC0 = 0x80"

lemma masked_bits:
  "((b AND 0x0F) OR 0x40) AND 0xF0 = (0x40 :: u8)"
  "((b AND 0x3F) OR 0x80) AND 0xC0 = (0x80 :: u8)"
proof -
  have "((b AND 0x0F) OR 0x40) AND 0xF0 = (b AND (0x0F AND 0xF0)) OR (0x40 AND (0xF0 :: u8))"
    by (simp only: bit.conj_disj_distrib2 and.assoc)
  then show "((b AND 0x0F) OR 0x40) AND 0xF0 = (0x40 :: u8)" by simp
  have "((b AND 0x3F) OR 0x80) AND 0xC0 = (b AND (0x3F AND 0xC0)) OR (0x80 AND (0xC0 :: u8))"
    by (simp only: bit.conj_disj_distrib2 and.assoc)
  then show "((b AND 0x3F) OR 0x80) AND 0xC0 = (0x80 :: u8)" by simp
qed

lemma generateUuid_valid: "uuid_valid (fst (generateUuid draw rd gen))"
  by (simp add: generateUuid_def Let_def uuid_valid_def masked_bits nth_append split: prod.split)

text \<open>A generated identifier carries the version and variant bits of a random UUID, and once
  written to the session file it is read back unchanged and accepted, over whatever the buffer
  and the file held.\<close>

theorem session_uuid_round_trip:
  assumes "length buffer = 16"
  shows "let (uuid, gen1) = generateUuid draw rd gen;
      (written, fs1) = write_session_uuid True True uuid filename fs
    in written \<and> read_session_uuid filename buffer fs1 = (True, uuid)"
  using assms generateUuid_valid [of draw rd gen]
  by (auto simp: write_session_uuid_def read_session_uuid_def umap_simps uuid_valid_def Let_def
      split: prod.split)

lemma session_uuid_round_trip_witness:
  "let (uuid, gen1) = generateUuid (\<lambda>g :: u64. (g, g + 1)) () 0xFFFFFFFFFFFFFFFF;
      (written, fs1) = write_session_uuid True True uuid ''client_session_uuid'' []
    in written \<and> read_session_uuid ''client_session_uuid'' (replicate 16 0) fs1 = (True, uuid)"
  by (rule session_uuid_round_trip) simp

text \<open>A session file is accepted only if it begins with sixteen bytes that carry the version
  and variant bits, and the identifier returned is then those bytes.\<close>

theorem session_file_accepted:
  assumes "length buffer = 16" "read_session_uuid filename buffer fs = (True, uuid)"
  shows "uuid_valid uuid \<and>
    (\<exists>content. umap_find filename fs = Some content \<and> uuid = take 16 content \<and> 16 \<le> length content)"
  using assms
  by (auto simp: read_session_uuid_def Let_def uuid_valid_def split: option.splits if_splits)

lemma session_file_accepted_witness:
  "let uuid = replicate 6 7 @ [0x41, 7, 0xBF] @ replicate 7 (7 :: u8)
   in uuid_valid uuid \<and>
    (\<exists>content. umap_find ''f'' [(''f'', uuid @ [1, 2])] = Some content \<and>
       uuid = take 16 content \<and> 16 \<le> length content)"
  unfolding Let_def
  by (rule session_file_accepted [where buffer = "replicate 16 0"])
    (simp_all add: read_session_uuid_def umap_find_def Let_def nth_append take_append)

text \<open>The identifiers depend on nothing that differs between two runs: every process starts the
  default engine and generates the same sequence, whatever the random device would give.\<close>

theorem uuids_repeat_across_runs:
  "generateUuid draw rd1 gen = generateUuid draw rd2 gen"
  by (simp add: generateUuid_def)


section \<open>The dump file\<close>

text \<open>
  The static variables of \<open>write2file\<close>: the name, set by the first call, and the descriptor.
\<close>

record dump_state =
  dump_name :: "string option"
  dump_fd :: int

record dump_answers =
  k_open :: int
  k_fstat :: int
  k_size :: nat
  k_writes :: "int list"

definition MAX_SIZE :: nat where "MAX_SIZE = 1073741824"

text \<open>
  The write loop: \<open>write_size\<close> bytes are out; the bytes the file got, and \<open>None\<close> where the
  kernel's answers end before the loop does. A short answer is resumed where it stopped.
\<close>

fun dump_loop :: "u8 list \<Rightarrow> nat \<Rightarrow> int list \<Rightarrow> u8 list option" where
  "dump_loop dat write_size ks =
     (if write_size = length dat then Some []
      else case ks of
        [] \<Rightarrow> None
      | wr # rest \<Rightarrow>
          if wr \<le> 0 then Some []
          else map_option ((@) (take (nat wr) (drop write_size dat)))
            (dump_loop dat (write_size + nat wr) rest))"

definition write2file :: "string \<Rightarrow> u8 list \<Rightarrow> dump_answers \<Rightarrow> dump_state \<Rightarrow> files
    \<Rightarrow> (dump_state \<times> files) option" where
  "write2file sfilename dat k st fs =
     (let filename = (case dump_name st of None \<Rightarrow> sfilename | Some n \<Rightarrow> n);
          st = st\<lparr>dump_name := Some filename\<rparr>;
          st = (if dump_fd st = -1 then st\<lparr>dump_fd := k_open k\<rparr> else st)
      in if dump_fd st = -1 then Some (st, fs)
         else if k_fstat k \<noteq> 0 then Some (st\<lparr>dump_fd := -1\<rparr>, fs)
         else
           let before = (case umap_find filename fs of None \<Rightarrow> [] | Some c \<Rightarrow> c);
               base = (if MAX_SIZE \<le> k_size k then [] else before)
           in map_option (\<lambda>out. (st, umap_set filename (base @ out) fs)) (dump_loop dat 0 (k_writes k)))"

fun writes_within :: "nat \<Rightarrow> int list \<Rightarrow> bool" where
  "writes_within n [] = True"
| "writes_within n (s # ks) =
     (n = 0 \<or> s \<le> int n \<and> (0 < s \<longrightarrow> writes_within (n - nat s) ks))"

declare dump_loop.simps [simp del]

lemma dump_loop_correct:
  assumes "k \<le> length dat" "writes_within (length dat - k) ks" "length dat - k \<le> length ks"
  shows "\<exists>n. dump_loop dat k ks = Some (take n (drop k dat)) \<and>
    ((\<forall>s\<in>set ks. 0 < s) \<longrightarrow> take n (drop k dat) = drop k dat)"
  using assms
proof (induction ks arbitrary: k)
  case Nil
  then show ?case by (subst dump_loop.simps) (auto intro: exI [of _ 0])
next
  case (Cons s ks)
  show ?case
  proof (cases "k = length dat \<or> s \<le> 0")
    case True
    then show ?thesis by (subst dump_loop.simps) (auto intro: exI [of _ 0])
  next
    case False
    then have s: "nat s \<le> length dat - k" "0 < nat s" using Cons.prems by auto
    with Cons.prems False have "\<exists>n. dump_loop dat (k + nat s) ks = Some (take n (drop (k + nat s) dat)) \<and>
        ((\<forall>s\<in>set ks. 0 < s) \<longrightarrow> take n (drop (k + nat s) dat) = drop (k + nat s) dat)"
      by (intro Cons.IH) (auto simp: diff_diff_left)
    then obtain n where
      n: "dump_loop dat (k + nat s) ks = Some (take n (drop (k + nat s) dat))"
        "(\<forall>s\<in>set ks. 0 < s) \<longrightarrow> take n (drop (k + nat s) dat) = drop (k + nat s) dat"
      by blast
    have "take (nat s) (drop k dat) @ take n (drop (k + nat s) dat) = take (nat s + n) (drop k dat)"
      by (simp only: take_add drop_drop add.commute [of k])
    moreover have "take (nat s) (drop k dat) @ drop (k + nat s) dat = drop k dat"
      by (metis append_take_drop_id drop_drop add.commute)
    ultimately show ?thesis
      using n False
      by (subst dump_loop.simps) (auto intro!: exI [of _ "nat s + n"])
  qed
qed

text \<open>When the file can be opened and no \<open>write\<close> fails, \<open>write2file\<close> returns and the file ends
  with the data, once and in order, behind what it held, or alone when it had reached a
  gibibyte.\<close>

theorem write2file_appends:
  assumes "dump_name st = None" "dump_fd st = -1" "k_open k \<noteq> -1" "k_fstat k = 0"
    and "writes_within (length dat) (k_writes k)" "length dat \<le> length (k_writes k)"
    and "list_all (\<lambda>s. 0 < s) (k_writes k)" "umap_find name fs = Some old"
  shows "\<exists>st1 fs1. write2file name dat k st fs = Some (st1, fs1) \<and>
    umap_find name fs1 = Some ((if MAX_SIZE \<le> k_size k then [] else old) @ dat)"
  using assms dump_loop_correct [of 0 dat "k_writes k"]
  by (auto simp: write2file_def Let_def umap_simps list_all_iff)

lemma write2file_appends_witness:
  "\<exists>st1 fs1. write2file ''f'' [1, 2, 3] \<lparr>k_open = 4, k_fstat = 0, k_size = 1, k_writes = [1, 2, 1]\<rparr>
      \<lparr>dump_name = None, dump_fd = -1\<rparr> [(''f'', [9])] = Some (st1, fs1) \<and>
    umap_find ''f'' fs1 = Some ((if MAX_SIZE \<le> k_size \<lparr>k_open = 4, k_fstat = 0, k_size = 1,
      k_writes = [1, 2, 1]\<rparr> then [] else [9]) @ [1, 2, 3])"
  by (rule write2file_appends) (simp_all add: umap_find_def)

text \<open>The name of the dump file is fixed by the first call: a call with another name leaves the
  file of that name as it was.\<close>

theorem write2file_keeps_first_name:
  assumes "dump_name st = Some first" "other \<noteq> first" "write2file other dat k st fs = Some (st1, fs1)"
  shows "umap_find other fs1 = umap_find other fs \<and> dump_name st1 = Some first"
  using assms by (auto simp: write2file_def Let_def umap_simps split: if_splits)

lemma write2file_keeps_first_name_witness:
  "\<exists>st1 fs1. write2file ''b'' [1] \<lparr>k_open = 4, k_fstat = 0, k_size = 1, k_writes = [1]\<rparr>
      \<lparr>dump_name = Some ''a'', dump_fd = 3\<rparr> [(''a'', [9])] = Some (st1, fs1) \<and>
    umap_find ''b'' fs1 = umap_find ''b'' [(''a'', [9])] \<and> dump_name st1 = Some ''a''"
proof -
  have "\<exists>st1 fs1. write2file ''b'' [1] \<lparr>k_open = 4, k_fstat = 0, k_size = 1, k_writes = [1]\<rparr>
      \<lparr>dump_name = Some ''a'', dump_fd = 3\<rparr> [(''a'', [9])] = Some (st1, fs1)"
    by (simp add: write2file_def Let_def MAX_SIZE_def dump_loop.simps)
  then obtain st1 fs1 where w: "write2file ''b'' [1] \<lparr>k_open = 4, k_fstat = 0, k_size = 1, k_writes = [1]\<rparr>
      \<lparr>dump_name = Some ''a'', dump_fd = 3\<rparr> [(''a'', [9])] = Some (st1, fs1)" by blast
  from write2file_keeps_first_name [OF _ _ w, of "''a''"] w show ?thesis by simp
qed

end
