(* ===== verification/Kernel.thy ===== *)
theory Kernel
  imports Prelude
begin

text \<open>
  The operating system as the event loops see it: the log of the calls they make, the events
  and answers they get, and the bookkeeping of descriptors the log implies.
\<close>


section \<open>System calls\<close>

datatype sys =
    Opened fd              \<comment> \<open>a new descriptor: \<open>accept4\<close>, \<open>epoll_create1\<close>, \<open>eventfd\<close>, \<open>timerfd_create\<close>\<close>
  | Closed fd              \<comment> \<open>\<open>close\<close>\<close>
  | Ctl_add fd fd bool     \<comment> \<open>\<open>epoll_ctl\<close> with \<open>EPOLL_CTL_ADD\<close>, and whether it succeeded\<close>
  | Ctl_del fd fd          \<comment> \<open>\<open>epoll_ctl\<close> with \<open>EPOLL_CTL_DEL\<close>\<close>
  | Sent fd "u8 list"      \<comment> \<open>\<open>send\<close>\<close>
  | Sent_text fd string    \<comment> \<open>\<open>send\<close> of a message\<close>
  | Shut_write fd          \<comment> \<open>\<open>shutdown\<close> of the writing side\<close>
  | Woken fd               \<comment> \<open>\<open>write\<close> of 1 to an \<open>eventfd\<close>\<close>
  | Written "u8 list"      \<comment> \<open>\<open>write\<close> to standard output\<close>

datatype accept_result = Accepted fd string | Accept_failed errno

definition EPOLLIN :: u32 where "EPOLLIN = 1"
definition EPOLLERR :: u32 where "EPOLLERR = 8"
definition EPOLLHUP :: u32 where "EPOLLHUP = 16"
definition EPOLLRDHUP :: u32 where "EPOLLRDHUP = 8192"

lemmas epoll_flags = EPOLLIN_def EPOLLERR_def EPOLLHUP_def EPOLLRDHUP_def

text \<open>The descriptor a call returned, if it did not return -1.\<close>

definition opened :: "fd \<Rightarrow> sys list" where
  "opened fd = (if fd = -1 then [] else [Opened fd])"

record epoll_event =
  ev_fd :: fd
  evs :: u32

definition hangs_up :: "epoll_event \<Rightarrow> bool" where
  "hangs_up ev \<longleftrightarrow> evs ev AND (EPOLLHUP OR EPOLLRDHUP OR EPOLLERR) \<noteq> 0"

definition readable :: "epoll_event \<Rightarrow> bool" where
  "readable ev \<longleftrightarrow> \<not> hangs_up ev \<and> evs ev AND EPOLLIN \<noteq> 0"


text \<open>
  An accepted descriptor is not in use; \<open>keeps\<close> says which ones the server keeps open.
\<close>

fun accepts_fresh :: "(fd \<Rightarrow> bool) \<Rightarrow> fd set \<Rightarrow> accept_result list \<Rightarrow> bool" where
  "accepts_fresh keeps S [] = True"
| "accepts_fresh keeps S (Accept_failed errn # rest) = accepts_fresh keeps S rest"
| "accepts_fresh keeps S (Accepted fd addr # rest) =
     (0 < fd \<and> fd \<notin> S \<and> accepts_fresh keeps (if keeps fd then insert fd S else S) rest)"


section \<open>Replaying the log\<close>

text \<open>
  The descriptors open after a sequence of calls; opening one that is open or closing one
  that is not is an error, closing a negative one has no effect (\<open>EBADF\<close>).
\<close>

fun fd_step :: "sys \<Rightarrow> fd set \<Rightarrow> fd set option" where
  "fd_step (Opened fd) S = (if fd \<in> S then None else Some (insert fd S))"
| "fd_step (Closed fd) S =
     (if fd \<in> S then Some (S - {fd}) else if fd < 0 then Some S else None)"
| "fd_step (Ctl_add p fd ok) S = Some S"
| "fd_step (Ctl_del p fd) S = Some S"
| "fd_step (Sent fd bs) S = Some S"
| "fd_step (Sent_text fd s) S = Some S"
| "fd_step (Shut_write fd) S = Some S"
| "fd_step (Woken fd) S = Some S"
| "fd_step (Written bs) S = Some S"

fun replay :: "sys list \<Rightarrow> fd set \<Rightarrow> fd set option" where
  "replay [] S = Some S"
| "replay (s # ss) S = Option.bind (fd_step s S) (replay ss)"

lemma replay_append [simp]: "replay (xs @ ys) S = Option.bind (replay xs S) (replay ys)"
  by (induction xs arbitrary: S) (auto split: bind_split)

lemma replay_quiet:
  "(\<And>s. s \<in> set ss \<Longrightarrow> fd_step s S = Some S) \<Longrightarrow> replay ss S = Some S"
  by (induction ss) auto

lemma replay_sends [simp]:
  "replay (map (\<lambda>c. Sent (f c) (g c)) xs) S = Some S"
  by (rule replay_quiet) auto

lemma replay_closes:
  "distinct fds \<Longrightarrow> set fds \<subseteq> S \<Longrightarrow> replay (map Closed fds) S = Some (S - set fds)"
proof (induction fds arbitrary: S)
  case Nil
  then show ?case by simp
next
  case (Cons fd fds)
  have "replay (map Closed fds) (S - {fd}) = Some (S - {fd} - set fds)"
    using Cons.prems by (intro Cons.IH) auto
  with Cons.prems show ?case by (simp add: Diff_insert2 [symmetric] set_diff_eq)
qed


fun closed_fds :: "sys list \<Rightarrow> fd list" where
  "closed_fds [] = []"
| "closed_fds (Closed fd # ss) = fd # closed_fds ss"
| "closed_fds (s # ss) = closed_fds ss"

lemma closed_fds_append [simp]: "closed_fds (xs @ ys) = closed_fds xs @ closed_fds ys"
  by (induction xs rule: closed_fds.induct) simp_all

lemma closed_fds_map [simp]: "closed_fds (map Closed fds) = fds"
  by (induction fds) simp_all

lemma closed_fds_map_fst [simp]: "closed_fds (map (\<lambda>p. Closed (fst p)) ps) = map fst ps"
  by (induction ps) simp_all

lemma closed_fds_removed [simp]:
  "closed_fds (concat (map (\<lambda>fd. [Ctl_del p fd, Closed fd]) fds)) = fds"
  by (induction fds) simp_all

lemma replay_only_closes:
  assumes "\<And>s. s \<in> set ss \<Longrightarrow> (\<exists>fd. s = Closed fd) \<or> (\<forall>S. fd_step s S = Some S)"
  shows "replay ss S = replay (map Closed (closed_fds ss)) S"
  using assms
proof (induction ss arbitrary: S)
  case Nil
  then show ?case by simp
next
  case (Cons s ss)
  have ih: "replay ss S = replay (map Closed (closed_fds ss)) S" for S
    using Cons.prems by (intro Cons.IH) auto
  show ?case
  proof (cases "\<exists>fd. s = Closed fd")
    case True
    with ih show ?thesis by auto
  next
    case False
    with Cons.prems [of s] have "fd_step s S = Some S" by auto
    with False ih show ?thesis by (cases s) (auto split: if_splits)
  qed
qed


end
