(* ===== verification/SimpleServer.thy ===== *)
theory SimpleServer
  imports Kernel "HOL-Library.Multiset"
begin

text \<open>
  \<open>class EpollServer\<close> of \<open>simpleepoll/main.cpp\<close>: several threads wait on one edge-triggered
  \<open>epoll\<close> and serve whatever it reports. Every thread is a program counter, every step one
  system call or one look at \<open>running\<close>. The kernel's side of the connections is a table that
  gives each accepted connection a serial number, so that a descriptor number that is used
  again does not hide which connection is meant.
\<close>


section \<open>State\<close>

datatype server_pc =
    T_loop                     \<comment> \<open>at \<open>while (running)\<close>\<close>
  | T_wait                     \<comment> \<open>in \<open>epoll_wait\<close>\<close>
  | T_batch "fd list"          \<comment> \<open>the events still to be handled\<close>
  | T_event fd "fd list"       \<comment> \<open>compares the event with \<open>server_fd\<close>\<close>
  | T_accept "fd list"         \<comment> \<open>at \<open>while (running)\<close> of \<open>accept_connections\<close>\<close>
  | T_accept4 "fd list"
  | T_add fd "fd list"         \<comment> \<open>at \<open>epoll_ctl\<close>\<close>
  | T_refuse fd "fd list"      \<comment> \<open>at \<open>close\<close> after \<open>epoll_ctl\<close> has failed\<close>
  | T_client fd "fd list"      \<comment> \<open>at \<open>while (running)\<close> of \<open>handle_client\<close>\<close>
  | T_recv fd "fd list"
  | T_close fd "fd list"       \<comment> \<open>at \<open>close\<close> after the end of the connection\<close>
  | T_exit

record simple_server =
  server_fd :: fd
  epoll_fd :: fd
  srunning :: bool
  threads :: "server_pc list"
  scalls :: "sys list"                   \<comment> \<open>calls of the constructor and of \<open>stop\<close>\<close>
  table :: "(fd \<times> nat) list"             \<comment> \<open>the connections open: descriptor and serial number\<close>
  accepted :: nat
  ended :: "nat list"                    \<comment> \<open>connections whose end \<open>recv\<close> has reported\<close>
  refused :: "nat list"                  \<comment> \<open>connections \<open>epoll\<close> has refused to watch\<close>
  closed :: "nat list"                   \<comment> \<open>connections \<open>close\<close> has closed\<close>
  bad_closes :: nat                      \<comment> \<open>calls of \<open>close\<close> for a descriptor that is not open\<close>


section \<open>Constructor and \<open>stop\<close>\<close>

record server_answers =
  v_socket :: fd
  v_reuse :: int
  v_bind :: int
  v_listen :: int
  v_epoll :: fd
  v_ctl :: int

definition new_server :: "server_answers \<Rightarrow> nat \<Rightarrow> (exn \<times> sys list) + simple_server" where
  "new_server v thread_count =
     (let sfd = v_socket v
      in if sfd = -1 then Inl (Runtime_error ''Failed to create socket'', [])
      else if v_reuse v < 0 then
        Inl (Runtime_error ''Failed to set SO_REUSEADDR'', [Opened sfd, Closed sfd])
      else if v_bind v < 0 then
        Inl (Runtime_error ''Failed to bind socket'', [Opened sfd, Closed sfd])
      else if v_listen v < 0 then
        Inl (Runtime_error ''Failed to listen'', [Opened sfd, Closed sfd])
      else if v_epoll v = -1 then
        Inl (Runtime_error ''Failed to create epoll'', [Opened sfd, Closed sfd])
      else if v_ctl v = -1 then
        Inl (Runtime_error ''Failed to add server fd to epoll'',
             [Opened sfd, Opened (v_epoll v), Ctl_add (v_epoll v) sfd False, Closed sfd, Closed (v_epoll v)])
      else Inr \<lparr>server_fd = sfd, epoll_fd = v_epoll v, srunning = True,
                threads = replicate thread_count T_loop,
                scalls = [Opened sfd, Opened (v_epoll v), Ctl_add (v_epoll v) sfd True],
                table = [], accepted = 0, ended = [], refused = [], closed = [], bad_closes = 0\<rparr>)"

text \<open>\<open>stop\<close> up to the \<open>join\<close> of the threads, which is \<open>joined\<close>.\<close>

definition stop_server :: "simple_server \<Rightarrow> simple_server" where
  "stop_server s =
     (if srunning s then
        (let s = s\<lparr>srunning := False\<rparr>;
             s = (if server_fd s \<noteq> -1
                  then s\<lparr>scalls := scalls s @ [Closed (server_fd s)], server_fd := -1\<rparr> else s)
         in if epoll_fd s \<noteq> -1
            then s\<lparr>scalls := scalls s @ [Closed (epoll_fd s)], epoll_fd := -1\<rparr> else s)
      else s)"

definition joined :: "simple_server \<Rightarrow> bool" where
  "joined s \<longleftrightarrow> list_all (\<lambda>p. p = T_exit) (threads s)"


section \<open>Threads\<close>

text \<open>\<open>close\<close> of a descriptor, as the kernel does it.\<close>

definition kernel_close :: "fd \<Rightarrow> simple_server \<Rightarrow> simple_server" where
  "kernel_close fd s =
     (case map_of (table s) fd of
        None \<Rightarrow> s\<lparr>bad_closes := bad_closes s + 1\<rparr>
      | Some k \<Rightarrow> s\<lparr>table := filter (\<lambda>e. fst e \<noteq> fd) (table s), closed := closed s @ [k]\<rparr>)"

text \<open>Which connection a descriptor stands for at this moment, for the record.\<close>

definition note_connection ::
  "((nat list \<Rightarrow> nat list) \<Rightarrow> simple_server \<Rightarrow> simple_server) \<Rightarrow> fd \<Rightarrow> simple_server \<Rightarrow> simple_server"
where
  "note_connection upd fd s =
     (case map_of (table s) fd of None \<Rightarrow> s | Some k \<Rightarrow> upd (\<lambda>ks. ks @ [k]) s)"

datatype recv_answer = Bytes | End | Would_block | Failed

text \<open>
  What the kernel answers to the call a thread makes. \<open>Events\<close>: the descriptors \<open>epoll_wait\<close>
  reports, empty at a timeout; \<open>No_events\<close>: it fails.
\<close>

datatype answer =
    Events "fd list" | No_events
  | New_client fd | No_client
  | Ctl bool
  | Recv recv_answer
  | Nothing

definition at :: "nat \<Rightarrow> simple_server \<Rightarrow> server_pc" where
  "at i s = (if i < length (threads s) then threads s ! i else T_exit)"

definition jump :: "nat \<Rightarrow> server_pc \<Rightarrow> simple_server \<Rightarrow> simple_server" where
  "jump i p s = s\<lparr>threads := (threads s)[i := p]\<rparr>"

definition thread_step :: "nat \<Rightarrow> answer \<Rightarrow> simple_server \<Rightarrow> simple_server option" where
  "thread_step i a s =
     (case at i s of
        T_loop \<Rightarrow> Some (jump i (if srunning s then T_wait else T_exit) s)
      | T_wait \<Rightarrow>
          (case a of
             Events fds \<Rightarrow> Some (jump i (T_batch fds) s)
           | No_events \<Rightarrow> Some (jump i T_loop s)
           | _ \<Rightarrow> None)
      | T_batch fds \<Rightarrow>
          (case fds of
             [] \<Rightarrow> Some (jump i T_loop s)
           | fd # rest \<Rightarrow> Some (jump i (if srunning s then T_event fd rest else T_loop) s))
      | T_event fd rest \<Rightarrow>
          Some (jump i (if fd = server_fd s then T_accept rest else T_client fd rest) s)
      | T_accept rest \<Rightarrow> Some (jump i (if srunning s then T_accept4 rest else T_batch rest) s)
      | T_accept4 rest \<Rightarrow>
          (case a of
             New_client fd \<Rightarrow>
               Some (jump i (T_add fd rest)
                 (s\<lparr>table := (fd, accepted s) # table s, accepted := accepted s + 1\<rparr>))
           | No_client \<Rightarrow> Some (jump i (T_batch rest) s)
           | _ \<Rightarrow> None)
      | T_add fd rest \<Rightarrow>
          (case a of
             Ctl ok \<Rightarrow>
               Some (if ok then jump i (T_accept rest) s
                     else jump i (T_refuse fd rest) (note_connection refused_update fd s))
           | _ \<Rightarrow> None)
      | T_refuse fd rest \<Rightarrow> Some (jump i (T_accept rest) (kernel_close fd s))
      | T_client fd rest \<Rightarrow> Some (jump i (if srunning s then T_recv fd rest else T_batch rest) s)
      | T_recv fd rest \<Rightarrow>
          (case a of
             Recv Bytes \<Rightarrow> Some (jump i (T_client fd rest) s)
           | Recv Would_block \<Rightarrow> Some (jump i (T_batch rest) s)
           | Recv e \<Rightarrow>
               Some (jump i (T_close fd rest)
                 (note_connection ended_update fd s))
           | _ \<Rightarrow> None)
      | T_close fd rest \<Rightarrow> Some (jump i (T_batch rest) (kernel_close fd s))
      | T_exit \<Rightarrow> None)"

text \<open>
  What the kernel may answer: \<open>epoll\<close> reports a watched descriptor at most once per call, a new
  descriptor is not one that is open, and \<open>recv\<close> of an open socket reports an end only when
  the peer is gone, which \<open>ended\<close> then records.
\<close>

definition possible :: "answer \<Rightarrow> simple_server \<Rightarrow> bool" where
  "possible a s \<longleftrightarrow>
     (case a of
        Events fds \<Rightarrow> distinct fds \<and> (\<forall>fd \<in> set fds. fd \<in> fst ` set (table s) \<or> fd = server_fd s \<and> fd \<noteq> -1)
      | New_client fd \<Rightarrow> 0 \<le> fd \<and> fd \<notin> fst ` set (table s) \<and> fd \<noteq> server_fd s \<and> fd \<noteq> epoll_fd s
      | _ \<Rightarrow> True)"

inductive server_steps :: "simple_server \<Rightarrow> simple_server \<Rightarrow> bool" for s0 where
  begins: "server_steps s0 s0"
| thread: "\<lbrakk> server_steps s0 s; possible a s; thread_step i a s = Some s' \<rbrakk> \<Longrightarrow> server_steps s0 s'"
| stops: "server_steps s0 s \<Longrightarrow> server_steps s0 (stop_server s)"

fun thread_run :: "(nat \<times> answer) list \<Rightarrow> simple_server \<Rightarrow> simple_server option" where
  "thread_run [] s = Some s"
| "thread_run ((i, a) # moves) s =
     (if possible a s then Option.bind (thread_step i a s) (thread_run moves) else None)"

lemma thread_run_steps:
  "thread_run moves s = Some s' \<Longrightarrow> server_steps s0 s \<Longrightarrow> server_steps s0 s'"
  by (induction moves s rule: thread_run.induct) (auto split: if_splits bind_splits intro: server_steps.thread)


section \<open>One thread\<close>

lemma at_jump [simp]: "at i s \<noteq> T_exit \<Longrightarrow> at j (jump i p s) = (if j = i then p else at j s)"
  by (auto simp: at_def jump_def split: if_splits)

lemma jump_fields [simp]:
  "server_fd (jump i p s) = server_fd s" "epoll_fd (jump i p s) = epoll_fd s"
  "srunning (jump i p s) = srunning s" "scalls (jump i p s) = scalls s" "table (jump i p s) = table s"
  "accepted (jump i p s) = accepted s" "ended (jump i p s) = ended s" "refused (jump i p s) = refused s"
  "closed (jump i p s) = closed s" "bad_closes (jump i p s) = bad_closes s"
  "length (threads (jump i p s)) = length (threads s)"
  by (simp_all add: jump_def)

lemma at_kernel_close [simp]: "at i (kernel_close fd s) = at i s"
  by (simp add: at_def kernel_close_def split: option.split)

lemma at_update [simp]:
  "at i (s\<lparr>ended := ks\<rparr>) = at i s" "at i (s\<lparr>refused := ks\<rparr>) = at i s" "at i (s\<lparr>closed := ks\<rparr>) = at i s"
  "at i (s\<lparr>accepted := n\<rparr>) = at i s" "at i (s\<lparr>table := t\<rparr>) = at i s"
  by (simp_all add: at_def)

lemma at_note [simp]:
  "at i (note_connection ended_update fd s) = at i s"
  "at i (note_connection refused_update fd s) = at i s"
  by (simp_all add: at_def note_connection_def split: option.split)

lemma stop_fields [simp]:
  "at i (stop_server s) = at i s" "table (stop_server s) = table s" "srunning (stop_server s) = False"
  "accepted (stop_server s) = accepted s" "ended (stop_server s) = ended s"
  "refused (stop_server s) = refused s" "closed (stop_server s) = closed s"
  "server_fd (stop_server s) = (if srunning s then -1 else server_fd s)"
  "bad_closes (stop_server s) = bad_closes s" "threads (stop_server s) = threads s"
  by (simp_all add: stop_server_def at_def Let_def)

abbreviation open_fds :: "simple_server \<Rightarrow> fd set" where
  "open_fds s \<equiv> fst ` set (table s)"

text \<open>The table of the kernel: every connection accepted is open or has been closed once.\<close>

definition table_ok :: "simple_server \<Rightarrow> bool" where
  "table_ok s \<longleftrightarrow>
     distinct (map fst (table s)) \<and> mset (map snd (table s) @ closed s) = mset [0..<accepted s]"

text \<open>
  What a single thread may still touch: \<open>l\<close> is the descriptor it listens on, and the events
  still to be handled are for that one and for open connections.
\<close>

definition batch_ok :: "fd \<Rightarrow> fd list \<Rightarrow> simple_server \<Rightarrow> bool" where
  "batch_ok l fds s \<longleftrightarrow> distinct fds \<and> set fds \<subseteq> insert l (open_fds s)"

fun point_ok :: "fd \<Rightarrow> server_pc \<Rightarrow> simple_server \<Rightarrow> bool" where
  "point_ok l (T_batch fds) s = batch_ok l fds s"
| "point_ok l (T_event fd rest) s = batch_ok l (fd # rest) s"
| "point_ok l (T_accept rest) s = batch_ok l rest s"
| "point_ok l (T_accept4 rest) s = batch_ok l rest s"
| "point_ok l (T_add fd rest) s =
     (batch_ok l rest s \<and> (fd \<notin> set rest \<or> fd = l) \<and> fd \<in> open_fds s)"
| "point_ok l (T_refuse fd rest) s =
     (batch_ok l rest s \<and> (fd \<notin> set rest \<or> fd = l) \<and> fd \<in> open_fds s)"
| "point_ok l (T_client fd rest) s =
     (batch_ok l (fd # rest) s \<and> (srunning s \<longrightarrow> fd \<in> open_fds s))"
| "point_ok l (T_recv fd rest) s =
     (batch_ok l rest s \<and> fd \<notin> set rest \<and> fd \<in> open_fds s)"
| "point_ok l (T_close fd rest) s =
     (batch_ok l rest s \<and> fd \<notin> set rest \<and> fd \<in> open_fds s)"
| "point_ok l _ s = True"

text \<open>The connection the thread is about to close.\<close>

fun closing :: "server_pc \<Rightarrow> simple_server \<Rightarrow> nat set" where
  "closing (T_refuse fd rest) s = set_option (map_of (table s) fd)"
| "closing (T_close fd rest) s = set_option (map_of (table s) fd)"
| "closing _ s = {}"

definition sole_ok :: "fd \<Rightarrow> simple_server \<Rightarrow> bool" where
  "sole_ok l s \<longleftrightarrow>
     length (threads s) = 1 \<and> table_ok s \<and> bad_closes s = 0 \<and> (srunning s \<longrightarrow> server_fd s = l) \<and>
     server_fd s \<in> {l, -1} \<and>
     point_ok l (at 0 s) s \<and> set (ended s) \<union> set (refused s) = set (closed s) \<union> closing (at 0 s) s"

lemma table_ok_note [simp]:
  "table_ok (note_connection ended_update fd s) = table_ok s"
  "table_ok (note_connection refused_update fd s) = table_ok s"
  by (simp_all add: table_ok_def note_connection_def split: option.split)

lemma table_ok_jump [simp]: "table_ok (jump i p s) = table_ok s"
  by (simp add: table_ok_def)

lemma table_ok_accept:
  "table_ok s \<Longrightarrow> fd \<notin> open_fds s \<Longrightarrow>
   table_ok (s\<lparr>table := (fd, accepted s) # table s, accepted := accepted s + 1\<rparr>)"
  by (simp add: table_ok_def)

lemma mset_map_snd_remove:
  "distinct (map fst m) \<Longrightarrow> map_of m k = Some v \<Longrightarrow>
   mset (map snd m) = add_mset v (mset (map snd (filter (\<lambda>e. fst e \<noteq> k) m)))"
proof (induction m)
  case (Cons e m)
  show ?case
  proof (cases "fst e = k")
    case True
    with Cons.prems(1) have "filter (\<lambda>e. fst e \<noteq> k) m = m"
      by (intro filter_True) (auto simp: image_iff)
    with True Cons.prems(2) show ?thesis by (cases e) simp
  next
    case False
    with Cons show ?thesis by (cases e) simp
  qed
qed simp

lemma table_ok_close: "table_ok s \<Longrightarrow> table_ok (kernel_close fd s)"
  using mset_map_snd_remove [of "table s" fd]
  by (auto simp: table_ok_def kernel_close_def distinct_map_filter split: option.split)

lemma point_ok_jump [simp]: "point_ok l p (jump i q s) = point_ok l p s"
  by (cases p) (simp_all add: batch_ok_def)

lemma closing_jump [simp]: "closing p (jump i q s) = closing p s"
  by (cases p) simp_all

lemma batch_ok_tail: "batch_ok l (fd # rest) s \<Longrightarrow> batch_ok l rest s"
  by (simp add: batch_ok_def)

lemma kernel_close_open:
  assumes "fd \<in> open_fds s"
  obtains k where "map_of (table s) fd = Some k"
    "kernel_close fd s = s\<lparr>table := filter (\<lambda>e. fst e \<noteq> fd) (table s), closed := closed s @ [k]\<rparr>"
proof -
  from assms obtain k where "map_of (table s) fd = Some k"
    by (metis map_of_eq_None_iff not_Some_eq)
  then show ?thesis using that by (simp add: kernel_close_def)
qed

lemma note_open:
  assumes "fd \<in> open_fds s"
  obtains k where "map_of (table s) fd = Some k"
    "note_connection upd fd s = upd (\<lambda>ks. ks @ [k]) s"
proof -
  from assms obtain k where "map_of (table s) fd = Some k"
    by (metis map_of_eq_None_iff not_Some_eq)
  then show ?thesis using that by (simp add: note_connection_def)
qed

lemma sole_ok_closes:
  assumes "sole_ok l s" "at 0 s = T_close fd rest \<or> at 0 s = T_refuse fd rest"
    and "p = T_batch rest \<or> p = T_accept rest"
  shows "sole_ok l (jump 0 p (kernel_close fd s))"
proof -
  have fd: "fd \<in> open_fds s" "batch_ok l rest s" "fd \<notin> set rest \<or> fd = l"
    and rest: "set (ended s) \<union> set (refused s) = set (closed s) \<union> set_option (map_of (table s) fd)"
    using assms(1,2) by (elim disjE; simp add: sole_ok_def)+
  from fd(1) obtain k where k: "map_of (table s) fd = Some k"
    "kernel_close fd s = s\<lparr>table := filter (\<lambda>e. fst e \<noteq> fd) (table s), closed := closed s @ [k]\<rparr>"
    by (rule kernel_close_open)
  have "batch_ok l rest (kernel_close fd s)"
    using fd(2,3) by (auto simp: k(2) batch_ok_def)
  moreover have "table_ok (kernel_close fd s)"
    using assms(1) by (intro table_ok_close) (simp add: sole_ok_def)
  moreover have "at 0 s \<noteq> T_exit" using assms(2) by auto
  moreover have "set (ended s) \<union> set (refused s) = insert k (set (closed s))"
    using rest k(1) by auto
  ultimately show ?thesis
    using assms(1,3) by (elim disjE) (simp_all add: sole_ok_def k(2))
qed

lemma sole_ok_notes:
  assumes "sole_ok l s" "at 0 s = T_recv fd rest"
  shows "sole_ok l (jump 0 (T_close fd rest) (note_connection ended_update fd s))"
proof -
  from assms have "fd \<in> open_fds s" by (simp add: sole_ok_def)
  then obtain k where k: "map_of (table s) fd = Some k"
    "note_connection ended_update fd s = s\<lparr>ended := ended s @ [k]\<rparr>"
    by (rule note_open [of fd s ended_update]) simp
  with assms show ?thesis
    by (auto simp: sole_ok_def table_ok_def batch_ok_def)
qed

lemma sole_ok_refuses:
  assumes "sole_ok l s" "at 0 s = T_add fd rest"
  shows "sole_ok l (jump 0 (T_refuse fd rest) (note_connection refused_update fd s))"
proof -
  from assms have "fd \<in> open_fds s" by (simp add: sole_ok_def)
  then obtain k where k: "map_of (table s) fd = Some k"
    "note_connection refused_update fd s = s\<lparr>refused := refused s @ [k]\<rparr>"
    by (rule note_open [of fd s refused_update]) simp
  with assms show ?thesis
    by (auto simp: sole_ok_def table_ok_def batch_ok_def)
qed

lemma sole_ok_accepts:
  assumes "sole_ok l s" "at 0 s = T_accept4 rest" "fd \<notin> open_fds s" "fd \<noteq> server_fd s"
  shows "sole_ok l (jump 0 (T_add fd rest)
    (s\<lparr>table := (fd, accepted s) # table s, accepted := accepted s + 1\<rparr>))"
proof -
  have "table_ok (s\<lparr>table := (fd, accepted s) # table s, accepted := accepted s + 1\<rparr>)"
    using assms(1,3) by (intro table_ok_accept) (simp_all add: sole_ok_def)
  with assms show ?thesis
    by (auto simp: sole_ok_def batch_ok_def)
qed

lemma sole_ok_jump:
  assumes "sole_ok l s" "at 0 s \<noteq> T_exit" "point_ok l p s" "closing p s = closing (at 0 s) s"
  shows "sole_ok l (jump 0 p s)"
  using assms by (simp add: sole_ok_def)

lemma sole_ok_step:
  assumes "sole_ok l s" "possible a s" "thread_step i a s = Some s'"
  shows "sole_ok l s'"
proof -
  have "at i s \<noteq> T_exit"
    using assms(3) by (auto simp: thread_step_def)
  then have [simp]: "i = 0"
    using assms(1) by (auto simp: sole_ok_def at_def split: if_splits)
  have run: "srunning s \<Longrightarrow> server_fd s = l" "server_fd s \<in> {l, -1}" and point: "point_ok l (at 0 s) s"
    using assms(1) by (simp_all add: sole_ok_def)
  show ?thesis
  proof (cases "at 0 s")
    case T_loop
    with assms show ?thesis
      by (cases "srunning s") (auto simp: thread_step_def intro!: sole_ok_jump)
  next
    case T_wait
    with assms run show ?thesis
      by (auto simp: thread_step_def possible_def batch_ok_def split: answer.splits intro!: sole_ok_jump)
  next
    case (T_batch fds)
    with assms point show ?thesis
      by (auto simp: thread_step_def split: list.splits if_splits intro!: sole_ok_jump)
  next
    case (T_event fd rest)
    then have ok: "batch_ok l (fd # rest) s" using point by simp
    then have "fd \<noteq> server_fd s \<Longrightarrow> srunning s \<Longrightarrow> fd \<in> open_fds s"
      using run(1) by (simp add: batch_ok_def)
    with T_event assms ok show ?thesis
      by (auto simp: thread_step_def dest: batch_ok_tail split: if_splits intro!: sole_ok_jump)
  next
    case (T_accept rest)
    with assms point show ?thesis
      by (auto simp: thread_step_def split: if_splits intro!: sole_ok_jump)
  next
    case (T_accept4 rest)
    with assms point sole_ok_accepts [OF assms(1) T_accept4] show ?thesis
      by (auto simp: thread_step_def possible_def split: answer.splits intro: sole_ok_jump)
  next
    case (T_add fd rest)
    with assms point show ?thesis
      by (auto simp: thread_step_def split: answer.splits if_splits intro: sole_ok_jump sole_ok_refuses)
  next
    case (T_refuse fd rest)
    with assms show ?thesis by (auto simp: thread_step_def intro!: sole_ok_closes)
  next
    case (T_client fd rest)
    then have "batch_ok l rest s" "fd \<notin> set rest" "srunning s \<Longrightarrow> fd \<in> open_fds s"
      using point by (simp_all add: batch_ok_def)
    with T_client assms show ?thesis
      by (cases "srunning s"; simp add: thread_step_def; hypsubst; simp add: sole_ok_jump)
  next
    case (T_recv fd rest)
    with assms point show ?thesis
      by (auto simp: thread_step_def batch_ok_def split: answer.splits recv_answer.splits
          intro: sole_ok_jump sole_ok_notes del: imageE)
  next
    case (T_close fd rest)
    with assms show ?thesis by (auto simp: thread_step_def intro!: sole_ok_closes)
  next
    case T_exit
    with assms show ?thesis by (simp add: thread_step_def)
  qed
qed

lemma sole_ok_stop: "sole_ok l s \<Longrightarrow> sole_ok l (stop_server s)"
proof -
  have "point_ok l p s \<Longrightarrow> point_ok l p (stop_server s)" "closing p (stop_server s) = closing p s" for p
    by (cases p; simp add: batch_ok_def)+
  moreover have "table_ok (stop_server s) = table_ok s" by (simp add: table_ok_def)
  ultimately show "sole_ok l s \<Longrightarrow> sole_ok l (stop_server s)" by (simp add: sole_ok_def)
qed


section \<open>Stopping\<close>

fun point_weight :: "server_pc \<Rightarrow> nat" where
  "point_weight T_exit = 0"
| "point_weight T_loop = 1"
| "point_weight (T_batch fds) = 2"
| "point_weight T_wait = 3"
| "point_weight (T_accept rest) = 3"
| "point_weight (T_client fd rest) = 3"
| "point_weight (T_close fd rest) = 3"
| "point_weight (T_event fd rest) = 4"
| "point_weight (T_recv fd rest) = 4"
| "point_weight (T_refuse fd rest) = 4"
| "point_weight (T_add fd rest) = 5"
| "point_weight (T_accept4 rest) = 6"

definition server_weight :: "simple_server \<Rightarrow> nat" where
  "server_weight s = sum_list (map point_weight (threads s))"

lemma server_weight_le: "server_weight s \<le> 6 * length (threads s)"
proof -
  have "sum_list (map point_weight ps) \<le> 6 * length ps" for ps
  proof (induction ps)
    case (Cons p ps)
    then show ?case by (cases p) simp_all
  qed simp
  then show ?thesis by (simp add: server_weight_def)
qed

lemma server_weight_jump:
  "at i s \<noteq> T_exit \<Longrightarrow>
   server_weight (jump i p s) + point_weight (at i s) = server_weight s + point_weight p"
  using sum_list_swap [of i "map point_weight (threads s)" "point_weight p"]
  by (simp add: server_weight_def jump_def at_def map_update split: if_splits)

lemma thread_stepE:
  assumes "thread_step i a s = Some s'"
  obtains p s1 where "s' = jump i p s1" "threads s1 = threads s" "srunning s1 = srunning s"
    "at i s \<noteq> T_exit" "\<not> srunning s \<Longrightarrow> point_weight p < point_weight (at i s)"
proof (cases "at i s")
  case (T_batch fds)
  with assms show ?thesis
    by (cases fds) (auto simp: thread_step_def intro: that [of _ s])
next
  case (T_accept4 rest)
  with assms show ?thesis
    by (auto simp: thread_step_def split: answer.splits intro!: that)
next
  case (T_add fd rest)
  with assms show ?thesis
    by (auto simp: thread_step_def note_connection_def split: answer.splits if_splits option.splits intro!: that)
next
  case (T_refuse fd rest)
  with assms show ?thesis
    by (auto simp: thread_step_def kernel_close_def split: option.splits intro!: that)
next
  case (T_recv fd rest)
  with assms show ?thesis
    by (auto simp: thread_step_def note_connection_def
        split: answer.splits recv_answer.splits option.splits intro!: that)
next
  case (T_close fd rest)
  with assms show ?thesis
    by (auto simp: thread_step_def kernel_close_def split: option.splits intro!: that)
qed (use assms in \<open>auto simp: thread_step_def split: answer.splits if_splits intro!: that\<close>)

lemma stopped_step:
  assumes "thread_step i a s = Some s'" "\<not> srunning s"
  shows "server_weight s' < server_weight s \<and> \<not> srunning s' \<and> length (threads s') = length (threads s)"
  using assms(1)
proof (cases rule: thread_stepE)
  case (1 p s1)
  then have "at i s1 = at i s" by (simp add: at_def)
  moreover have "server_weight s1 = server_weight s" using 1(2) by (simp add: server_weight_def)
  ultimately show ?thesis
    using 1 assms(2) server_weight_jump [of i s1 p] by auto
qed

lemma stopped_run:
  assumes "thread_run moves s = Some s'" "\<not> srunning s"
  shows "length moves + server_weight s' \<le> server_weight s \<and> \<not> srunning s' \<and>
    length (threads s') = length (threads s)"
  using assms
proof (induction moves s rule: thread_run.induct)
  case (2 i a moves s)
  then obtain s1 where s1: "thread_step i a s = Some s1" "thread_run moves s1 = Some s'" "possible a s"
    by (auto split: if_splits bind_splits)
  with stopped_step [OF s1(1)] 2 show ?case by fastforce
qed simp

text \<open>No thread is ever stuck: whatever it waits for, the kernel has an answer.\<close>

lemma thread_can_move:
  assumes "at i s \<noteq> T_exit"
  shows "\<exists>a s'. possible a s \<and> thread_step i a s = Some s'"
proof (cases "at i s")
  case T_wait
  then show ?thesis by (intro exI [of _ No_events]) (simp add: thread_step_def possible_def)
next
  case (T_accept4 rest)
  then show ?thesis by (intro exI [of _ No_client]) (simp add: thread_step_def possible_def)
next
  case (T_add fd rest)
  then show ?thesis by (intro exI [of _ "Ctl True"]) (simp add: thread_step_def possible_def)
next
  case (T_recv fd rest)
  then show ?thesis by (intro exI [of _ "Recv Bytes"]) (simp add: thread_step_def possible_def)
next
  case (T_batch fds)
  then show ?thesis
    by (intro exI [of _ Nothing]) (simp add: thread_step_def possible_def split: list.split)
qed (use assms in \<open>auto simp: thread_step_def possible_def intro!: exI [of _ Nothing]\<close>)

lemma joined_iff: "joined s \<longleftrightarrow> (\<forall>i. at i s = T_exit)"
  by (auto simp: joined_def list_all_length at_def)


section \<open>Properties\<close>

definition demo_server_answers :: server_answers where
  "demo_server_answers = \<lparr>v_socket = 3, v_reuse = 0, v_bind = 0, v_listen = 0, v_epoll = 4, v_ctl = 0\<rparr>"

text \<open>C21: With one thread the server closes exactly the connections whose end it has seen (or that
  it could not watch), each once: no connection is closed early, none is forgotten, and every
  one accepted is open or has been closed.\<close>

theorem simple_server_closes_ended:
  assumes "new_server v 1 = Inr s0" "server_steps s0 s"
    and "\<forall>fd rest. at 0 s \<noteq> T_close fd rest \<and> at 0 s \<noteq> T_refuse fd rest"
  shows "set (closed s) = set (ended s) \<union> set (refused s) \<and> bad_closes s = 0 \<and>
    mset (map snd (table s) @ closed s) = mset [0..<accepted s]"
proof -
  have "sole_ok (v_socket v) s0"
    using assms(1)
    by (auto simp: new_server_def sole_ok_def table_ok_def at_def Let_def split: if_splits)
  with assms(2) have "sole_ok (v_socket v) s"
    by induction (auto intro: sole_ok_step sole_ok_stop)
  with assms(3) show ?thesis
    by (cases "at 0 s") (auto simp: sole_ok_def table_ok_def)
qed

definition demo_two_threads :: simple_server where
  "demo_two_threads = \<lparr>server_fd = 3, epoll_fd = 4, srunning = True, threads = [T_loop, T_loop],
    scalls = [Opened 3, Opened 4, Ctl_add 4 3 True], table = [], accepted = 0, ended = [], refused = [],
    closed = [], bad_closes = 0\<rparr>"

definition demo_accepting :: "(nat \<times> answer) list" where
  "demo_accepting = [(0, Nothing), (0, Events [3]), (0, Nothing), (0, Nothing), (0, Nothing),
    (0, New_client 7), (0, Ctl True), (0, Nothing), (0, No_client), (0, Nothing)]"

definition demo_sees_end :: "nat \<Rightarrow> (nat \<times> answer) list" where
  "demo_sees_end i = [(i, Nothing), (i, Events [7]), (i, Nothing), (i, Nothing), (i, Nothing), (i, Recv End)]"

text \<open>With several threads it does not: two of them can be told about the same connection, both
  see its end, and the second \<open>close\<close> hits a new connection that was given the descriptor in
  between, and whose peer has not closed anything.\<close>

theorem simple_server_closes_stranger:
  "\<exists>s0 moves s. new_server demo_server_answers 2 = Inr s0 \<and> thread_run moves s0 = Some s \<and>
    closed s = [0, 1] \<and> 1 \<notin> set (ended s) \<union> set (refused s)"
proof -
  let ?moves = "demo_accepting @ demo_sees_end 0 @ demo_sees_end 1 @ [(0, Nothing), (0, Nothing)] @
    demo_accepting @ [(1, Nothing)]"
  let ?s = "demo_two_threads\<lparr>threads := [T_loop, T_batch []], accepted := 2, ended := [0, 0],
    closed := [0, 1]\<rparr>"
  have "new_server demo_server_answers 2 = Inr demo_two_threads"
    by code_simp
  moreover have "thread_run ?moves demo_two_threads = Some ?s"
    by code_simp
  ultimately show ?thesis
    by - (rule exI [of _ demo_two_threads], rule exI [of _ ?moves], rule exI [of _ ?s],
        simp add: demo_two_threads_def)
qed

text \<open>\<open>stop\<close> returns: once \<open>running\<close> is false the threads make at most six more steps each, and a
  thread that has not ended is never stuck, so \<open>join\<close> comes back.\<close>

theorem stop_server_joins:
  assumes "thread_run moves (stop_server s) = Some s'"
  shows "length moves \<le> 6 * length (threads s) \<and>
    (joined s' \<or> (\<exists>i a s''. possible a s' \<and> thread_step i a s' = Some s''))"
  using stopped_run [OF assms] server_weight_le [of "stop_server s"] thread_can_move [of _ s']
  by (auto simp: joined_iff)

text \<open>Witnesses: a server with one thread that has accepted a client and seen it go.\<close>

definition demo_started_server :: simple_server where
  "demo_started_server = projr (new_server demo_server_answers 1)"

definition demo_served :: simple_server where
  "demo_served = the (thread_run [(0, Nothing), (0, Events [3]), (0, Nothing), (0, Nothing), (0, Nothing),
     (0, New_client 7), (0, Ctl True), (0, Nothing), (0, No_client), (0, Nothing), (0, Nothing),
     (0, Events [7]), (0, Nothing), (0, Nothing), (0, Nothing), (0, Recv End), (0, Nothing)] demo_started_server)"

lemmas demo_server_defs =
  demo_started_server_def demo_served_def new_server_def demo_server_answers_def thread_step_def
  possible_def at_def jump_def note_connection_def kernel_close_def

lemma demo_server_new: "new_server demo_server_answers 1 = Inr demo_started_server"
  by (simp add: demo_server_defs)

lemma demo_served_reached: "server_steps demo_started_server demo_served"
  unfolding demo_served_def
  by (rule thread_run_steps [OF _ server_steps.begins], rule option.collapse [symmetric]) (simp add: demo_server_defs)

lemma simple_server_closes_ended_witness: "set (closed demo_served) = {0} \<and> bad_closes demo_served = 0"
proof -
  have "at 0 demo_served = T_batch []" "ended demo_served = [0]" "refused demo_served = []"
    by (simp_all add: demo_server_defs)
  with simple_server_closes_ended [OF demo_server_new demo_served_reached] show ?thesis by simp
qed

lemma stop_server_joins_witness:
  "1 \<le> 6 * length (threads demo_started_server) \<and> joined (jump 0 T_exit (stop_server demo_started_server))"
proof -
  have "thread_run [(0, Nothing)] (stop_server demo_started_server) =
    Some (jump 0 T_exit (stop_server demo_started_server))"
    by (simp add: demo_server_defs stop_server_def)
  from stop_server_joins [OF this] show ?thesis
    by (simp add: demo_server_defs stop_server_def joined_def)
qed

text \<open>A constructor that fails leaves nothing open, and \<open>stop\<close> closes what it opened once.\<close>

lemma new_server_no_leak:
  assumes "v_epoll v = -1 \<or> v_epoll v \<noteq> v_socket v"
  shows "case new_server v n of
      Inl (e, calls) \<Rightarrow> replay calls {} = Some {}
    | Inr s \<Rightarrow> replay (scalls s) {} = Some {server_fd s, epoll_fd s} \<and>
        replay (scalls (stop_server (stop_server s))) {} = Some {}"
  using assms by (auto simp: new_server_def stop_server_def Let_def)

text \<open>The clients are not among it: \<open>stop\<close> leaves every connection open.\<close>

lemma stop_leaves_clients: "table (stop_server s) = table s" "closed (stop_server s) = closed s"
  by simp_all


section \<open>The program\<close>

text \<open>
  \<open>main\<close>: the server with four threads, Enter, \<open>stop\<close>, and the destructor, which calls \<open>stop\<close>
  again. An exception of the constructor makes the status 1. \<open>before\<close> and \<open>joining\<close> are the steps
  of the threads up to \<open>stop\<close> and while it waits for them; the result holds the status, the calls
  of constructor and \<open>stop\<close>, and the server as \<open>main\<close> leaves it.
\<close>

definition simple_main :: "server_answers \<Rightarrow> (nat \<times> answer) list \<Rightarrow> (nat \<times> answer) list
    \<Rightarrow> (int \<times> sys list \<times> simple_server option) option" where
  "simple_main v before joining =
     (case new_server v 4 of
        Inl (e, ss) \<Rightarrow> Some (1, ss, None)
      | Inr s \<Rightarrow>
          Option.bind (thread_run before s) (\<lambda>s.
          Option.bind (thread_run joining (stop_server s)) (\<lambda>s.
          if joined s then let s = stop_server s in Some (0, scalls s, Some s) else None)))"

text \<open>What no step of a thread changes.\<close>

definition same_setup :: "simple_server \<Rightarrow> simple_server \<Rightarrow> bool" where
  "same_setup s s' \<longleftrightarrow> scalls s' = scalls s \<and> server_fd s' = server_fd s \<and> epoll_fd s' = epoll_fd s \<and>
     srunning s' = srunning s \<and> length (threads s') = length (threads s)"

lemma thread_step_setup:
  assumes "thread_step i a s = Some s'" "possible a s" "table_ok s"
  shows "same_setup s s' \<and> table_ok s'"
proof (cases "at i s")
  case (T_accept4 rest)
  with assms show ?thesis
    by (auto simp: thread_step_def possible_def same_setup_def intro: table_ok_accept [simplified] split: answer.splits)
next
  case (T_add fd rest)
  with assms show ?thesis
    by (auto simp: thread_step_def same_setup_def split: answer.splits if_splits)
      (auto simp: note_connection_def split: option.splits)
next
  case (T_recv fd rest)
  with assms show ?thesis
    by (auto simp: thread_step_def same_setup_def split: answer.splits recv_answer.splits)
      (auto simp: note_connection_def split: option.splits)
next
  case (T_refuse fd rest)
  with assms table_ok_close [OF assms(3), of fd] show ?thesis
    by (auto simp: thread_step_def same_setup_def kernel_close_def split: option.splits)
next
  case (T_close fd rest)
  with assms table_ok_close [OF assms(3), of fd] show ?thesis
    by (auto simp: thread_step_def same_setup_def kernel_close_def split: option.splits)
qed (use assms in \<open>auto simp: thread_step_def same_setup_def split: answer.splits if_splits list.splits\<close>)

lemma thread_run_setup:
  assumes "thread_run moves s = Some s'" "table_ok s"
  shows "same_setup s s' \<and> table_ok s'"
  using assms
proof (induction moves s rule: thread_run.induct)
  case (2 i a moves s)
  then obtain s1 where s1: "thread_step i a s = Some s1" "thread_run moves s1 = Some s'" "possible a s"
    by (auto split: if_splits bind_splits)
  with thread_step_setup [OF s1(1,3) "2.prems"(2)] "2.IH" show ?case by (auto simp: same_setup_def)
qed (simp add: same_setup_def)

lemma new_server_balanced:
  assumes "v_socket v \<notin> B" "v_epoll v \<notin> insert (v_socket v) B" "-1 \<notin> B"
  shows "case new_server v n of
      Inl (e, ss) \<Rightarrow> replay ss B = Some B
    | Inr s \<Rightarrow> replay (scalls s) B = Some ({server_fd s, epoll_fd s} \<union> B) \<and> table_ok s \<and> srunning s \<and>
        server_fd s = v_socket v \<and> epoll_fd s = v_epoll v \<and> length (threads s) = n \<and> v_socket v \<noteq> -1 \<and> v_epoll v \<noteq> -1"
  using assms by (auto simp: new_server_def table_ok_def Let_def)



end
