(* ===== verification/SocketRegistry.thy ===== *)
theory SocketRegistry
  imports Prelude
begin

text \<open>
  The connection registries of \<open>testcontainer/n.h\<close> (\<open>FDSocketRegistry\<close>) and
  \<open>testcontainer/s.h\<close> (\<open>DualUnorderedMapRegistry\<close>): every connection gets an identifier from a
  counter and is found by its descriptor and by its identifier. The contract of the two, an
  index that is one-to-one, is the locale \<open>id_index\<close>.
\<close>


section \<open>The contract\<close>

datatype reg_op = Register fd | Unregister fd

text \<open>The descriptors in use and their identifiers; \<open>n\<close> is the next identifier.\<close>

fun index_spec :: "reg_op list \<Rightarrow> nat \<Rightarrow> (fd \<rightharpoonup> u64) \<Rightarrow> (fd \<rightharpoonup> u64)" where
  "index_spec [] n m = m"
| "index_spec (Register fd # ops) n m = index_spec ops (n + 1) (m(fd \<mapsto> word_of_nat n))"
| "index_spec (Unregister fd # ops) n m = index_spec ops n (m(fd := None))"

fun run_ops :: "(fd \<Rightarrow> 'r \<Rightarrow> 'r) \<Rightarrow> (fd \<Rightarrow> 'r \<Rightarrow> 'r) \<Rightarrow> reg_op list \<Rightarrow> 'r \<Rightarrow> 'r" where
  "run_ops reg unreg [] r = r"
| "run_ops reg unreg (Register fd # ops) r = run_ops reg unreg ops (reg fd r)"
| "run_ops reg unreg (Unregister fd # ops) r = run_ops reg unreg ops (unreg fd r)"

definition op_fd :: "reg_op \<Rightarrow> fd" where
  "op_fd p = (case p of Register fd \<Rightarrow> fd | Unregister fd \<Rightarrow> fd)"

locale id_index =
  fixes reg :: "fd \<Rightarrow> 'r \<Rightarrow> 'r"
    and unreg :: "fd \<Rightarrow> 'r \<Rightarrow> 'r"
    and by_fd :: "fd \<Rightarrow> 'r \<Rightarrow> u64 option"
    and by_id :: "u64 \<Rightarrow> 'r \<Rightarrow> fd option"
    and next_id :: "'r \<Rightarrow> nat"
    and ok :: "'r \<Rightarrow> bool"
  assumes reg_law: "\<lbrakk> ok r; 0 \<le> fd; next_id r + 1 < 2 ^ 64 \<rbrakk> \<Longrightarrow>
      ok (reg fd r) \<and> next_id (reg fd r) = next_id r + 1 \<and>
      (\<lambda>x. by_fd x (reg fd r)) = (\<lambda>x. by_fd x r)(fd \<mapsto> word_of_nat (next_id r))"
    and unreg_law: "ok r \<Longrightarrow>
      ok (unreg fd r) \<and> next_id (unreg fd r) = next_id r \<and>
      (\<lambda>x. by_fd x (unreg fd r)) = (\<lambda>x. by_fd x r)(fd := None)"
    and inverse_law: "ok r \<Longrightarrow> by_id i r = Some fd \<longleftrightarrow> by_fd fd r = Some i"
begin

lemma ops_refine:
  assumes "ok r" "next_id r + length ops < 2 ^ 64" "\<forall>p \<in> set ops. 0 \<le> op_fd p"
  shows "ok (run_ops reg unreg ops r) \<and>
    (\<lambda>fd. by_fd fd (run_ops reg unreg ops r)) = index_spec ops (next_id r) (\<lambda>fd. by_fd fd r)"
  using assms
proof (induction ops arbitrary: r)
  case (Cons p ops)
  show ?case
  proof (cases p)
    case (Register fd)
    with Cons.prems have "ok (reg fd r)" "next_id (reg fd r) = next_id r + 1"
      "(\<lambda>x. by_fd x (reg fd r)) = (\<lambda>x. by_fd x r)(fd \<mapsto> word_of_nat (next_id r))"
      using reg_law [of r fd] by (auto simp: op_fd_def)
    with Cons.IH [of "reg fd r"] Cons.prems Register show ?thesis by simp
  next
    case (Unregister fd)
    with Cons.IH [of "unreg fd r"] Cons.prems unreg_law [of r fd] show ?thesis by simp
  qed
qed simp

lemma one_to_one:
  assumes "ok r" "next_id r + length ops < 2 ^ 64" "\<forall>p \<in> set ops. 0 \<le> op_fd p"
  shows "by_id i (run_ops reg unreg ops r) = Some fd \<longleftrightarrow>
    index_spec ops (next_id r) (\<lambda>fd. by_fd fd r) fd = Some i"
proof -
  have "index_spec ops (next_id r) (\<lambda>fd. by_fd fd r) fd = by_fd fd (run_ops reg unreg ops r)"
    using ops_refine [OF assms] by metis
  with ops_refine [OF assms] inverse_law show ?thesis by simp
qed

end


section \<open>\<open>FDSocketRegistry\<close>\<close>

record socket_object =
  so_id :: u64
  so_fd :: fd

text \<open>
  A \<open>shared_ptr\<close> is the address of its object, the position in \<open>objects\<close>; \<open>None\<close> is
  \<open>nullptr\<close>. Descriptors are below the largest \<open>int\<close>, so that \<open>fd + 1\<close> does not overflow.
\<close>

record fd_registry =
  fd_to_data :: "nat option list"
  id_to_data_ptr :: "(u64, nat) umap"
  next_id_counter :: u64
  objects :: "socket_object list"

definition new_fd_registry :: fd_registry where
  "new_fd_registry = \<lparr>fd_to_data = [], id_to_data_ptr = [], next_id_counter = 1, objects = []\<rparr>"

definition register_socket :: "fd \<Rightarrow> fd_registry \<Rightarrow> fd_registry" where
  "register_socket fd r =
     (if fd < 0 then r
      else
        let i = nat fd;
            v = (if length (fd_to_data r) \<le> i
                 then fd_to_data r @ replicate (i + 1 - length (fd_to_data r)) None else fd_to_data r);
            ids = (case v ! i of
                     None \<Rightarrow> id_to_data_ptr r
                   | Some p \<Rightarrow> umap_erase (so_id (objects r ! p)) (id_to_data_ptr r));
            new_id = next_id_counter r;
            new_data = length (objects r)
        in \<lparr>fd_to_data = v[i := Some new_data], id_to_data_ptr = umap_set new_id new_data ids,
            next_id_counter = new_id + 1, objects = objects r @ [\<lparr>so_id = new_id, so_fd = fd\<rparr>]\<rparr>)"

text \<open>
  The condition of \<open>unregister_socket\<close> (line 71) has lost the two operators between its three
  tests. Its comment (the socket is not found) and the negated tests of \<open>find_by_fd\<close> leave their
  disjunction, which the model takes.
\<close>

definition unregister_socket :: "fd \<Rightarrow> fd_registry \<Rightarrow> fd_registry" where
  "unregister_socket fd r =
     (if fd < 0 \<or> length (fd_to_data r) \<le> nat fd then r
      else case fd_to_data r ! nat fd of
             None \<Rightarrow> r
           | Some p \<Rightarrow>
               r\<lparr>id_to_data_ptr := umap_erase (so_id (objects r ! p)) (id_to_data_ptr r),
                 fd_to_data := (fd_to_data r)[nat fd := None]\<rparr>)"

definition find_by_fd :: "fd \<Rightarrow> fd_registry \<Rightarrow> nat option" where
  "find_by_fd fd r =
     (if 0 \<le> fd \<and> nat fd < length (fd_to_data r) then fd_to_data r ! nat fd else None)"

definition find_by_id :: "u64 \<Rightarrow> fd_registry \<Rightarrow> nat option" where
  "find_by_id i r = umap_find i (id_to_data_ptr r)"

text \<open>The two indices hold the same objects, and an object has the keys it is stored under.\<close>

definition fd_registry_ok :: "fd_registry \<Rightarrow> bool" where
  "fd_registry_ok r \<longleftrightarrow>
     (\<forall>fd p. find_by_fd fd r = Some p \<longrightarrow>
        p < length (objects r) \<and> so_fd (objects r ! p) = fd \<and>
        find_by_id (so_id (objects r ! p)) r = Some p) \<and>
     (\<forall>i p. find_by_id i r = Some p \<longrightarrow>
        so_id (objects r ! p) = i \<and> find_by_fd (so_fd (objects r ! p)) r = Some p \<and>
        unat i < unat (next_id_counter r))"

lemma find_by_fd_register:
  "0 \<le> fd \<Longrightarrow>
   find_by_fd x (register_socket fd r) = (if x = fd then Some (length (objects r)) else find_by_fd x r)"
  by (auto simp: find_by_fd_def register_socket_def Let_def nth_append nth_list_update
      simp del: replicate.simps)

lemma find_by_fd_unregister:
  "find_by_fd x (unregister_socket fd r) = (if x = fd then None else find_by_fd x r)"
  by (auto simp: find_by_fd_def unregister_socket_def nth_list_update split: option.split)

lemma old_object:
  "0 \<le> fd \<Longrightarrow>
   (if length (fd_to_data r) \<le> nat fd
    then fd_to_data r @ replicate (nat fd + 1 - length (fd_to_data r)) None else fd_to_data r) ! nat fd =
   find_by_fd fd r"
  by (auto simp: find_by_fd_def nth_append)

lemma find_by_id_register:
  "0 \<le> fd \<Longrightarrow>
   find_by_id i (register_socket fd r) =
     (if i = next_id_counter r then Some (length (objects r))
      else if \<exists>p. find_by_fd fd r = Some p \<and> so_id (objects r ! p) = i then None else find_by_id i r)"
  using old_object [of fd r]
  by (auto simp: find_by_id_def register_socket_def Let_def umap_find_set umap_find_erase split: option.split)

lemma find_by_id_unregister:
  "find_by_id i (unregister_socket fd r) =
     (if \<exists>p. find_by_fd fd r = Some p \<and> so_id (objects r ! p) = i then None else find_by_id i r)"
  by (auto simp: find_by_id_def find_by_fd_def unregister_socket_def umap_find_erase split: option.split)

lemma objects_register:
  "0 \<le> fd \<Longrightarrow> objects (register_socket fd r) = objects r @ [\<lparr>so_id = next_id_counter r, so_fd = fd\<rparr>]"
  "objects (unregister_socket fd r) = objects r"
  "0 \<le> fd \<Longrightarrow> next_id_counter (register_socket fd r) = next_id_counter r + 1"
  "next_id_counter (unregister_socket fd r) = next_id_counter r"
  by (auto simp: register_socket_def unregister_socket_def Let_def split: option.split)

lemma word_succ_unat: "unat (w :: u64) + 1 < 2 ^ 64 \<Longrightarrow> unat (w + 1) = unat w + 1"
  by (simp add: unat_word_ariths)

lemma registered_once:
  assumes "fd_registry_ok r" "find_by_fd fd r = Some p"
  shows "p < length (objects r)" "so_id (objects r ! p) \<noteq> next_id_counter r"
    "find_by_fd fd' r = Some p' \<Longrightarrow> so_id (objects r ! p') = so_id (objects r ! p) \<Longrightarrow> fd' = fd"
  using assms unfolding fd_registry_ok_def by (metis less_irrefl option.inject)+

lemma fd_registry_ok_register:
  assumes "fd_registry_ok r" "0 \<le> fd" "unat (next_id_counter r) + 1 < 2 ^ 64"
  shows "fd_registry_ok (register_socket fd r)"
proof -
  have fresh: "find_by_id (next_id_counter r) r = None"
    using assms(1) unfolding fd_registry_ok_def by (metis less_irrefl not_Some_eq)
  have valid: "p < length (objects r)" if "find_by_id i r = Some p" for i p
    using assms(1) that unfolding fd_registry_ok_def by blast
  note once = registered_once [OF assms(1)]
  show ?thesis
    unfolding fd_registry_ok_def
  proof (intro conjI allI impI)
    fix x p
    assume p: "find_by_fd x (register_socket fd r) = Some p"
    show "p < length (objects (register_socket fd r))" "so_fd (objects (register_socket fd r) ! p) = x"
      "find_by_id (so_id (objects (register_socket fd r) ! p)) (register_socket fd r) = Some p"
      using p assms(1,2) once unfolding fd_registry_ok_def
      by (auto simp: find_by_fd_register find_by_id_register objects_register nth_append less_SucI
          split: if_splits)
  next
    fix i p
    assume p: "find_by_id i (register_socket fd r) = Some p"
    show "so_id (objects (register_socket fd r) ! p) = i"
      "find_by_fd (so_fd (objects (register_socket fd r) ! p)) (register_socket fd r) = Some p"
      "unat i < unat (next_id_counter (register_socket fd r))"
      using p assms(1-3) valid unfolding fd_registry_ok_def
      by (auto simp: find_by_fd_register find_by_id_register objects_register nth_append
          word_succ_unat less_SucI split: if_splits)
  qed
qed

lemma fd_registry_ok_unregister:
  assumes "fd_registry_ok r"
  shows "fd_registry_ok (unregister_socket fd r)"
  using assms registered_once(3) [OF assms] unfolding fd_registry_ok_def
  by (auto simp: find_by_fd_unregister find_by_id_unregister objects_register split: if_splits)

lemma new_fd_registry_ok: "fd_registry_ok new_fd_registry"
  by (simp add: fd_registry_ok_def new_fd_registry_def find_by_fd_def find_by_id_def)

definition id_of_fd :: "fd \<Rightarrow> fd_registry \<Rightarrow> u64 option" where
  "id_of_fd fd r = map_option (\<lambda>p. so_id (objects r ! p)) (find_by_fd fd r)"

definition fd_of_id :: "u64 \<Rightarrow> fd_registry \<Rightarrow> fd option" where
  "fd_of_id i r = map_option (\<lambda>p. so_fd (objects r ! p)) (find_by_id i r)"

lemma id_of_fd_register:
  assumes "fd_registry_ok r" "0 \<le> fd"
  shows "id_of_fd x (register_socket fd r) = (if x = fd then Some (next_id_counter r) else id_of_fd x r)"
  using assms
  by (auto simp: id_of_fd_def find_by_fd_register objects_register nth_append fd_registry_ok_def
      intro!: option.map_cong0 map_option_cong)

lemma fd_of_id_inverse:
  assumes "fd_registry_ok r"
  shows "fd_of_id i r = Some fd \<longleftrightarrow> id_of_fd fd r = Some i"
  using assms unfolding fd_registry_ok_def fd_of_id_def id_of_fd_def map_option_eq_Some by metis

interpretation fdr: id_index register_socket unregister_socket id_of_fd fd_of_id
  "\<lambda>r. unat (next_id_counter r)" fd_registry_ok
proof
  fix r :: fd_registry and fd :: fd
  assume r: "fd_registry_ok r" "0 \<le> fd" "unat (next_id_counter r) + 1 < 2 ^ 64"
  show "fd_registry_ok (register_socket fd r) \<and>
    unat (next_id_counter (register_socket fd r)) = unat (next_id_counter r) + 1 \<and>
    (\<lambda>x. id_of_fd x (register_socket fd r)) =
    (\<lambda>x. id_of_fd x r)(fd \<mapsto> word_of_nat (unat (next_id_counter r)))"
    using r fd_registry_ok_register [OF r]
    by (auto simp: id_of_fd_register objects_register word_succ_unat)
next
  fix r :: fd_registry and fd :: fd
  assume "fd_registry_ok r"
  then show "fd_registry_ok (unregister_socket fd r) \<and>
    unat (next_id_counter (unregister_socket fd r)) = unat (next_id_counter r) \<and>
    (\<lambda>x. id_of_fd x (unregister_socket fd r)) = (\<lambda>x. id_of_fd x r)(fd := None)"
    by (auto simp: fd_registry_ok_unregister objects_register id_of_fd_def find_by_fd_unregister)
qed (rule fd_of_id_inverse)


section \<open>\<open>DualUnorderedMapRegistry\<close>\<close>

text \<open>
  The class template of \<open>s.h\<close>: a stored value is a pointer \<open>'p\<close>, and \<open>vid\<close> is what \<open>->id\<close>
  reads through it. The registry never writes that field: it is the client's.
\<close>

record 'p dual_registry =
  d_ids :: "(u64, 'p) umap"
  d_fds :: "(fd, 'p) umap"
  d_next :: u64

definition new_dual :: "'p dual_registry" where
  "new_dual = \<lparr>d_ids = [], d_fds = [], d_next = 1\<rparr>"

definition dual_insert :: "('p \<Rightarrow> u64) \<Rightarrow> fd \<Rightarrow> 'p \<Rightarrow> 'p dual_registry \<Rightarrow> 'p dual_registry" where
  "dual_insert vid fd val d =
     (let ids = (case umap_find fd (d_fds d) of
                   None \<Rightarrow> d_ids d
                 | Some old \<Rightarrow> umap_erase (vid old) (d_ids d));
          new_id = d_next d
      in \<lparr>d_ids = umap_set new_id val ids, d_fds = umap_set fd val (d_fds d), d_next = new_id + 1\<rparr>)"

definition dual_del :: "('p \<Rightarrow> u64) \<Rightarrow> fd \<Rightarrow> 'p dual_registry \<Rightarrow> 'p dual_registry" where
  "dual_del vid fd d =
     (case umap_find fd (d_fds d) of
        None \<Rightarrow> d
      | Some old \<Rightarrow>
          d\<lparr>d_ids := umap_erase (vid old) (d_ids d), d_fds := umap_erase fd (d_fds d)\<rparr>)"

definition dual_find_by_id :: "u64 \<Rightarrow> 'p dual_registry \<Rightarrow> 'p option" where
  "dual_find_by_id i d = umap_find i (d_ids d)"

text \<open>
  A client that makes the object for identifier \<open>i\<close> with \<open>id = i\<close>: the pointer is then as good
  as the identifier, and the registry keeps the contract.
\<close>

definition dual_register :: "fd \<Rightarrow> u64 dual_registry \<Rightarrow> u64 dual_registry" where
  "dual_register fd d = dual_insert id fd (d_next d) d"

definition dual_by_fd :: "fd \<Rightarrow> u64 dual_registry \<Rightarrow> u64 option" where
  "dual_by_fd fd d = umap_find fd (d_fds d)"

definition dual_fd_of :: "u64 \<Rightarrow> u64 dual_registry \<Rightarrow> fd option" where
  "dual_fd_of i d =
     Option.bind (dual_find_by_id i d) (map_of (map (\<lambda>e. (snd e, fst e)) (d_fds d)))"

definition dual_ok :: "u64 dual_registry \<Rightarrow> bool" where
  "dual_ok d \<longleftrightarrow>
     umap_wf (d_fds d) \<and> inj_on snd (set (d_fds d)) \<and>
     (\<forall>i. dual_find_by_id i d = (if i \<in> snd ` set (d_fds d) then Some i else None)) \<and>
     (\<forall>i \<in> snd ` set (d_fds d). unat i < unat (d_next d))"

lemma umap_find_in: "umap_wf m \<Longrightarrow> umap_find k m = Some v \<longleftrightarrow> (k, v) \<in> set m"
  by (simp add: umap_wf_def umap_find_def)

lemma dual_fd_of_inverse:
  assumes "dual_ok d"
  shows "dual_fd_of i d = Some fd \<longleftrightarrow> dual_by_fd fd d = Some i"
proof -
  have "distinct (map fst (map (\<lambda>e. (snd e, fst e)) (d_fds d)))"
    using assms by (simp add: dual_ok_def umap_wf_def distinct_map comp_def)
  then have "map_of (map (\<lambda>e. (snd e, fst e)) (d_fds d)) i = Some fd \<longleftrightarrow> (fd, i) \<in> set (d_fds d)"
    by (simp add: map_of_eq_Some_iff) force
  moreover have "dual_by_fd fd d = Some i \<longleftrightarrow> (fd, i) \<in> set (d_fds d)"
    using assms by (simp add: dual_by_fd_def umap_find_in dual_ok_def)
  ultimately show ?thesis
    using assms by (auto simp: dual_fd_of_def dual_ok_def rev_image_eqI)
qed

lemma set_umap_set:
  "umap_wf m \<Longrightarrow> set (umap_set k v m) = insert (k, v) {e \<in> set m. fst e \<noteq> k}"
  by (auto simp: umap_set_def umap_count_def umap_wf_def image_iff split: if_splits)

lemma set_umap_erase: "set (umap_erase k m) = {e \<in> set m. fst e \<noteq> k}"
  by (simp add: umap_erase_def)

lemma dual_values:
  assumes "dual_ok d" "umap_find fd (d_fds d) = Some q"
  shows "snd ` {e \<in> set (d_fds d). fst e \<noteq> fd} = snd ` set (d_fds d) - {q}"
proof -
  have q: "(fd, q) \<in> set (d_fds d)" and inj: "inj_on snd (set (d_fds d))" and wf: "umap_wf (d_fds d)"
    using assms by (simp_all add: dual_ok_def umap_find_in)
  have "fst e = fd \<longleftrightarrow> snd e = q" if "e \<in> set (d_fds d)" for e
    using inj_onD [OF inj _ that q] that q wf
    by (cases e) (auto simp: umap_wf_def dest: eq_key_imp_eq_value)
  then show ?thesis by auto
qed

lemma dual_ok_register:
  assumes "dual_ok d" "unat (d_next d) + 1 < 2 ^ 64"
  shows "dual_ok (dual_register fd d)"
proof -
  let ?S = "snd ` {e \<in> set (d_fds d). fst e \<noteq> fd}"
  have new: "d_next d \<notin> snd ` set (d_fds d)"
    using assms(1) unfolding dual_ok_def by blast
  have S: "?S = (case umap_find fd (d_fds d) of None \<Rightarrow> snd ` set (d_fds d) | Some q \<Rightarrow> snd ` set (d_fds d) - {q})"
    using dual_values [OF assms(1), of fd]
    by (auto simp: umap_find_def map_of_eq_None_iff image_iff split: option.split)
  have vals: "snd ` set (d_fds (dual_register fd d)) = insert (d_next d) ?S"
    using assms(1) by (simp add: dual_register_def dual_insert_def dual_ok_def set_umap_set Let_def)
  have "inj_on snd (set (d_fds (dual_register fd d)))"
    using assms(1) new
    by (auto simp: dual_register_def dual_insert_def dual_ok_def set_umap_set Let_def inj_on_def)
  moreover have "dual_find_by_id i (dual_register fd d) = (if i \<in> insert (d_next d) ?S then Some i else None)" for i
    using assms(1) new unfolding S
    by (auto simp: dual_register_def dual_insert_def dual_find_by_id_def dual_ok_def umap_find_set
        umap_find_erase Let_def split: option.split)
  moreover have "\<forall>i \<in> insert (d_next d) ?S. unat i < unat (d_next d + 1)"
    using assms unfolding dual_ok_def by (auto simp: word_succ_unat less_Suc_eq)
  ultimately show ?thesis
    using assms(1) unfolding dual_ok_def vals
    by (simp add: dual_register_def dual_insert_def Let_def)
qed

lemma dual_ok_del:
  assumes "dual_ok d"
  shows "dual_ok (dual_del id fd d)"
proof (cases "umap_find fd (d_fds d)")
  case (Some q)
  then have "dual_find_by_id i (dual_del id fd d) =
      (if i \<in> snd ` set (d_fds (dual_del id fd d)) then Some i else None)" for i
    using assms dual_values [OF assms Some]
    by (simp add: dual_del_def dual_find_by_id_def dual_ok_def umap_find_erase set_umap_erase)
  moreover have "set (d_fds (dual_del id fd d)) \<subseteq> set (d_fds d)"
    using Some by (auto simp: dual_del_def set_umap_erase)
  ultimately show ?thesis
    using assms Some unfolding dual_ok_def
    by (auto simp: dual_del_def set_umap_erase intro: inj_on_subset)
qed (use assms in \<open>simp add: dual_del_def\<close>)

interpretation dual: id_index dual_register "dual_del id" dual_by_fd dual_fd_of
  "\<lambda>d. unat (d_next d)" dual_ok
proof
  fix r :: "u64 dual_registry" and fd :: fd
  assume r: "dual_ok r" "0 \<le> fd" "unat (d_next r) + 1 < 2 ^ 64"
  show "dual_ok (dual_register fd r) \<and>
    unat (d_next (dual_register fd r)) = unat (d_next r) + 1 \<and>
    (\<lambda>x. dual_by_fd x (dual_register fd r)) = (\<lambda>x. dual_by_fd x r)(fd \<mapsto> word_of_nat (unat (d_next r)))"
    using r dual_ok_register [OF r(1,3)]
    by (auto simp: dual_register_def dual_insert_def dual_by_fd_def umap_find_set word_succ_unat Let_def)
next
  fix r :: "u64 dual_registry" and fd :: fd
  assume "dual_ok r"
  then show "dual_ok (dual_del id fd r) \<and> unat (d_next (dual_del id fd r)) = unat (d_next r) \<and>
    (\<lambda>x. dual_by_fd x (dual_del id fd r)) = (\<lambda>x. dual_by_fd x r)(fd := None)"
    using dual_ok_del [of r fd]
    by (auto simp: dual_del_def dual_by_fd_def umap_find_erase split: option.split)
qed (rule dual_fd_of_inverse)


section \<open>Properties\<close>


text \<open>\<open>DualUnorderedMapRegistry\<close> leaks: it never tells a value its identifier, but erases by the
  identifier it reads from the value. With the identifiers left at zero no entry of the
  identifier map is ever removed, whatever is deleted.\<close>

theorem dual_registry_leaks:
  assumes "\<And>p. vid p = 0" "length ops < 2 ^ 64 - 1"
  shows "length (d_ids (run_ops (\<lambda>fd. dual_insert vid fd (ptr fd)) (dual_del vid) ops new_dual)) =
    length (filter (\<lambda>p. \<exists>fd. p = Register fd) ops)"
proof -
  have "length (d_ids (run_ops (\<lambda>fd. dual_insert vid fd (ptr fd)) (dual_del vid) ops d)) =
      length (d_ids d) + length (filter (\<lambda>p. \<exists>fd. p = Register fd) ops)"
    if "\<forall>i \<in> fst ` set (d_ids d). i \<noteq> 0 \<and> unat i < unat (d_next d)"
      "unat (d_next d) + length ops < 2 ^ 64" "d_next d \<noteq> 0" for d
    using that
  proof (induction ops arbitrary: d)
    case (Cons p ops)
    have erase: "umap_erase 0 (d_ids d) = d_ids d"
      using Cons.prems(1) by (force simp: umap_erase_def intro!: filter_True)
    show ?case
    proof (cases p)
      case (Register fd)
      let ?d = "dual_insert vid fd (ptr fd) d"
      have succ: "unat (d_next d + 1) = unat (d_next d) + 1"
        using Cons.prems(2) by (intro word_succ_unat) simp
      have fresh: "\<not> umap_count (d_next d) (d_ids d)"
        using Cons.prems(1) by (auto simp: umap_count_def)
      have ids: "d_ids ?d = umap_set (d_next d) (ptr fd) (d_ids d)" "d_next ?d = d_next d + 1"
        using erase assms(1) by (simp_all add: dual_insert_def Let_def split: option.split)
      have "d_next d + 1 \<noteq> 0"
        using succ by (metis add_is_0 unat_eq_zero zero_neq_one)
      then show ?thesis
        using Cons.IH [of ?d] Cons.prems Register succ fresh ids
        by (auto simp: umap_keys_set length_umap_set less_Suc_eq)
    next
      case (Unregister fd)
      have "d_ids (dual_del vid fd d) = d_ids d" "d_next (dual_del vid fd d) = d_next d"
        using erase assms(1) by (simp_all add: dual_del_def split: option.split)
      with Cons.IH [of "dual_del vid fd d"] Cons.prems Unregister show ?thesis by simp
    qed
  qed simp
  from this [of new_dual] assms(2) show ?thesis by (simp add: new_dual_def)
qed


lemma dual_registry_leaks_witness:
  "length (d_ids (run_ops (\<lambda>fd. dual_insert (\<lambda>p. 0) fd (nat fd)) (dual_del (\<lambda>p. 0))
     [Register 3, Unregister 3, Register 4, Unregister 4] new_dual)) = 2"
  using dual_registry_leaks [of "\<lambda>p. 0" "[Register 3, Unregister 3, Register 4, Unregister 4]" nat]
  by simp

text \<open>With the identifiers set as the client should, the same registry keeps the contract.\<close>

lemma dual_registry_refines:
  assumes "length ops < 2 ^ 64 - 1" "\<forall>p \<in> set ops. 0 \<le> op_fd p"
  shows "dual_fd_of i (run_ops dual_register (dual_del id) ops new_dual) = Some fd \<longleftrightarrow>
    index_spec ops 1 (\<lambda>fd. None) fd = Some i"
proof -
  have start: "unat (d_next new_dual) = 1" "(\<lambda>fd. dual_by_fd fd new_dual) = (\<lambda>fd. None)"
    by (auto simp: new_dual_def dual_by_fd_def)
  have "dual_ok new_dual"
    by (simp add: dual_ok_def new_dual_def dual_find_by_id_def)
  moreover have "unat (d_next new_dual) + length ops < 2 ^ 64"
    using assms(1) unfolding start(1) by simp
  ultimately show ?thesis
    using dual.one_to_one [of new_dual ops i fd] assms(2) unfolding start by simp
qed

end
