(* ===== verification/Stats.thy ===== *)
theory Stats
  imports Prelude
begin

text \<open>
  The two traffic counters, \<open>mync/stats.h\<close> and \<open>netlib/stats.h\<close>. Times are nanoseconds of
  the steady clock, counters 64-bit words. A \<open>double\<close> is its 64-bit pattern and the floating
  point operations and the decimal rendering are the record \<open>fp\<close>, an argument of the
  definitions that compute a rate: no lemma depends on how the hardware rounds.
\<close>


section \<open>Floating point\<close>

type_synonym double = u64
type_synonym time = int

record fp =
  d_lit :: "nat \<Rightarrow> double"
  d_of_u64 :: "u64 \<Rightarrow> double"
  d_of_int :: "int \<Rightarrow> double"
  d_mul :: "double \<Rightarrow> double \<Rightarrow> double"
  d_div :: "double \<Rightarrow> double \<Rightarrow> double"
  d_ge :: "double \<Rightarrow> double \<Rightarrow> bool"
  d_less :: "double \<Rightarrow> double \<Rightarrow> bool"
  d_to_u64 :: "double \<Rightarrow> u64"
  d_fixed2 :: "double \<Rightarrow> string"


section \<open>Durations\<close>

text \<open>
  \<open>duration_cast\<close> to milliseconds and the integer divisions truncate towards zero; the
  times given are never in the future, where this is \<open>div\<close> on naturals.
\<close>

definition duration_ms :: "time \<Rightarrow> time \<Rightarrow> nat" where
  "duration_ms now start_time = nat (now - start_time) div 1000000"

definition duration_parts :: "nat \<Rightarrow> nat \<times> nat \<times> nat \<times> nat" where
  "duration_parts ms =
     (let hours = ms div (3600 * 1000); ms1 = ms mod (3600 * 1000);
          minutes = ms1 div (60 * 1000); ms2 = ms1 mod (60 * 1000);
          seconds = ms2 div 1000; centiseconds = (ms2 mod 1000) div 10
      in (hours, minutes, seconds, centiseconds))"

definition setw2 :: "nat \<Rightarrow> string" where
  "setw2 n = (let s = to_string n in replicate (2 - length s) (CHR ''0'') @ s)"

definition format_duration_since :: "time \<Rightarrow> time \<Rightarrow> string" where
  "format_duration_since now start_time =
     (case duration_parts (duration_ms now start_time) of
        (hours, minutes, seconds, centiseconds) \<Rightarrow>
          setw2 hours @ '':'' @ setw2 minutes @ '':'' @ setw2 seconds @ ''.'' @ setw2 centiseconds)"

lemma char_zero: "CHR ''0'' = char_of (48 :: nat)"
  by code_simp

lemma setw2_digits: "n < 100 \<Longrightarrow> setw2 n = [char_of (48 + n div 10), char_of (48 + n mod 10)]"
  by (simp add: setw2_def char_zero Let_def to_string.simps [of n] to_string.simps [of "n div 10"]
      less_mult_imp_div_less)

text \<open>What a reader of the string gets back.\<close>

definition two_digits :: "string \<Rightarrow> nat" where
  "two_digits s = (of_char (s ! 0) - 48) * 10 + (of_char (s ! 1) - 48)"

lemma two_digits_setw2 [simp]: "n < 100 \<Longrightarrow> two_digits (setw2 n) = n"
  by (simp add: setw2_digits two_digits_def)

lemma two_digits_chars [simp]:
  "n < 100 \<Longrightarrow> two_digits (char_of (48 + n div 10) # char_of (48 + n mod 10) # rest) = n"
  by (simp add: two_digits_def)

lemma length_setw2 [simp]: "n < 100 \<Longrightarrow> length (setw2 n) = 2"
  by (simp add: setw2_digits)

lemma duration_parts_value:
  assumes "duration_parts ms = (h, m, s, c)"
  shows "m < 60" "s < 60" "c < 100" "((h * 60 + m) * 60 + s) * 1000 + c * 10 = ms - ms mod 10"
proof -
  have e: "h = ms div 3600000" "m = ms mod 3600000 div 60000"
      "s = ms mod 3600000 mod 60000 div 1000" "c = ms mod 3600000 mod 60000 mod 1000 div 10"
    using assms by (simp_all add: duration_parts_def Let_def)
  show "m < 60" "s < 60" "c < 100" by (simp_all add: e less_mult_imp_div_less)
  define x y z where "x = ms mod 3600000" and "y = x mod 60000" and "z = y mod 1000"
  have "ms = h * 3600000 + x" "x = m * 60000 + y" "y = s * 1000 + z" "z = c * 10 + z mod 10"
    by (simp_all add: e x_def y_def z_def)
  moreover define r where "r = ms mod 10"
  moreover have "z mod 10 = r"
    by (simp add: x_def y_def z_def r_def mod_mod_cancel)
  ultimately have "ms = ((h * 60 + m) * 60 + s) * 1000 + c * 10 + r"
    by algebra
  then show "((h * 60 + m) * 60 + s) * 1000 + c * 10 = ms - ms mod 10"
    unfolding r_def [symmetric] by simp
qed

text \<open>The up-time string of \<open>mync\<close> shows the elapsed time to the hundredth of a second:
  below 100 hours it has eleven characters, and the four numbers read back from it are the
  elapsed milliseconds rounded down to tens.\<close>

theorem format_duration_exact:
  assumes "duration_ms now start < 360000000"
  shows "(let str = format_duration_since now start
    in length str = 11 \<and>
       ((two_digits str * 60 + two_digits (drop 3 str)) * 60 + two_digits (drop 6 str)) * 1000
         + two_digits (drop 9 str) * 10 = duration_ms now start - duration_ms now start mod 10)"
proof -
  obtain h m s c where p: "duration_parts (duration_ms now start) = (h, m, s, c)"
    by (metis prod_cases4)
  have h: "h < 100"
    using p assms by (auto simp: duration_parts_def Let_def less_mult_imp_div_less)
  note v = duration_parts_value [OF p]
  have "m < 100" "s < 100" "c < 100" using v(1,2,3) by simp_all
  then show ?thesis
    using p v(4) h by (simp add: format_duration_since_def Let_def setw2_digits)
qed

lemma format_duration_exact_witness:
  "let str = format_duration_since 3725678000000 0
   in length str = 11 \<and>
      ((two_digits str * 60 + two_digits (drop 3 str)) * 60 + two_digits (drop 6 str)) * 1000
        + two_digits (drop 9 str) * 10 = duration_ms 3725678000000 0 - duration_ms 3725678000000 0 mod 10"
  by (rule format_duration_exact) (simp add: duration_ms_def)


section \<open>Units\<close>

text \<open>The scaling loop of \<open>formatValue\<close> and \<open>formatBitrate\<close>; both tables have five units.\<close>

function scale_loop :: "fp \<Rightarrow> double \<Rightarrow> nat \<Rightarrow> double \<times> nat" where
  "scale_loop f v unit_index =
     (if d_ge f v (d_lit f 1000) \<and> unit_index < 4
      then scale_loop f (d_div f v (d_lit f 1000)) (unit_index + 1)
      else (v, unit_index))"
  by pat_completeness auto
termination by (relation "measure (\<lambda>(f, v, i). 4 - i)") auto

declare scale_loop.simps [simp del]

definition units :: "string list" where
  "units = ['''', ''k'', ''m'', ''g'', ''t'']"

definition formatValue :: "fp \<Rightarrow> double \<Rightarrow> string \<Rightarrow> string" where
  "formatValue f val unit =
     (if d_less f val (d_lit f 0) then ''invalid''
      else case scale_loop f val 0 of
        (v, unit_index) \<Rightarrow> d_fixed2 f v @ '' '' @ units ! unit_index @ unit)"

definition byte_units :: "string list" where
  "byte_units = [''bytes'', ''Kbytes'', ''Mbytes'', ''Gbytes'', ''Tbytes'']"

definition bitrate_units :: "string list" where
  "bitrate_units = [''bits/s'', ''Kbits/s'', ''Mbits/s'', ''Gbits/s'', ''Tbits/s'']"

definition formatBitrate :: "fp \<Rightarrow> double \<Rightarrow> bool \<Rightarrow> string" where
  "formatBitrate f bps bytes =
     (if d_less f bps (d_lit f 0) then ''invalid''
      else case scale_loop f bps 0 of
        (v, unit_index) \<Rightarrow>
          d_fixed2 f v @ '' '' @ (if bytes then byte_units else bitrate_units) ! unit_index)"

lemma scale_loop_spec:
  assumes "g = (\<lambda>x. d_div f x (d_lit f 1000))"
  shows "i \<le> 4 \<Longrightarrow> scale_loop f v i = (u, j) \<Longrightarrow>
     i \<le> j \<and> j \<le> 4 \<and> u = (g ^^ (j - i)) v \<and> (j = 4 \<or> \<not> d_ge f u (d_lit f 1000)) \<and>
     (\<forall>k<j - i. d_ge f ((g ^^ k) v) (d_lit f 1000))"
  using assms
proof (induction f v i rule: scale_loop.induct)
  case (1 f v i)
  show ?case
  proof (cases "d_ge f v (d_lit f 1000) \<and> i < 4")
    case False
    with 1(2,3) show ?thesis
      by (subst (asm) scale_loop.simps) auto
  next
    case True
    have "scale_loop f (g v) (i + 1) = (u, j)"
      using 1(3,4) True by (subst (asm) scale_loop.simps) simp
    with 1(1) [OF True] 1(4) True
    have ih: "i + 1 \<le> j" "j \<le> 4" "u = (g ^^ (j - (i + 1))) (g v)"
      "j = 4 \<or> \<not> d_ge f u (d_lit f 1000)"
      "\<forall>k<j - (i + 1). d_ge f ((g ^^ k) (g v)) (d_lit f 1000)" by auto
    obtain n where n: "j - i = Suc n" "j - (i + 1) = n"
      using ih(1) by (metis Suc_diff_Suc Suc_eq_plus1 Suc_le_lessD)
    have "d_ge f ((g ^^ k) v) (d_lit f 1000)" if "k < Suc n" for k
      using ih(5) n True that by (cases k) (simp_all add: funpow_swap1)
    with ih n show ?thesis by (simp add: funpow_swap1)
  qed
qed

text \<open>The unit loop ends inside the table of units, having divided once per unit step, each
  time because the value was at least 1000, and stops below 1000 unless the units ran out.\<close>

theorem scale_loop_correct:
  "case scale_loop f v 0 of (u, j) \<Rightarrow>
     j < length units \<and> u = ((\<lambda>x. d_div f x (d_lit f 1000)) ^^ j) v \<and>
     (j = 4 \<or> d_ge f u (d_lit f 1000) = False) \<and>
     list_all (\<lambda>k. d_ge f (((\<lambda>x. d_div f x (d_lit f 1000)) ^^ k) v) (d_lit f 1000)) [0..<j]"
  using scale_loop_spec [of "\<lambda>x. d_div f x (d_lit f 1000)" f 0 v "fst (scale_loop f v 0)"
      "snd (scale_loop f v 0)"]
  by (auto simp: units_def list_all_iff split: prod.split)


section \<open>The counter of \<open>mync\<close>\<close>

record stats =
  start_time :: time
  total_bytes :: u64
  last_update_bytes :: u64
  last_update_time :: time
  interval_bytes :: u64
  last_interval_time :: time
  ip :: string
  current_bps :: double

definition FOUR_GB :: u64 where "FOUR_GB = 4000000000"

definition new_stats :: "time \<Rightarrow> stats" where
  "new_stats now =
     \<lparr>start_time = now, total_bytes = 0, last_update_bytes = 0, last_update_time = now,
      interval_bytes = 0, last_interval_time = now, ip = '''', current_bps = 0\<rparr>"

definition addBytes :: "nat \<Rightarrow> stats \<Rightarrow> stats" where
  "addBytes bytes st =
     st\<lparr>total_bytes := total_bytes st + word_of_nat bytes,
        interval_bytes := interval_bytes st + word_of_nat bytes\<rparr>"

definition updateBps :: "fp \<Rightarrow> time \<Rightarrow> stats \<Rightarrow> stats" where
  "updateBps f now st =
     (let elapsed_ns = now - last_update_time st
      in if elapsed_ns \<le> 0 then st
         else let delta_bytes = total_bytes st - last_update_bytes st
              in st\<lparr>current_bps := d_div f (d_mul f (d_of_u64 f delta_bytes) (d_lit f 8))
                      (d_div f (d_of_int f elapsed_ns) (d_lit f 1000000000)),
                    last_update_bytes := total_bytes st, last_update_time := now\<rparr>)"

definition checkFourGigabytes :: "fp \<Rightarrow> time \<Rightarrow> stats \<Rightarrow> bool \<times> string \<times> stats" where
  "checkFourGigabytes f now st =
     (if FOUR_GB \<le> interval_bytes st then
        (let elapsed = d_div f (d_of_int f (now - last_interval_time st)) (d_lit f 1000000000);
             estimated = d_div f (d_mul f (d_of_u64 f FOUR_GB) elapsed)
               (d_of_u64 f (interval_bytes st))
         in (True,
             ''\<newline>'' @ format_duration_since now (start_time st) @ '' '' @ ip st @ '' '' @
             d_fixed2 f (d_div f (d_of_u64 f (interval_bytes st)) (d_lit f 1000000000)) @ ''GB '' @
             d_fixed2 f elapsed @ ''s'' @ '' (4gb ~'' @ d_fixed2 f estimated @ ''s) '' @ ''\<newline>'',
             st\<lparr>last_interval_time := now, interval_bytes := 0\<rparr>))
      else (False, '''', st))"

definition get_stats :: "fp \<Rightarrow> time \<Rightarrow> stats \<Rightarrow> string" where
  "get_stats f now st =
     format_duration_since now (start_time st) @ [char_of (9 :: nat)] @ ip st @ [char_of (9 :: nat)] @
     formatValue f (current_bps st) ''bps''"


subsection \<open>Every byte is reported once\<close>

text \<open>
  A run of the counter: bytes arrive, the rate is updated, the four-gigabyte check runs. The
  amounts the check reports and the rate counts are collected.
\<close>

datatype stats_op = Add nat | Update time | Check time

record account =
  counter :: stats
  reported :: "u64 list"
  rated :: "u64 list"

fun stats_step :: "fp \<Rightarrow> stats_op \<Rightarrow> account \<Rightarrow> account" where
  "stats_step f (Add n) a = a\<lparr>counter := addBytes n (counter a)\<rparr>"
| "stats_step f (Update now) a =
     (let st = updateBps f now (counter a)
      in a\<lparr>counter := st,
           rated := rated a @ [last_update_bytes st - last_update_bytes (counter a)]\<rparr>)"
| "stats_step f (Check now) a =
     (case checkFourGigabytes f now (counter a) of
        (r, _, st) \<Rightarrow> a\<lparr>counter := st,
          reported := (if r then reported a @ [interval_bytes (counter a)] else reported a)\<rparr>)"

definition account_ok :: "account \<Rightarrow> bool" where
  "account_ok a \<longleftrightarrow>
     sum_list (reported a) + interval_bytes (counter a) = total_bytes (counter a) \<and>
     sum_list (rated a) = last_update_bytes (counter a)"

lemma stats_step_ok: "account_ok a \<Longrightarrow> account_ok (stats_step f op a)"
  by (cases op) (auto simp: account_ok_def addBytes_def updateBps_def checkFourGigabytes_def
      Let_def algebra_simps)

fun added :: "stats_op \<Rightarrow> nat" where
  "added (Add n) = n"
| "added (Update now) = 0"
| "added (Check now) = 0"

lemma stats_step_total:
  "total_bytes (counter (stats_step f op a)) = total_bytes (counter a) + word_of_nat (added op)"
  by (cases op) (auto simp: addBytes_def updateBps_def checkFourGigabytes_def Let_def)

text \<open>Whatever the order of arrivals, rate updates and four-gigabyte checks, and with the
  counters wrapping around at 64 bits: the total is the number of bytes added, the checks' reports
  and the current interval partition it, and the rate updates count each byte once.\<close>

theorem stats_accounting:
  "let a = fold (stats_step f) ops \<lparr>counter = new_stats now, reported = [], rated = []\<rparr>
   in account_ok a \<and> total_bytes (counter a) = word_of_nat (sum_list (map added ops))"
proof -
  have "account_ok (fold (stats_step f) ops a) \<and>
      total_bytes (counter (fold (stats_step f) ops a)) =
        total_bytes (counter a) + word_of_nat (sum_list (map added ops))"
    if "account_ok a" for a
    using that
    by (induction ops arbitrary: a) (auto simp: stats_step_ok stats_step_total algebra_simps)
  from this [of "\<lparr>counter = new_stats now, reported = [], rated = []\<rparr>"] show ?thesis
    by (simp add: account_ok_def new_stats_def Let_def)
qed


section \<open>The counter of \<open>netlib\<close>\<close>

text \<open>
  \<open>total_bytes\<close> has no initialiser: a fresh counter starts from whatever the memory held,
  the argument of \<open>new_net_stats\<close>. \<open>last_time\<close> is 0 before the first call of
  \<open>getBitrate\<close>.
\<close>

record net_stats =
  net_ip :: string
  last_bps :: double
  net_total_bytes :: u64
  last_bytes :: u64
  last_time :: time

definition new_net_stats :: "u64 \<Rightarrow> net_stats" where
  "new_net_stats garbage =
     \<lparr>net_ip = '''', last_bps = 0, net_total_bytes = garbage, last_bytes = 0, last_time = 0\<rparr>"

definition net_addBytes :: "nat \<Rightarrow> net_stats \<Rightarrow> net_stats" where
  "net_addBytes bytes st = st\<lparr>net_total_bytes := net_total_bytes st + word_of_nat bytes\<rparr>"

definition getBitrate :: "fp \<Rightarrow> time \<Rightarrow> net_stats \<Rightarrow> string \<times> net_stats" where
  "getBitrate f now st =
     (if last_time st = 0 then (''0'', st\<lparr>last_time := now, last_bytes := net_total_bytes st\<rparr>)
      else let elapsed = d_div f (d_of_int f (now - last_time st)) (d_lit f 1000000000)
           in if d_ge f (d_lit f 0) elapsed then (''0'', st)
              else let delta = net_total_bytes st - last_bytes st;
                       bps = d_div f (d_mul f (d_of_u64 f delta) (d_lit f 8)) elapsed;
                       btps = d_div f (d_of_u64 f delta) elapsed
                   in (formatBitrate f btps True @ '' '' @ formatBitrate f bps False,
                       st\<lparr>last_time := now, last_bytes := net_total_bytes st, last_bps := btps\<rparr>))"

text \<open>
  The first call takes the total as its base, so the rates do not see the garbage: a counter
  that started from any value shows what one that started from zero shows.
\<close>

fun net_run :: "fp \<Rightarrow> (time \<times> nat list) list \<Rightarrow> net_stats \<Rightarrow> string list" where
  "net_run f [] st = []"
| "net_run f ((now, adds) # rounds) st =
     (case getBitrate f now (fold net_addBytes adds st) of
        (shown, st1) \<Rightarrow> shown # net_run f rounds st1)"

definition shifted :: "u64 \<Rightarrow> net_stats \<Rightarrow> net_stats \<Rightarrow> bool" where
  "shifted g st st' \<longleftrightarrow>
     net_total_bytes st' = net_total_bytes st + g \<and> last_time st' = last_time st \<and>
     (last_time st = 0 \<or> last_bytes st' = last_bytes st + g)"

lemma shifted_adds: "shifted g st st' \<Longrightarrow> shifted g (fold net_addBytes adds st) (fold net_addBytes adds st')"
  by (induction adds arbitrary: st st') (auto simp: shifted_def net_addBytes_def)

lemma shifted_getBitrate:
  assumes "shifted g st st'"
  shows "fst (getBitrate f now st) = fst (getBitrate f now st')"
    and "shifted g (snd (getBitrate f now st)) (snd (getBitrate f now st'))"
  using assms by (auto simp: shifted_def getBitrate_def Let_def)

text \<open>The uninitialised \<open>total_bytes\<close> of the \<open>netlib\<close> counter never shows in the rates it
  reports: every sequence of arrivals and \<open>getBitrate\<close> calls prints the same from any initial
  value.\<close>

theorem net_stats_garbage_invisible:
  "net_run f rounds (new_net_stats garbage) = net_run f rounds (new_net_stats 0)"
proof -
  have "shifted g st st' \<Longrightarrow> net_run f rounds st = net_run f rounds st'" for g st st'
  proof (induction rounds arbitrary: st st')
    case Nil
    then show ?case by simp
  next
    case (Cons r rounds)
    obtain now adds where r: "r = (now, adds)" by (cases r)
    let ?a = "fold net_addBytes adds st" and ?b = "fold net_addBytes adds st'"
    have s: "shifted g ?a ?b" using Cons.prems by (rule shifted_adds)
    show ?case
      using shifted_getBitrate [OF s, of f now] Cons.IH
      by (auto simp: r split: prod.split)
  qed
  then show ?thesis
    by (metis (no_types, lifting) shifted_def new_net_stats_def net_stats.select_convs(3,5) add_0)
qed

text \<open>An instance of the floating point operations, for examples: integers.\<close>

definition demo_fp :: fp where
  "demo_fp = \<lparr>d_lit = word_of_nat, d_of_u64 = id, d_of_int = word_of_int, d_mul = (*), d_div = (div),
     d_ge = (\<ge>), d_less = (<), d_to_u64 = id, d_fixed2 = (\<lambda>d. to_string (unat d))\<rparr>"

end
