(* ===== verification/Epoll.thy ===== *)
theory Epoll
  imports Stats Kernel
begin

text \<open>
  \<open>class Epoll\<close> and \<open>class MainEpoll\<close> of \<open>mync/epollserver.h\<close> and \<open>.cpp\<close>: the event loop
  of one thread, and the accepting thread that hands its connections to the loops of the
  worker threads. What the kernel answers while one event is handled is the record
  \<open>answers\<close>; what the code asks of it is appended to the log of the world, which also
  holds what the threads share: the stop flag and the workers' loops.
\<close>


section \<open>The kernel's answers\<close>

text \<open>To the calls of one handler.\<close>

record answers =
  a_stdin :: recv_result             \<comment> \<open>\<open>read_from_stdin\<close>\<close>
  a_recv :: recv_result              \<comment> \<open>\<open>recv\<close>\<close>
  a_sent :: "fd \<Rightarrow> int"              \<comment> \<open>\<open>send\<close>, per socket\<close>
  a_stdout :: int                    \<comment> \<open>\<open>write\<close> to standard output\<close>
  a_accepts :: "accept_result list"  \<comment> \<open>\<open>accept4\<close>; \<open>EAGAIN\<close> once the list is exhausted\<close>
  a_ctl_ok :: "fd \<Rightarrow> bool"           \<comment> \<open>\<open>epoll_ctl\<close> with \<open>EPOLL_CTL_ADD\<close>\<close>
  a_timer_read :: int                \<comment> \<open>\<open>read\<close> of the timer\<close>
  a_now :: time                      \<comment> \<open>the steady clock\<close>

definition STDIN_FILENO :: fd where "STDIN_FILENO = 0"


section \<open>State\<close>

record epoll =
  epfd :: fd
  sockfd :: fd
  is_listen :: bool
  show_timer_stats :: bool
  timerfd :: fd
  clients :: "(fd, stats) umap"
  stdin_closed :: bool
  socket_closed :: bool
  size_clients :: int
  wakeup_fd :: fd
  pending_new_socks :: "(fd \<times> stats) list"

text \<open>\<open>g_should_stop\<close>, the calls so far, and \<open>MainEpoll::subepolls_\<close>.\<close>

record world =
  g_should_stop :: bool
  calls :: "sys list"
  subepolls :: "epoll list"

definition emit :: "sys list \<Rightarrow> world \<Rightarrow> world" where
  "emit ss w = w\<lparr>calls := calls w @ ss\<rparr>"

text \<open>An operation ends with the new state, or throws in it.\<close>

type_synonym run = "(failure \<times> epoll \<times> world) + (epoll \<times> world)"

definition then_do :: "run \<Rightarrow> (epoll \<Rightarrow> world \<Rightarrow> run) \<Rightarrow> run" where
  "then_do r f = (case r of Inl x \<Rightarrow> Inl x | Inr (e, w) \<Rightarrow> f e w)"

abbreviation throw :: "string \<Rightarrow> epoll \<Rightarrow> world \<Rightarrow> run" where
  "throw msg e w \<equiv> Inl (Thrown (Runtime_error msg), e, w)"

datatype class_tag = Epoll_base | Main_epoll


section \<open>Operations\<close>

definition stop_signal_handler :: "world \<Rightarrow> world" where
  "stop_signal_handler w = w\<lparr>g_should_stop := True\<rparr>"

definition add_fd :: "answers \<Rightarrow> fd \<Rightarrow> epoll \<Rightarrow> world \<Rightarrow> bool \<times> world" where
  "add_fd a fd e w = (a_ctl_ok a fd, emit [Ctl_add (epfd e) fd (a_ctl_ok a fd)] w)"

definition remove_client :: "fd \<Rightarrow> epoll \<Rightarrow> world \<Rightarrow> epoll \<times> world" where
  "remove_client fd e w =
     (e\<lparr>clients := umap_erase fd (clients e), size_clients := size_clients e - 1\<rparr>,
      emit [Ctl_del (epfd e) fd, Closed fd] w)"

definition push_external_socket :: "fd \<Rightarrow> stats \<Rightarrow> epoll \<Rightarrow> epoll" where
  "push_external_socket client_fd st e =
     e\<lparr>pending_new_socks := pending_new_socks e @ [(client_fd, st)],
       size_clients := size_clients e + 1\<rparr>"

text \<open>
  The virtual \<open>balance_socket\<close>: \<open>Epoll\<close> keeps the connection, \<open>MainEpoll\<close> gives it to the
  worker with the fewest. Without workers the iterator dereferenced is the end.
\<close>

definition ONE_THREAD_MODE :: bool where "ONE_THREAD_MODE = False"

fun balance_socket :: "class_tag \<Rightarrow> fd \<Rightarrow> stats \<Rightarrow> world \<Rightarrow> fault + bool \<times> world" where
  "balance_socket Epoll_base client_fd st w = Inr (False, w)"
| "balance_socket Main_epoll client_fd st w =
     (if ONE_THREAD_MODE then Inr (False, w)
      else case min_element size_clients (subepolls w) of
        None \<Rightarrow> Inl Out_of_bounds
      | Some i \<Rightarrow>
          let min_subepoll = subepolls w ! i
          in Inr (True, emit [Woken (wakeup_fd min_subepoll)]
               (w\<lparr>subepolls := (subepolls w)[i := push_external_socket client_fd st min_subepoll]\<rparr>)))"

fun accept_connections :: "class_tag \<Rightarrow> answers \<Rightarrow> accept_result list \<Rightarrow> epoll \<Rightarrow> world \<Rightarrow> run" where
  "accept_connections c a [] e w = Inr (e, w)"
| "accept_connections c a (Accept_failed errn # rest) e w =
     (if errn = EAGAIN \<or> errn = EWOULDBLOCK then Inr (e, w) else throw ''accept4: '' e w)"
| "accept_connections c a (Accepted client_fd addr # rest) e w =
     (let st = (new_stats (a_now a))\<lparr>ip := addr\<rparr>; w = emit [Opened client_fd] w
      in case balance_socket c client_fd st w of
           Inl f \<Rightarrow> Inl (Undefined f, e, w)
         | Inr (True, w) \<Rightarrow> accept_connections c a rest e w
         | Inr (False, w) \<Rightarrow>
             (case add_fd a client_fd e w of
                (False, w) \<Rightarrow> accept_connections c a rest e (emit [Closed client_fd] w)
              | (True, w) \<Rightarrow>
                  accept_connections c a rest
                    (e\<lparr>size_clients := size_clients e + 1,
                       clients := umap_emplace client_fd st (clients e)\<rparr>) w))"

definition SERVER_WRITE_STDOUT :: bool where "SERVER_WRITE_STDOUT = False"

definition write_to_stdout :: "answers \<Rightarrow> u8 list \<Rightarrow> world \<Rightarrow> int \<times> world" where
  "write_to_stdout a buffer w =
     (if a_stdout a = int (length buffer) then 0 else -1, emit [Written buffer] w)"

definition handle_stdin :: "answers \<Rightarrow> epoll \<Rightarrow> world \<Rightarrow> run" where
  "handle_stdin a e w =
     (case a_stdin a of
        Received (b # bs) \<Rightarrow>
          let buffer = b # bs
          in if is_listen e then Inr (e, emit (map (\<lambda>c. Sent (fst c) buffer) (clients e)) w)
             else (let w = emit [Sent (sockfd e) buffer] w
                   in if a_sent a (sockfd e) \<noteq> int (length buffer) then throw ''send to socket'' e w
                      else Inr (e, w))
      | Received [] \<Rightarrow> Inr (e\<lparr>stdin_closed := True\<rparr>, emit [Shut_write (sockfd e)] w)
      | Recv_failed errn \<Rightarrow> throw ''read stdin'' e w)"

definition handle_client_data :: "answers \<Rightarrow> fd \<Rightarrow> epoll \<Rightarrow> world \<Rightarrow> run" where
  "handle_client_data a fd e w =
     (case a_recv a of
        Received (b # bs) \<Rightarrow>
          let buffer = b # bs;
              e = e\<lparr>clients := umap_modify fd (new_stats (a_now a)) (addBytes (length buffer)) (clients e)\<rparr>
          in (case write_to_stdout a (if SERVER_WRITE_STDOUT then buffer else []) w of
                (r, w) \<Rightarrow> if r \<noteq> 0 then throw ''write to stdout'' e w else Inr (e, w))
      | _ \<Rightarrow> Inr (remove_client fd e w))"

definition handle_socket_data :: "class_tag \<Rightarrow> answers \<Rightarrow> epoll \<Rightarrow> world \<Rightarrow> run" where
  "handle_socket_data c a e w =
     (if is_listen e then accept_connections c a (a_accepts a) e w
      else case a_recv a of
        Received (b # bs) \<Rightarrow>
          (case write_to_stdout a (b # bs) w of
             (r, w) \<Rightarrow> if r \<noteq> 0 then throw ''write to stdout'' e w else Inr (e, w))
      | Received [] \<Rightarrow> Inr (e\<lparr>socket_closed := True\<rparr>, w)
      | Recv_failed errn \<Rightarrow> throw ''recv from socket'' e w)"

text \<open>The timer: one pass over the clients, in the order of the map.\<close>

fun update_stats :: "fp \<Rightarrow> time \<Rightarrow> (fd, stats) umap \<Rightarrow> (fd, stats) umap \<times> sys list" where
  "update_stats f now [] = ([], [])"
| "update_stats f now ((fd, st) # rest) =
     (case checkFourGigabytes f now (updateBps f now st) of
        (over, stats_msg, st1) \<Rightarrow>
          (case update_stats f now rest of
             (rest1, out) \<Rightarrow>
               ((fd, st1) # rest1, (if over then [Sent_text fd stats_msg] else []) @ out)))"

definition handle_timer :: "fp \<Rightarrow> answers \<Rightarrow> epoll \<Rightarrow> world \<Rightarrow> run" where
  "handle_timer f a e w =
     (if a_timer_read a \<noteq> 8 then Inr (e, w)
      else case update_stats f (a_now a) (clients e) of
        (m, out) \<Rightarrow> Inr (e\<lparr>clients := m\<rparr>, emit out w))"

text \<open>
  The handler of the wake-up descriptor: the queue is emptied under its lock. The result
  of \<open>add_fd\<close> is not looked at.
\<close>

fun drain_pending :: "answers \<Rightarrow> (fd \<times> stats) list \<Rightarrow> epoll \<Rightarrow> world \<Rightarrow> epoll \<times> world" where
  "drain_pending a [] e w = (e\<lparr>pending_new_socks := []\<rparr>, w)"
| "drain_pending a ((fd, st) # rest) e w =
     drain_pending a rest (e\<lparr>clients := umap_emplace fd st (clients e)\<rparr>) (snd (add_fd a fd e w))"

definition exec_event :: "class_tag \<Rightarrow> fp \<Rightarrow> answers \<Rightarrow> epoll_event \<Rightarrow> epoll \<Rightarrow> world \<Rightarrow> run" where
  "exec_event c f a ev e w =
     (let fd = ev_fd ev
      in if evs ev AND (EPOLLHUP OR EPOLLRDHUP OR EPOLLERR) \<noteq> 0 then
           (if fd = sockfd e then Inr (e\<lparr>socket_closed := True\<rparr>, w)
            else Inr (remove_client fd e w))
         else if evs ev AND EPOLLIN \<noteq> 0 then
           (if 0 < wakeup_fd e \<and> fd = wakeup_fd e
            then Inr (drain_pending a (pending_new_socks e) e w)
            else if fd = STDIN_FILENO then handle_stdin a e w
            else if fd = timerfd e then handle_timer f a e w
            else if 0 < sockfd e \<and> fd = sockfd e then handle_socket_data c a e w
            else if umap_count fd (clients e) then handle_client_data a fd e w
            else Inr (e, w))
         else Inr (e, w))"

fun exec_events :: "class_tag \<Rightarrow> fp \<Rightarrow> (epoll_event \<times> answers) list \<Rightarrow> epoll \<Rightarrow> world \<Rightarrow> run" where
  "exec_events c f [] e w = Inr (e, w)"
| "exec_events c f ((ev, a) # rest) e w = then_do (exec_event c f a ev e w) (exec_events c f rest)"

text \<open>
  One turn of the loop: whether the stop signal came before its test, and what
  \<open>epoll_wait\<close> returned. \<open>None\<close>: after these turns the loop is still running.
\<close>

datatype wait_result = Wait_failed errno | Ready "(epoll_event \<times> answers) list"

record turn =
  signalled :: bool
  waited :: wait_result

fun exec :: "class_tag \<Rightarrow> fp \<Rightarrow> turn list \<Rightarrow> epoll \<Rightarrow> world \<Rightarrow> run option" where
  "exec c f [] e w = (if stdin_closed e \<or> socket_closed e then Some (Inr (e, w)) else None)"
| "exec c f (t # ts) e w =
     (if stdin_closed e \<or> socket_closed e then Some (Inr (e, w))
      else let w = (if signalled t then stop_signal_handler w else w)
        in if g_should_stop w then Some (Inr (e, w))
           else case waited t of
             Wait_failed errn \<Rightarrow>
               if errn = EINTR then exec c f ts e w else Some (throw ''epoll_wait'' e w)
           | Ready batch \<Rightarrow>
               (case exec_events c f batch e w of
                  Inl x \<Rightarrow> Some (Inl x)
                | Inr (e1, w1) \<Rightarrow> exec c f ts e1 w1))"

fun remove_clients :: "fd list \<Rightarrow> epoll \<Rightarrow> world \<Rightarrow> epoll \<times> world" where
  "remove_clients [] e w = (e, w)"
| "remove_clients (fd # fds) e w =
     (case remove_client fd e w of (e, w) \<Rightarrow> remove_clients fds e w)"

definition close_if_open :: "fd \<Rightarrow> sys list" where
  "close_if_open fd = (if 0 \<le> fd then [Closed fd] else [])"

definition fullstop :: "epoll \<Rightarrow> world \<Rightarrow> epoll \<times> world" where
  "fullstop e w =
     (let w = w\<lparr>g_should_stop := True\<rparr>;
          w = emit (close_if_open (sockfd e)) w;
          e = (if 0 \<le> sockfd e then e\<lparr>sockfd := -1\<rparr> else e);
          client_fds_to_close = map fst (clients e)
      in case remove_clients client_fds_to_close e w of (e, w) \<Rightarrow>
        let e = e\<lparr>clients := []\<rparr>;
            w = emit (map (\<lambda>p. Closed (fst p)) (pending_new_socks e)) w;
            w = emit (close_if_open (epfd e) @ close_if_open (timerfd e) @
                      close_if_open (wakeup_fd e)) w
        in (e\<lparr>pending_new_socks := [],
              epfd := (if 0 \<le> epfd e then -1 else epfd e),
              timerfd := (if 0 \<le> timerfd e then -1 else timerfd e),
              wakeup_fd := (if 0 \<le> wakeup_fd e then -1 else wakeup_fd e),
              stdin_closed := True, socket_closed := True, size_clients := 0\<rparr>, w))"


section \<open>Construction\<close>

text \<open>What the kernel answers to the constructor.\<close>

record setup_answers =
  s_epoll_create :: fd
  s_eventfd :: fd
  s_timerfd :: fd
  s_settime :: int
  s_ctl_ok :: "fd \<Rightarrow> bool"

definition create_timer :: "setup_answers \<Rightarrow> world \<Rightarrow> fd \<times> world" where
  "create_timer s w =
     (if s_timerfd s = -1 then (-1, w)
      else if s_settime s = -1 then (-1, emit [Opened (s_timerfd s), Closed (s_timerfd s)] w)
      else (s_timerfd s, emit [Opened (s_timerfd s)] w))"

definition setup_add :: "setup_answers \<Rightarrow> fd \<Rightarrow> epoll \<Rightarrow> world \<Rightarrow> world" where
  "setup_add s fd e w = emit [Ctl_add (epfd e) fd (s_ctl_ok s fd)] w"

definition setup_epoll :: "setup_answers \<Rightarrow> epoll \<Rightarrow> world \<Rightarrow> run" where
  "setup_epoll s e w =
     (let e = e\<lparr>epfd := s_epoll_create s\<rparr>; w = emit (opened (s_epoll_create s)) w
      in if epfd e = -1 then throw ''epoll_create1'' e w
         else let w = setup_add s STDIN_FILENO e w;
                  w = (if 0 < sockfd e then setup_add s (sockfd e) e w else w);
                  e = e\<lparr>wakeup_fd := s_eventfd s\<rparr>; w = emit (opened (s_eventfd s)) w
              in if wakeup_fd e = -1 then throw ''eventfd'' e w
                 else let w = setup_add s (wakeup_fd e) e w
                      in if is_listen e \<or> sockfd e = -1 then
                           (case create_timer s w of (t, w) \<Rightarrow>
                              Inr (e\<lparr>timerfd := t\<rparr>, if 0 < t then setup_add s t e w else w))
                         else Inr (e, w))"

definition new_epoll :: "fd \<Rightarrow> bool \<Rightarrow> bool \<Rightarrow> setup_answers \<Rightarrow> world \<Rightarrow> run" where
  "new_epoll sock listen show_stats s w =
     setup_epoll s
       \<lparr>epfd = 0, sockfd = sock, is_listen = listen, show_timer_stats = show_stats, timerfd = -1,
        clients = [], stdin_closed = False, socket_closed = False, size_clients = 0,
        wakeup_fd = -1, pending_new_socks = []\<rparr> w"

text \<open>
  The constructor of \<open>MainEpoll\<close>: a loop per worker thread that could be created; the
  loop of a thread that could not is destroyed again. Its construction is not guarded: an
  exception leaves the constructor.
\<close>

fun start_workers :: "(setup_answers \<times> bool) list \<Rightarrow> epoll \<Rightarrow> world \<Rightarrow> run" where
  "start_workers [] m w = Inr (m, w)"
| "start_workers ((s, created) # rest) m w =
     (case new_epoll (-1) False False s w of
        Inl (x, _, w) \<Rightarrow> Inl (x, m, w)
      | Inr (sub, w) \<Rightarrow>
          if created then start_workers rest m (w\<lparr>subepolls := subepolls w @ [sub]\<rparr>)
          else start_workers rest m (snd (fullstop sub w)))"

definition new_main_epoll :: "fd \<Rightarrow> bool \<Rightarrow> setup_answers \<Rightarrow> (setup_answers \<times> bool) list
    \<Rightarrow> world \<Rightarrow> run" where
  "new_main_epoll sock listen s workers w =
     then_do (new_epoll sock listen True s w) (start_workers workers)"

end
