(* ===== verification/EpollOwnership.thy ===== *)
theory EpollOwnership
  imports Epoll "HOL-Library.Multiset"
begin

text \<open>
  Who owns which descriptor. The log of system calls is replayed on the set of open
  descriptors, where opening one that is open or closing one that is not is an error; the
  invariant says that the replay succeeds and ends with the descriptors the loops hold.
\<close>


section \<open>Calls of a loop\<close>

lemma calls_emit [simp]: "calls (emit ss w) = calls w @ ss"
  by (simp add: emit_def)

lemma emit_sel [simp]:
  "subepolls (emit ss w) = subepolls w" "g_should_stop (emit ss w) = g_should_stop w"
  by (simp_all add: emit_def)


section \<open>Descriptors of a loop\<close>

definition open_fd :: "fd \<Rightarrow> fd list" where
  "open_fd fd = (if 0 \<le> fd then [fd] else [])"

definition owned :: "epoll \<Rightarrow> fd list" where
  "owned e = open_fd (sockfd e) @ map fst (clients e) @ map fst (pending_new_socks e) @
     open_fd (epfd e) @ open_fd (timerfd e) @ open_fd (wakeup_fd e)"

lemma close_if_open_eq: "close_if_open fd = map Closed (open_fd fd)"
  by (simp add: close_if_open_def open_fd_def)

definition count_ok :: "epoll \<Rightarrow> bool" where
  "count_ok e \<longleftrightarrow> size_clients e = int (length (clients e) + length (pending_new_socks e))"

text \<open>
  A loop in a world where \<open>L\<close> are the open descriptors of others: its own are distinct and
  disjoint from them, the log replays to exactly these, and its counter is right.
\<close>

definition holds :: "fd set \<Rightarrow> fd set \<Rightarrow> epoll \<Rightarrow> world \<Rightarrow> bool" where
  "holds S0 L e w \<longleftrightarrow>
     replay (calls w) S0 = Some (L \<union> set (owned e)) \<and> distinct (owned e) \<and>
     L \<inter> set (owned e) = {} \<and> count_ok e"

lemma holds_wf: "holds S0 L e w \<Longrightarrow> umap_wf (clients e)"
  by (auto simp: holds_def owned_def umap_wf_def)

text \<open>Emitting calls that open and close nothing.\<close>

lemma holds_quiet:
  assumes "holds S0 L e w" "\<And>S. replay ss S = Some S" "owned e' = owned e"
    "length (clients e') = length (clients e)"
    "length (pending_new_socks e') = length (pending_new_socks e)" "size_clients e' = size_clients e"
  shows "holds S0 L e' (emit ss w)"
  using assms by (simp add: holds_def count_ok_def)


subsection \<open>Single operations\<close>

lemma owned_erase:
  assumes "distinct (owned e)" "fd \<in> fst ` set (clients e)"
  shows "owned (e\<lparr>clients := umap_erase fd (clients e), size_clients := n\<rparr>) =
    filter (\<lambda>x. x \<noteq> fd) (owned e)"
proof -
  have "fd \<notin> set (open_fd (sockfd e))" "fd \<notin> set (map fst (pending_new_socks e))"
    "fd \<notin> set (open_fd (epfd e))" "fd \<notin> set (open_fd (timerfd e))" "fd \<notin> set (open_fd (wakeup_fd e))"
    using assms by (auto simp: owned_def)
  moreover have "filter (\<lambda>x. x \<noteq> fd) xs = xs" if "fd \<notin> set xs" for xs
    using that by (induction xs) auto
  moreover have "map fst (umap_erase fd (clients e)) = filter (\<lambda>x. x \<noteq> fd) (map fst (clients e))"
    by (simp add: umap_erase_def filter_map comp_def)
  ultimately show ?thesis by (simp add: owned_def)
qed

lemma holds_remove_client:
  assumes h: "holds S0 L e w" and fd: "umap_count fd (clients e)"
    and r: "remove_client fd e w = (e', w')"
  shows "holds S0 L e' w'"
proof -
  have fd': "fd \<in> fst ` set (clients e)" using fd by (simp add: umap_count_def)
  then have o: "fd \<in> set (owned e)" by (auto simp: owned_def)
  have e': "e' = e\<lparr>clients := umap_erase fd (clients e), size_clients := size_clients e - 1\<rparr>"
    and w': "w' = emit [Ctl_del (epfd e) fd, Closed fd] w"
    using r by (simp_all add: remove_client_def)
  have own: "owned e' = filter (\<lambda>x. x \<noteq> fd) (owned e)"
    unfolding e' using h fd' by (intro owned_erase) (simp_all add: holds_def)
  have "count_ok e'"
    using h holds_wf [OF h] fd
    by (cases "clients e") (auto simp: e' count_ok_def holds_def umap_simps umap_count_def)
  moreover have "replay (calls w') S0 = Some ((L \<union> set (owned e)) - {fd})"
    using h o by (simp add: w' holds_def)
  moreover have "(L \<union> set (owned e)) - {fd} = L \<union> set (owned e')"
    using h o by (auto simp: own holds_def)
  ultimately show ?thesis
    using h by (auto simp: holds_def own)
qed

text \<open>Draining the queue appends it to the clients, in its order.\<close>

definition registrations :: "answers \<Rightarrow> epoll \<Rightarrow> sys list" where
  "registrations a e = map (\<lambda>p. Ctl_add (epfd e) (fst p) (a_ctl_ok a (fst p))) (pending_new_socks e)"

lemma drain_pending_eq:
  assumes "distinct (map fst (clients e @ ps))"
  shows "drain_pending a ps e w = (e\<lparr>clients := clients e @ ps, pending_new_socks := []\<rparr>,
      emit (map (\<lambda>p. Ctl_add (epfd e) (fst p) (a_ctl_ok a (fst p))) ps) w)"
  using assms
proof (induction ps arbitrary: e w)
  case Nil
  then show ?case by (simp add: emit_def)
next
  case (Cons p ps)
  obtain fd st where p: "p = (fd, st)" by (cases p)
  have "umap_emplace fd st (clients e) = clients e @ [p]"
    using Cons.prems by (auto simp: umap_emplace_def umap_count_def p)
  with Cons.IH [of "e\<lparr>clients := clients e @ [p]\<rparr>" "snd (add_fd a fd e w)"] Cons.prems
  show ?case by (simp add: p add_fd_def emit_def)
qed

lemma drain_owned:
  assumes "distinct (owned e)"
  shows "drain_pending a (pending_new_socks e) e w =
    (e\<lparr>clients := clients e @ pending_new_socks e, pending_new_socks := []\<rparr>,
     emit (registrations a e) w)"
  unfolding registrations_def
  using assms by (intro drain_pending_eq) (auto simp: owned_def)

lemma replay_registrations [simp]: "replay (registrations a e) S = Some S"
  unfolding registrations_def by (rule replay_quiet) auto


subsection \<open>Handlers\<close>

lemma holds_Inr_quiet:
  assumes "holds S0 L e w" "Inr (e', w') = (Inr (e1, emit ss w) :: run)" "\<And>S. replay ss S = Some S"
    "owned e1 = owned e" "length (clients e1) = length (clients e)"
    "length (pending_new_socks e1) = length (pending_new_socks e)" "size_clients e1 = size_clients e"
  shows "holds S0 L e' w' \<and> subepolls w' = subepolls w"
  using assms holds_quiet [OF assms(1,3-)] by simp

lemma write_to_stdout_world [simp]: "snd (write_to_stdout a bs w) = emit [Written bs] w"
  by (simp add: write_to_stdout_def)

lemma remove_client_subepolls [simp]: "subepolls (snd (remove_client fd e w)) = subepolls w"
  by (simp add: remove_client_def)

lemma holds_handle_stdin:
  "holds S0 L e w \<Longrightarrow> handle_stdin a e w = Inr (e', w') \<Longrightarrow>
     holds S0 L e' w' \<and> subepolls w' = subepolls w"
  by (auto simp: handle_stdin_def Let_def owned_def intro!: holds_quiet
      split: recv_result.splits list.splits if_splits)

lemma update_stats_frame:
  assumes "update_stats f now m = (m', out)"
  shows "map fst m' = map fst m" "replay out S = Some S"
proof -
  have "map fst (fst (update_stats f now m)) = map fst m \<and> replay (snd (update_stats f now m)) S = Some S"
    by (induction f now m rule: update_stats.induct) (auto split: prod.splits)
  with assms show "map fst m' = map fst m" "replay out S = Some S" by simp_all
qed

lemma holds_handle_timer:
  assumes "holds S0 L e w" "handle_timer f a e w = Inr (e', w')"
  shows "holds S0 L e' w' \<and> subepolls w' = subepolls w"
proof (cases "a_timer_read a = 8")
  case False
  with assms show ?thesis by (simp add: handle_timer_def)
next
  case True
  obtain m out where u: "update_stats f (a_now a) (clients e) = (m, out)" by fastforce
  with True assms(2) have e: "e' = e\<lparr>clients := m\<rparr>" "w' = emit out w"
    by (simp_all add: handle_timer_def)
  note fr = update_stats_frame [OF u]
  from fr(1) have "length m = length (clients e)" by (metis length_map)
  with assms(1) fr show ?thesis unfolding e
    by (auto intro!: holds_quiet simp: owned_def)
qed

lemma umap_modify_keys_present:
  "umap_count k m \<Longrightarrow> map fst (umap_modify k d f m) = map fst m"
  by (simp add: umap_modify_def umap_set_def map_fst_overwrite del: map_map)

lemma holds_handle_client_data:
  assumes h: "holds S0 L e w" and fd: "umap_count fd (clients e)"
    and r: "handle_client_data a fd e w = Inr (e', w')"
  shows "holds S0 L e' w' \<and> subepolls w' = subepolls w"
proof -
  have drop: ?thesis if "Inr (remove_client fd e w) = (Inr (e', w') :: run)"
    using that holds_remove_client [OF h fd, of e' w'] remove_client_subepolls [of fd e w] by simp
  show ?thesis
  proof (cases "a_recv a")
    case (Recv_failed errn)
    with r drop show ?thesis by (simp add: handle_client_data_def)
  next
    case (Received bs)
    show ?thesis
    proof (cases bs)
      case Nil
      with r drop Received show ?thesis by (simp add: handle_client_data_def)
    next
      case (Cons x xs)
      with r Received have e: "e' = e\<lparr>clients :=
          umap_modify fd (new_stats (a_now a)) (addBytes (length bs)) (clients e)\<rparr>"
        "w' = emit [Written (if SERVER_WRITE_STDOUT then bs else [])] w"
        by (auto simp: handle_client_data_def Let_def write_to_stdout_def split: if_splits)
      have k: "map fst (clients e') = map fst (clients e)"
        unfolding e using fd by (simp add: umap_modify_keys_present)
      then have "length (clients e') = length (clients e)" by (metis length_map)
      with h k show ?thesis
        by (auto simp: e owned_def intro!: holds_quiet)
    qed
  qed
qed

lemma holds_wakeup:
  assumes h: "holds S0 L e w"
    and r: "drain_pending a (pending_new_socks e) e w = (e', w')"
  shows "holds S0 L e' w' \<and> subepolls w' = subepolls w"
proof -
  have d: "distinct (owned e)" using h by (simp add: holds_def)
  with r have e: "e' = e\<lparr>clients := clients e @ pending_new_socks e, pending_new_socks := []\<rparr>"
    "w' = emit (registrations a e) w"
    by (simp_all add: drain_owned)
  have m: "mset (owned e') = mset (owned e)" by (simp add: e(1) owned_def)
  from h have "count_ok e'" by (simp add: e(1) holds_def count_ok_def)
  with h show ?thesis
    using mset_eq_setD [OF m] mset_eq_imp_distinct_iff [OF m] by (simp add: e(2) holds_def)
qed

text \<open>
  The kernel's part of the contract: a hang-up is reported for the loop's socket or a client.
\<close>

definition event_ok :: "epoll \<Rightarrow> epoll_event \<Rightarrow> bool" where
  "event_ok e ev \<longleftrightarrow> (hangs_up ev \<longrightarrow> ev_fd ev = sockfd e \<or> umap_count (ev_fd ev) (clients e))"

lemma exec_event_frame:
  assumes "holds S0 L e w" "event_ok e ev" "exec_event c f a ev e w = Inr (e', w')"
  shows "(holds S0 L e' w' \<and> subepolls w' = subepolls w) \<or>
    accept_connections c a (a_accepts a) e w = Inr (e', w')"
proof (cases "hangs_up ev")
  case True
  show ?thesis
  proof (cases "ev_fd ev = sockfd e")
    case sock: True
    with True assms have "e' = e\<lparr>socket_closed := True\<rparr>" "w' = w"
      by (simp_all add: exec_event_def hangs_up_def Let_def)
    with assms(1) show ?thesis by (simp add: holds_def owned_def count_ok_def)
  next
    case False
    with True assms(2) have "umap_count (ev_fd ev) (clients e)" by (simp add: event_ok_def)
    moreover have "remove_client (ev_fd ev) e w = (e', w')"
      using True False assms(3) by (simp add: exec_event_def hangs_up_def Let_def)
    ultimately show ?thesis
      using holds_remove_client [OF assms(1)] remove_client_subepolls [of "ev_fd ev" e w] by simp
  qed
next
  case False
  then have ev: "evs ev AND (EPOLLHUP OR EPOLLRDHUP OR EPOLLERR) = 0" by (simp add: hangs_up_def)
  have sock: ?thesis if "handle_socket_data c a e w = Inr (e', w')"
    using that assms(1)
    by (auto simp: handle_socket_data_def write_to_stdout_def owned_def intro!: holds_quiet
        split: if_splits recv_result.splits list.splits)
      (simp_all add: holds_def owned_def count_ok_def)
  show ?thesis
    using assms(3) ev sock assms(1) holds_wakeup [OF assms(1), of a e' w'] holds_handle_stdin [OF assms(1), of a e' w']
      holds_handle_timer [OF assms(1), of f a e' w'] holds_handle_client_data [OF assms(1), of "ev_fd ev" a e' w']
    by (auto simp: exec_event_def Let_def simp del: split_paired_Ex split: if_splits)
qed


section \<open>The accepting loop and its workers\<close>

definition worker_fds :: "world \<Rightarrow> fd list" where
  "worker_fds w = concat (map owned (subepolls w))"

text \<open>
  The state of the whole server: \<open>B\<close> are the descriptors that belong to no loop (standard
  input, output and error).
\<close>

definition server_ok :: "fd set \<Rightarrow> fd set \<Rightarrow> epoll \<Rightarrow> world \<Rightarrow> bool" where
  "server_ok S0 B m w \<longleftrightarrow>
     holds S0 (B \<union> set (worker_fds w)) m w \<and> distinct (worker_fds w) \<and>
     B \<inter> set (worker_fds w) = {} \<and> list_all count_ok (subepolls w)"

lemma mset_owned_push:
  "mset (owned (push_external_socket fd st e)) = add_mset fd (mset (owned e))"
  by (simp add: owned_def push_external_socket_def)

lemma mset_worker_fds_push:
  assumes "i < length subs"
  shows "mset (concat (map owned (subs[i := push_external_socket fd st (subs ! i)]))) =
    add_mset fd (mset (concat (map owned subs)))"
proof -
  have "mset (concat (map owned subs)) = mset (concat (map owned (take i subs @ subs ! i # drop (Suc i) subs)))"
    using assms by (simp only: id_take_nth_drop [symmetric])
  with assms show ?thesis
    by (simp add: upd_conv_take_nth_drop mset_owned_push)
qed

lemma count_ok_push [simp]: "count_ok e \<Longrightarrow> count_ok (push_external_socket fd st e)"
  by (simp add: count_ok_def push_external_socket_def)

lemma server_ok_balance:
  assumes ok: "server_ok S0 B m w" and fd: "0 < fd" "fd \<notin> B \<union> set (worker_fds w) \<union> set (owned m)"
    and b: "balance_socket Main_epoll fd st (emit [Opened fd] w) = Inr (True, w')"
  shows "server_ok S0 B m w' \<and> set (worker_fds w') = insert fd (set (worker_fds w))"
proof -
  obtain i where i: "min_element size_clients (subepolls w) = Some i"
    and w': "w' = emit [Woken (wakeup_fd (subepolls w ! i))] ((emit [Opened fd] w)
      \<lparr>subepolls := (subepolls w)[i := push_external_socket fd st (subepolls w ! i)]\<rparr>)"
    using b by (auto simp: Let_def split: option.splits if_splits)
  have len: "i < length (subepolls w)" using min_element_least(1) [OF i] .
  have m: "mset (worker_fds w') = mset (fd # worker_fds w)"
    using mset_worker_fds_push [OF len, of fd st] by (simp add: worker_fds_def w')
  have set: "set (worker_fds w') = insert fd (set (worker_fds w))"
    using mset_eq_setD [OF m] by simp
  moreover have "distinct (worker_fds w')"
    using mset_eq_imp_distinct_iff [OF m] ok fd by (simp add: server_ok_def)
  moreover have "list_all count_ok (subepolls w')"
    using ok len by (auto simp: w' server_ok_def list_all_iff set_conv_nth nth_list_update)
  moreover have "holds S0 (B \<union> set (worker_fds w')) m w'"
    using ok fd unfolding set by (auto simp: server_ok_def holds_def w')
  ultimately show ?thesis using ok fd by (simp add: server_ok_def)
qed

lemma server_ok_accept_main:
  assumes "server_ok S0 B m w"
    and "accepts_fresh (\<lambda>_. True) (B \<union> set (worker_fds w) \<union> set (owned m)) rs"
    and "accept_connections Main_epoll a rs m w = Inr (m', w')"
  shows "server_ok S0 B m' w'"
  using assms
proof (induction rs arbitrary: w)
  case Nil
  then show ?case by simp
next
  case (Cons r rs)
  show ?case
  proof (cases r)
    case (Accept_failed errn)
    with Cons.prems show ?thesis by (auto split: if_splits)
  next
    case (Accepted fd addr)
    define st where "st = (new_stats (a_now a))\<lparr>ip := addr\<rparr>"
    have b0: "balance_socket Main_epoll fd st (emit [Opened fd] w) \<noteq> Inr (False, w2)" for w2
      by (simp add: ONE_THREAD_MODE_def Let_def split: option.splits)
    from Cons.prems(3) obtain w1 where w1:
      "balance_socket Main_epoll fd st (emit [Opened fd] w) = Inr (True, w1)"
      "accept_connections Main_epoll a rs m w1 = Inr (m', w')"
      using b0 unfolding Accepted accept_connections.simps Let_def st_def [symmetric]
      by (auto simp del: balance_socket.simps split: sum.splits prod.splits bool.splits)
    have "0 < fd" "fd \<notin> B \<union> set (worker_fds w) \<union> set (owned m)"
      using Cons.prems(2) by (simp_all add: Accepted)
    from server_ok_balance [OF Cons.prems(1) this w1(1)]
    have "server_ok S0 B m w1" "set (worker_fds w1) = insert fd (set (worker_fds w))" by simp_all
    with Cons.prems(2) w1(2) show ?thesis
      by (intro Cons.IH [of w1]) (simp_all add: Accepted)
  qed
qed

lemma holds_accept_base:
  assumes "holds S0 L e w" "accepts_fresh (a_ctl_ok a) (L \<union> set (owned e)) rs"
    and "accept_connections Epoll_base a rs e w = Inr (e', w')"
  shows "holds S0 L e' w' \<and> subepolls w' = subepolls w"
  using assms
proof (induction rs arbitrary: e w)
  case Nil
  then show ?case by simp
next
  case (Cons r rs)
  show ?case
  proof (cases r)
    case (Accept_failed errn)
    with Cons.prems show ?thesis by (auto split: if_splits)
  next
    case (Accepted fd addr)
    define st where "st = (new_stats (a_now a))\<lparr>ip := addr\<rparr>"
    have fd: "0 < fd" "fd \<notin> L \<union> set (owned e)"
      using Cons.prems(2) by (simp_all add: Accepted)
    have em: "emit ss2 (emit ss1 w) = emit (ss1 @ ss2) w" for ss1 ss2 w
      by (simp add: emit_def)
    show ?thesis
    proof (cases "a_ctl_ok a fd")
      case False
      let ?w = "emit [Opened fd, Ctl_add (epfd e) fd False, Closed fd] w"
      have "accept_connections Epoll_base a rs e ?w = Inr (e', w')"
        using Cons.prems(3) False by (simp add: Accepted add_fd_def em)
      moreover have "holds S0 L e ?w"
        using Cons.prems(1) fd by (simp add: holds_def)
      ultimately show ?thesis
        using Cons.IH [of e ?w] Cons.prems(2) False by (simp add: Accepted)
    next
      case True
      let ?w = "emit [Opened fd, Ctl_add (epfd e) fd True] w"
      let ?e = "e\<lparr>size_clients := size_clients e + 1,
        clients := umap_emplace fd st (clients e)\<rparr>"
      have new: "umap_emplace fd st (clients e) = clients e @ [(fd, st)]"
        using fd by (auto simp: umap_emplace_def umap_count_def owned_def)
      have m: "mset (owned ?e) = add_mset fd (mset (owned e))"
        by (simp add: owned_def new)
      have set: "set (owned ?e) = insert fd (set (owned e))"
        using mset_eq_setD [of "owned ?e" "fd # owned e"] m by simp
      have "distinct (owned ?e)"
        using mset_eq_imp_distinct_iff [of "owned ?e" "fd # owned e"] m fd Cons.prems(1)
        by (simp add: holds_def)
      moreover have "count_ok ?e"
        using Cons.prems(1) by (simp add: holds_def count_ok_def new)
      ultimately have "holds S0 L ?e ?w"
        using Cons.prems(1) fd unfolding holds_def set by auto
      moreover have "accept_connections Epoll_base a rs ?e ?w = Inr (e', w')"
        using Cons.prems(3) True by (simp add: Accepted add_fd_def em st_def)
      moreover have "L \<union> set (owned ?e) = insert fd (L \<union> set (owned e))"
        using set by auto
      ultimately show ?thesis
        using Cons.IH [of ?e ?w] Cons.prems(2) True by (simp add: Accepted)
    qed
  qed
qed


section \<open>Stopping a loop\<close>

lemma remove_clients_all:
  assumes "remove_clients fds e w = (e', w')"
  shows "clients e' = fold umap_erase fds (clients e) \<and> pending_new_socks e' = pending_new_socks e \<and>
    sockfd e' = sockfd e \<and> epfd e' = epfd e \<and> timerfd e' = timerfd e \<and> wakeup_fd e' = wakeup_fd e \<and>
    is_listen e' = is_listen e \<and> show_timer_stats e' = show_timer_stats e \<and>
    w' = emit (concat (map (\<lambda>fd. [Ctl_del (epfd e) fd, Closed fd]) fds)) w"
  using assms
proof (induction fds arbitrary: e w)
  case Nil
  then show ?case by (simp add: emit_def)
next
  case (Cons fd fds)
  have "remove_clients fds (fst (remove_client fd e w)) (snd (remove_client fd e w)) = (e', w')"
    using Cons.prems by (simp split: prod.splits)
  from Cons.IH [OF this] show ?case
    by (simp add: remove_client_def emit_def)
qed

text \<open>The calls of \<open>fullstop\<close>, and the state it leaves.\<close>

definition stop_calls :: "epoll \<Rightarrow> sys list" where
  "stop_calls e = close_if_open (sockfd e) @
     concat (map (\<lambda>fd. [Ctl_del (epfd e) fd, Closed fd]) (map fst (clients e))) @
     map (\<lambda>p. Closed (fst p)) (pending_new_socks e) @
     close_if_open (epfd e) @ close_if_open (timerfd e) @ close_if_open (wakeup_fd e)"

definition stopped_fd :: "fd \<Rightarrow> fd" where
  "stopped_fd fd = (if 0 \<le> fd then -1 else fd)"

lemma fullstop_eq:
  "fullstop e w =
    (e\<lparr>sockfd := stopped_fd (sockfd e), clients := [], pending_new_socks := [],
       epfd := stopped_fd (epfd e), timerfd := stopped_fd (timerfd e),
       wakeup_fd := stopped_fd (wakeup_fd e), stdin_closed := True, socket_closed := True,
       size_clients := 0\<rparr>,
     emit (stop_calls e) (w\<lparr>g_should_stop := True\<rparr>))"
proof -
  let ?e = "if 0 \<le> sockfd e then e\<lparr>sockfd := -1\<rparr> else e"
  let ?w = "emit (close_if_open (sockfd e)) (w\<lparr>g_should_stop := True\<rparr>)"
  obtain e1 w1 where r: "remove_clients (map fst (clients ?e)) ?e ?w = (e1, w1)" by fastforce
  note f = remove_clients_all [OF r]
  have e1: "pending_new_socks e1 = pending_new_socks e" "epfd e1 = epfd e" "timerfd e1 = timerfd e"
    "wakeup_fd e1 = wakeup_fd e" "sockfd e1 = stopped_fd (sockfd e)" "is_listen e1 = is_listen e"
    "show_timer_stats e1 = show_timer_stats e"
    using f by (simp_all add: stopped_fd_def)
  have w1: "w1 = emit (concat (map (\<lambda>fd. [Ctl_del (epfd e) fd, Closed fd]) (map fst (clients e)))) ?w"
    using f by (cases "0 \<le> sockfd e") simp_all
  show ?thesis
    using r e1
    by (simp only: fullstop_def Let_def w1 prod.case)
      (simp add: stop_calls_def emit_def stopped_fd_def)
qed

lemma closed_fds_stop_calls [simp]: "closed_fds (stop_calls e) = owned e"
  by (simp add: stop_calls_def owned_def close_if_open_eq del: map_map)

lemma replay_stop_calls:
  assumes "distinct (owned e)" "set (owned e) \<subseteq> S"
  shows "replay (stop_calls e) S = Some (S - set (owned e))"
proof -
  have "replay (stop_calls e) S = replay (map Closed (closed_fds (stop_calls e))) S"
    by (rule replay_only_closes) (auto simp: stop_calls_def close_if_open_eq)
  also have "\<dots> = Some (S - set (owned e))"
    using assms by (simp add: replay_closes)
  finally show ?thesis .
qed

lemma owned_stopped: "owned (fst (fullstop e w)) = []"
  by (simp add: fullstop_eq owned_def open_fd_def stopped_fd_def)

lemma holds_fullstop:
  assumes "holds S0 L e w" "fullstop e w = (e', w')"
  shows "holds S0 L e' w' \<and> subepolls w' = subepolls w \<and> owned e' = []"
proof -
  have o: "owned e' = []" using owned_stopped [of e w] assms(2) by simp
  have c: "count_ok e'" "calls w' = calls w @ stop_calls e" "subepolls w' = subepolls w"
    using assms(2) by (auto simp: fullstop_eq count_ok_def)
  have "L \<union> set (owned e) - set (owned e) = L"
    using assms(1) by (auto simp: holds_def)
  with assms(1) o c show ?thesis
    by (simp add: holds_def replay_stop_calls)
qed


section \<open>Every interleaving\<close>

text \<open>
  The steps of the server: the main loop or any worker handles one event, or ends (the
  stop flag, a closed standard input or socket) and is destroyed. A connection accepted is
  one answer, so an event with several is as many steps; the drain of a worker's queue holds
  its lock throughout.
\<close>

inductive server_step :: "fp \<Rightarrow> fd set \<Rightarrow> epoll \<times> world \<Rightarrow> epoll \<times> world \<Rightarrow> bool" for f B where
  main_event: "event_ok m ev \<Longrightarrow>
     accepts_fresh (\<lambda>_. True) (B \<union> set (worker_fds w) \<union> set (owned m)) (a_accepts a) \<Longrightarrow>
     exec_event Main_epoll f a ev m w = Inr (m', w') \<Longrightarrow> server_step f B (m, w) (m', w')"
| worker_event: "subepolls w = xs @ e # ys \<Longrightarrow> event_ok e ev \<Longrightarrow>
     accepts_fresh (a_ctl_ok a) (B \<union> set (worker_fds w) \<union> set (owned m)) (a_accepts a) \<Longrightarrow>
     exec_event Epoll_base f a ev e w = Inr (e', w') \<Longrightarrow>
     server_step f B (m, w) (m, w'\<lparr>subepolls := xs @ e' # ys\<rparr>)"
| main_stop: "fullstop m w = (m', w') \<Longrightarrow> server_step f B (m, w) (m', w')"
| worker_stop: "subepolls w = xs @ e # ys \<Longrightarrow> fullstop e w = (e', w') \<Longrightarrow>
     server_step f B (m, w) (m, w'\<lparr>subepolls := xs @ e' # ys\<rparr>)"
| signal: "server_step f B (m, w) (m, stop_signal_handler w)"

text \<open>A worker in the middle of the list, seen from its own loop.\<close>

lemma disjoint_parts:
  "((P \<and> dm \<and> (B \<union> (R \<union> E)) \<inter> M = {} \<and> cm) \<and> (dr \<and> de \<and> E \<inter> R = {}) \<and> B \<inter> (R \<union> E) = {} \<and>
      (cx \<and> ce \<and> cy)) \<longleftrightarrow>
   ((P \<and> de \<and> (B \<union> M \<union> R) \<inter> E = {} \<and> ce) \<and> dm \<and> dr \<and> cm \<and> M \<inter> R = {} \<and> B \<inter> (M \<union> R) = {} \<and>
      (cx \<and> cy))"
  by blast

lemma server_ok_worker:
  assumes "subepolls w = xs @ e # ys"
  shows "server_ok S0 B m w \<longleftrightarrow>
    holds S0 (B \<union> set (owned m) \<union> set (concat (map owned (xs @ ys)))) e w \<and>
    distinct (owned m) \<and> distinct (concat (map owned (xs @ ys))) \<and> count_ok m \<and>
    set (owned m) \<inter> set (concat (map owned (xs @ ys))) = {} \<and>
    B \<inter> (set (owned m) \<union> set (concat (map owned (xs @ ys)))) = {} \<and>
    (list_all count_ok xs \<and> list_all count_ok ys)"
proof -
  let ?R = "set (concat (map owned (xs @ ys)))"
  have d: "distinct (worker_fds w) \<longleftrightarrow> distinct (concat (map owned (xs @ ys))) \<and>
      distinct (owned e) \<and> set (owned e) \<inter> ?R = {}"
    using assms by (auto simp: worker_fds_def)
  have s: "set (worker_fds w) = ?R \<union> set (owned e)"
    using assms by (auto simp: worker_fds_def)
  have c: "list_all count_ok (subepolls w) \<longleftrightarrow> list_all count_ok xs \<and> count_ok e \<and> list_all count_ok ys"
    using assms by simp
  have u: "B \<union> (?R \<union> set (owned e)) \<union> set (owned m) = B \<union> set (owned m) \<union> ?R \<union> set (owned e)"
    by blast
  show ?thesis
    unfolding server_ok_def holds_def d s c u by (rule disjoint_parts)
qed

lemma server_ok_step:
  assumes "server_ok S0 B m w" "server_step f B (m, w) s'"
  shows "server_ok S0 B (fst s') (snd s')"
  using assms(2)
proof cases
  case (main_event ev a m' w')
  have h: "holds S0 (B \<union> set (worker_fds w)) m w" using assms(1) by (simp add: server_ok_def)
  from exec_event_frame [OF h main_event(2,4)] show ?thesis
  proof
    assume "holds S0 (B \<union> set (worker_fds w)) m' w' \<and> subepolls w' = subepolls w"
    with assms(1) show ?thesis by (simp add: main_event(1) server_ok_def worker_fds_def)
  next
    assume "accept_connections Main_epoll a (a_accepts a) m w = Inr (m', w')"
    with server_ok_accept_main [OF assms(1) main_event(3)] show ?thesis by (simp add: main_event(1))
  qed
next
  case (worker_event xs e ys ev a e' w')
  let ?L = "B \<union> set (owned m) \<union> set (concat (map owned (xs @ ys)))"
  have h: "holds S0 ?L e w" using assms(1) server_ok_worker [OF worker_event(2)] by blast
  have "B \<union> set (worker_fds w) \<union> set (owned m) = ?L \<union> set (owned e)"
    using worker_event(2) by (auto simp: worker_fds_def)
  with worker_event(4) have fresh: "accepts_fresh (a_ctl_ok a) (?L \<union> set (owned e)) (a_accepts a)"
    by simp
  from exec_event_frame [OF h worker_event(3,5)] holds_accept_base [OF h fresh]
  have "holds S0 ?L e' w'" by blast
  then have "holds S0 ?L e' (w'\<lparr>subepolls := xs @ e' # ys\<rparr>)" by (simp add: holds_def)
  with assms(1) show ?thesis
    using server_ok_worker [OF worker_event(2)]
      server_ok_worker [of "w'\<lparr>subepolls := xs @ e' # ys\<rparr>" xs e' ys] worker_event(1)
    by simp
next
  case (main_stop m' w')
  have h: "holds S0 (B \<union> set (worker_fds w)) m w" using assms(1) by (simp add: server_ok_def)
  from holds_fullstop [OF h main_stop(2)] assms(1) main_stop(1) show ?thesis
    by (simp add: server_ok_def worker_fds_def)
next
  case (worker_stop xs e ys e' w')
  let ?L = "B \<union> set (owned m) \<union> set (concat (map owned (xs @ ys)))"
  have h: "holds S0 ?L e w" using assms(1) server_ok_worker [OF worker_stop(2)] by blast
  from holds_fullstop [OF h worker_stop(3)]
  have "holds S0 ?L e' (w'\<lparr>subepolls := xs @ e' # ys\<rparr>)" by (simp add: holds_def)
  with assms(1) show ?thesis
    using server_ok_worker [OF worker_stop(2)]
      server_ok_worker [of "w'\<lparr>subepolls := xs @ e' # ys\<rparr>" xs e' ys] worker_stop(1)
    by simp
next
  case signal
  with assms(1) show ?thesis
    by (simp add: stop_signal_handler_def server_ok_def holds_def worker_fds_def)
qed

end
