(* ===== verification/LeastLoaded.thy ===== *)
theory LeastLoaded
  imports Prelude
begin

text \<open>
  The interface of a load balancer: a worker has a load, and giving it one item raises the
  load by one. Giving each item to the first least loaded worker keeps the loads even.
\<close>

locale least_loaded =
  fixes load :: "'w \<Rightarrow> int"
    and give :: "'c \<Rightarrow> 'w \<Rightarrow> 'w"
  assumes load_give [simp]: "load (give c x) = load x + 1"
begin

definition even_loads :: "'w list \<Rightarrow> bool" where
  "even_loads ws \<longleftrightarrow> (\<forall>x\<in>set ws. \<forall>y\<in>set ws. load x \<le> load y + 1)"

definition total_load :: "'w list \<Rightarrow> int" where
  "total_load ws = sum_list (map load ws)"

lemma even_give:
  assumes "min_element load ws = Some i" "even_loads ws"
  shows "even_loads (ws[i := give c (ws ! i)])"
proof -
  note least = min_element_least [OF assms(1)]
  have "load x \<le> load y + 1"
    if x: "x \<in> set (ws[i := give c (ws ! i)])" and y: "y \<in> set (ws[i := give c (ws ! i)])" for x y
  proof -
    have i: "ws ! i \<in> set ws" using least(1) by simp
    from x y have "x = give c (ws ! i) \<or> x \<in> set ws" "y = give c (ws ! i) \<or> y \<in> set ws"
      using set_update_subset_insert [of ws i "give c (ws ! i)"] by blast+
    moreover have "load (ws ! i) \<le> load z" if "z \<in> set ws" for z using least(2) [OF that] .
    moreover have "load a \<le> load b + 1" if "a \<in> set ws" "b \<in> set ws" for a b
      using assms(2) that by (simp add: even_loads_def)
    ultimately show ?thesis using i by (smt (verit) load_give)
  qed
  then show ?thesis by (simp add: even_loads_def)
qed

lemma total_give:
  assumes "min_element load ws = Some i"
  shows "total_load (ws[i := give c (ws ! i)]) = total_load ws + 1"
proof -
  have i: "i < length ws" using min_element_least(1) [OF assms] .
  have "total_load ws = sum_list (map load (take i ws @ ws ! i # drop (Suc i) ws))"
    using i by (simp only: id_take_nth_drop [symmetric] total_load_def)
  with i show ?thesis
    by (simp add: total_load_def upd_conv_take_nth_drop)
qed

text \<open>Even loads of a known total differ from the mean by less than one.\<close>

lemma even_bound:
  assumes "even_loads ws" "x \<in> set ws"
  shows "load x * int (length ws) \<le> total_load ws + int (length ws) - 1"
proof -
  have mean: "(load x - 1) * int (length ys) \<le> total_load ys" if "set ys \<subseteq> set ws" for ys
    using that
  proof (induction ys)
    case Nil
    then show ?case by (simp add: total_load_def)
  next
    case (Cons y ys)
    then have "load x \<le> load y + 1" using assms by (auto simp: even_loads_def)
    with Cons show ?case by (simp add: total_load_def algebra_simps)
  qed
  obtain as bs where ws: "ws = as @ x # bs" using assms(2) by (meson split_list)
  then have "set (as @ bs) \<subseteq> set ws" by auto
  from mean [OF this] show ?thesis
    unfolding ws by (simp add: total_load_def algebra_simps)
qed

end

end
