(* ===== verification/EpollProperties.thy ===== *)
theory EpollProperties
  imports EpollOwnership LeastLoaded
begin

text \<open>
  The properties of the \<open>mync\<close> server and client: which descriptors are open in every
  reachable state, how connections spread over the workers, how a loop ends, what the client
  relays, and four behaviours at odds with the intent of the code.
\<close>


section \<open>Construction\<close>

definition setup_fds :: "setup_answers \<Rightarrow> fd list" where
  "setup_fds s = [s_epoll_create s, s_eventfd s, s_timerfd s]"

definition setup_fresh :: "fd set \<Rightarrow> setup_answers \<Rightarrow> bool" where
  "setup_fresh S s \<longleftrightarrow>
     list_all (\<lambda>fd. fd = -1 \<or> 0 < fd \<and> fd \<notin> S) (setup_fds s) \<and>
     distinct (filter (\<lambda>fd. fd \<noteq> -1) (setup_fds s))"

definition timer_kept :: "fd \<Rightarrow> bool \<Rightarrow> setup_answers \<Rightarrow> fd" where
  "timer_kept sock listen s =
     (if (listen \<or> sock = -1) \<and> s_settime s \<noteq> -1 then s_timerfd s else -1)"

lemma new_epoll_state:
  assumes "new_epoll sock listen show s w = Inr (e, w')"
  shows "e = \<lparr>epfd = s_epoll_create s, sockfd = sock, is_listen = listen, show_timer_stats = show,
      timerfd = timer_kept sock listen s, clients = [], stdin_closed = False,
      socket_closed = False, size_clients = 0, wakeup_fd = s_eventfd s, pending_new_socks = []\<rparr>"
    and "s_epoll_create s \<noteq> -1 \<and> s_eventfd s \<noteq> -1"
  using assms
  by (auto simp: new_epoll_def setup_epoll_def Let_def create_timer_def timer_kept_def
      split: if_splits)

lemma holds_new_epoll:
  assumes "new_epoll sock listen show s w = Inr (e, w')"
    and "replay (calls w) S0 = Some (L \<union> set (open_fd sock))" "L \<inter> set (open_fd sock) = {}"
    and "setup_fresh (L \<union> set (open_fd sock)) s"
  shows "holds S0 L e w' \<and> subepolls w' = subepolls w \<and> sockfd e = sock \<and> is_listen e = listen \<and>
    clients e = [] \<and> pending_new_socks e = [] \<and> g_should_stop w' = g_should_stop w \<and>
    set (owned e) \<subseteq> set (open_fd sock) \<union> set (setup_fds s)"
proof -
  have d: "s_epoll_create s \<noteq> -1" "s_eventfd s \<noteq> -1"
    using new_epoll_state(2) [OF assms(1)] by simp_all
  then have f: "0 < s_epoll_create s" "0 < s_eventfd s" "s_epoll_create s \<noteq> s_eventfd s"
    "s_epoll_create s \<notin> L \<union> set (open_fd sock)" "s_eventfd s \<notin> L \<union> set (open_fd sock)"
    using assms(4) by (auto simp: setup_fresh_def setup_fds_def)
  have t: "s_timerfd s = -1 \<or> 0 < s_timerfd s \<and> s_timerfd s \<notin> L \<union> set (open_fd sock) \<and>
      s_timerfd s \<noteq> s_epoll_create s \<and> s_timerfd s \<noteq> s_eventfd s"
    using assms(4) d by (auto simp: setup_fresh_def setup_fds_def)
  define add where "add = (if 0 < sock then [Ctl_add (s_epoll_create s) sock (s_ctl_ok s sock)] else [])"
  define pre where "pre = [Opened (s_epoll_create s), Ctl_add (s_epoll_create s) 0 (s_ctl_ok s 0)] @
    add @ [Opened (s_eventfd s), Ctl_add (s_epoll_create s) (s_eventfd s) (s_ctl_ok s (s_eventfd s))]"
  define post where "post = (if (listen \<or> sock = -1) \<and> s_timerfd s \<noteq> -1 then
      (if s_settime s = -1 then [Opened (s_timerfd s), Closed (s_timerfd s)]
       else [Opened (s_timerfd s), Ctl_add (s_epoll_create s) (s_timerfd s) (s_ctl_ok s (s_timerfd s))])
      else [])"
  note e = new_epoll_state(1) [OF assms(1)]
  have w': "w' = emit (pre @ post) w"
    using assms(1) d t
    by (auto simp: new_epoll_def setup_epoll_def Let_def create_timer_def setup_add_def opened_def
        emit_def pre_def post_def add_def STDIN_FILENO_def split: if_splits)
  have "replay add S = Some S" for S by (simp add: add_def)
  then have "replay pre (L \<union> set (open_fd sock)) =
      Some (insert (s_eventfd s) (insert (s_epoll_create s) (L \<union> set (open_fd sock))))"
    using f by (simp add: pre_def)
  moreover have "replay post (insert (s_eventfd s) (insert (s_epoll_create s) (L \<union> set (open_fd sock)))) =
      Some (L \<union> set (owned e))"
    using f t by (auto simp: post_def timer_kept_def e owned_def open_fd_def)
  moreover have "distinct (owned e)" "L \<inter> set (owned e) = {}"
      "set (owned e) \<subseteq> set (open_fd sock) \<union> set (setup_fds s)"
    using f t assms(3) by (auto simp: e timer_kept_def owned_def open_fd_def setup_fds_def)
  ultimately show ?thesis
    using assms(2) by (simp add: e w' holds_def count_ok_def)
qed

text \<open>The descriptors a worker's loop keeps once it is constructed.\<close>

definition kept_fds :: "setup_answers \<Rightarrow> fd set" where
  "kept_fds s = (if s_settime s = -1 then {s_epoll_create s, s_eventfd s}
     else {s_epoll_create s, s_eventfd s, s_timerfd s} - {-1})"

fun workers_fresh :: "fd set \<Rightarrow> (setup_answers \<times> bool) list \<Rightarrow> bool" where
  "workers_fresh S [] = True"
| "workers_fresh S ((s, created) # rest) =
     (setup_fresh S s \<and> workers_fresh (if created then S \<union> kept_fds s else S) rest)"

lemma owned_new_worker:
  assumes "new_epoll (-1) False False s w = Inr (e, w')"
  shows "set (owned e) \<subseteq> kept_fds s"
  using new_epoll_state [OF assms]
  by (auto simp: owned_def open_fd_def timer_kept_def kept_fds_def)

lemma setup_fresh_mono: "setup_fresh S s \<Longrightarrow> S' \<subseteq> S \<Longrightarrow> setup_fresh S' s"
  by (auto simp: setup_fresh_def setup_fds_def)

lemma workers_fresh_mono: "workers_fresh S ws \<Longrightarrow> S' \<subseteq> S \<Longrightarrow> workers_fresh S' ws"
proof (induction S ws arbitrary: S' rule: workers_fresh.induct)
  case (1 S)
  then show ?case by simp
next
  case (2 S s created rest)
  have "workers_fresh (if created then S' \<union> kept_fds s else S') rest"
  proof (rule 2(1))
    show "workers_fresh (if created then S \<union> kept_fds s else S) rest" using 2(2) by simp
    show "(if created then S' \<union> kept_fds s else S') \<subseteq> (if created then S \<union> kept_fds s else S)"
      using 2(3) by auto
  qed
  with 2(2) setup_fresh_mono [OF _ 2(3), of s] show ?case by simp
qed

lemma server_ok_start_workers:
  assumes "start_workers ws m w = Inr (m', w')" "server_ok S0 B m w"
    and "workers_fresh (B \<union> set (owned m) \<union> set (worker_fds w)) ws"
  shows "server_ok S0 B m' w' \<and> m' = m"
  using assms
proof (induction ws arbitrary: w)
  case Nil
  then show ?case by simp
next
  case (Cons wk rest)
  obtain s created where wk: "wk = (s, created)" by (cases wk)
  let ?L = "B \<union> set (owned m) \<union> set (worker_fds w)"
  obtain sub w1 where n: "new_epoll (-1) False False s w = Inr (sub, w1)"
    using Cons.prems(1) by (auto simp: wk split: sum.splits)
  have rep: "replay (calls w) S0 = Some (?L \<union> set (open_fd (- 1)))"
    using Cons.prems(2) by (simp add: server_ok_def holds_def open_fd_def Un_ac)
  have "holds S0 ?L sub w1 \<and> subepolls w1 = subepolls w"
    using holds_new_epoll [OF n rep] Cons.prems(3) by (simp add: wk open_fd_def)
  then have h: "holds S0 ?L sub w1" "subepolls w1 = subepolls w" by simp_all
  show ?case
  proof (cases created)
    case True
    let ?w = "w1\<lparr>subepolls := subepolls w1 @ [sub]\<rparr>"
    have fds: "worker_fds ?w = worker_fds w @ owned sub" by (simp add: worker_fds_def h(2))
    have L: "?L = B \<union> set (owned m) \<union> set (concat (map owned (subepolls w @ [])))"
      by (simp add: worker_fds_def)
    have "holds S0 ?L sub ?w" using h(1) by (simp add: holds_def)
    moreover have "set (owned m) \<inter> set (worker_fds w) = {} \<and> B \<inter> (set (owned m) \<union> set (worker_fds w)) = {}"
      using Cons.prems(2) unfolding server_ok_def holds_def by blast
    ultimately have ok: "server_ok S0 B m ?w"
      using Cons.prems(2) server_ok_worker [of ?w "subepolls w" sub "[]" S0 B m] h(2)
      unfolding L by (simp add: server_ok_def holds_def worker_fds_def)
    have fresh: "workers_fresh (B \<union> set (owned m) \<union> set (worker_fds ?w)) rest"
    proof (rule workers_fresh_mono)
      show "workers_fresh (?L \<union> kept_fds s) rest" using Cons.prems(3) True by (simp add: wk)
      show "B \<union> set (owned m) \<union> set (worker_fds ?w) \<subseteq> ?L \<union> kept_fds s"
        using owned_new_worker [OF n] unfolding fds by auto
    qed
    have "start_workers rest m ?w = Inr (m', w')" using Cons.prems(1) n True by (simp add: wk)
    from Cons.IH [OF this ok fresh] show ?thesis .
  next
    case False
    let ?w = "snd (fullstop sub w1)"
    have "holds S0 ?L (fst (fullstop sub w1)) ?w \<and> subepolls ?w = subepolls w1 \<and>
        owned (fst (fullstop sub w1)) = []"
      using holds_fullstop [OF h(1)] by (metis prod.collapse)
    then have ok: "server_ok S0 B m ?w" and "worker_fds ?w = worker_fds w"
      using Cons.prems(2) h(2) by (auto simp: server_ok_def holds_def worker_fds_def Un_ac)
    then have fresh: "workers_fresh (B \<union> set (owned m) \<union> set (worker_fds ?w)) rest"
      using Cons.prems(3) False by (simp add: wk)
    have "start_workers rest m ?w = Inr (m', w')" using Cons.prems(1) n False by (simp add: wk)
    from Cons.IH [OF this ok fresh] show ?thesis .
  qed
qed

lemma server_ok_start:
  assumes "new_main_epoll sock True s ws w = Inr (m, w')"
    and "replay (calls w) S0 = Some (insert sock B)" "subepolls w = []" "0 \<le> sock" "sock \<notin> B"
    and "setup_fresh (insert sock B) s" "workers_fresh (insert sock B \<union> set (setup_fds s)) ws"
  shows "server_ok S0 B m w'"
proof -
  obtain m1 w1 where n: "new_epoll sock True True s w = Inr (m1, w1)"
    and st: "start_workers ws m1 w1 = Inr (m, w')"
    using assms(1) by (auto simp: new_main_epoll_def then_do_def split: sum.splits)
  have sock: "set (open_fd sock) = {sock}" using assms(4) by (simp add: open_fd_def)
  from holds_new_epoll [OF n, of S0 B] assms
  have "holds S0 B m1 w1 \<and> subepolls w1 = subepolls w \<and>
      set (owned m1) \<subseteq> insert sock (set (setup_fds s))"
    by (simp add: sock)
  then have h: "server_ok S0 B m1 w1" "worker_fds w1 = []"
      "set (owned m1) \<subseteq> insert sock (set (setup_fds s))"
    using assms(3) by (simp_all add: server_ok_def worker_fds_def)
  have "workers_fresh (B \<union> set (owned m1) \<union> set (worker_fds w1)) ws"
    using h(2,3) by (intro workers_fresh_mono [OF assms(7)]) auto
  from server_ok_start_workers [OF st h(1) this] show ?thesis by metis
qed

text \<open>The states of the server: constructed, then any interleaving of steps.\<close>

definition server_reaches :: "fp \<Rightarrow> fd set \<Rightarrow> fd \<Rightarrow> setup_answers \<Rightarrow> (setup_answers \<times> bool) list
    \<Rightarrow> epoll \<Rightarrow> world \<Rightarrow> bool" where
  "server_reaches f B sock s ws m w \<longleftrightarrow>
     (\<exists>m0 w0. new_main_epoll sock True s ws
          \<lparr>g_should_stop = False, calls = [], subepolls = []\<rparr> = Inr (m0, w0) \<and>
        (server_step f B)\<^sup>*\<^sup>* (m0, w0) (m, w))"

lemma server_ok_reachable:
  assumes "server_reaches f B sock s ws m w" "0 \<le> sock" "sock \<notin> B"
    and "setup_fresh (insert sock B) s" "workers_fresh (insert sock B \<union> set (setup_fds s)) ws"
  shows "server_ok (insert sock B) B m w"
proof -
  obtain m0 w0 where st: "new_main_epoll sock True s ws
      \<lparr>g_should_stop = False, calls = [], subepolls = []\<rparr> = Inr (m0, w0)"
    and steps: "(server_step f B)\<^sup>*\<^sup>* (m0, w0) (m, w)"
    using assms(1) by (auto simp: server_reaches_def)
  have "server_ok (insert sock B) B m0 w0"
    using server_ok_start [OF st _ _ assms(2-)] by simp
  with steps show ?thesis
  proof (induction rule: rtranclp_induct2)
    case refl
    then show ?case .
  next
    case (step a b c d)
    with server_ok_step [of "insert sock B" B a b f "(c, d)"] show ?case by simp
  qed
qed



section \<open>Descriptors\<close>

text \<open>A concrete server for the witnesses: one worker, started, and one client accepted.\<close>

definition demo_setup :: "fd \<Rightarrow> setup_answers" where
  "demo_setup n = \<lparr>s_epoll_create = n, s_eventfd = n + 1, s_timerfd = n + 2, s_settime = 0,
     s_ctl_ok = (\<lambda>fd. True)\<rparr>"

definition demo_answers :: answers where
  "demo_answers = \<lparr>a_stdin = Received [], a_recv = Received [65], a_sent = (\<lambda>fd. 0), a_stdout = 0,
     a_accepts = [Accepted 10 ''10.0.0.1:99''], a_ctl_ok = (\<lambda>fd. True), a_timer_read = 8, a_now = 5\<rparr>"

lemma demo_started:
  "new_main_epoll 3 True (demo_setup 4) [(demo_setup 7, True)]
     \<lparr>g_should_stop = False, calls = [], subepolls = []\<rparr> =
   Inr (\<lparr>epfd = 4, sockfd = 3, is_listen = True, show_timer_stats = True, timerfd = 6,
      clients = [], stdin_closed = False, socket_closed = False, size_clients = 0,
      wakeup_fd = 5, pending_new_socks = []\<rparr>,
     \<lparr>g_should_stop = False,
      calls = [Opened 4, Ctl_add 4 0 True, Ctl_add 4 3 True, Opened 5, Ctl_add 4 5 True, Opened 6,
        Ctl_add 4 6 True, Opened 7, Ctl_add 7 0 True, Opened 8, Ctl_add 7 8 True, Opened 9,
        Ctl_add 7 9 True],
      subepolls = [\<lparr>epfd = 7, sockfd = -1, is_listen = False, show_timer_stats = False, timerfd = 9,
        clients = [], stdin_closed = False, socket_closed = False, size_clients = 0,
        wakeup_fd = 8, pending_new_socks = []\<rparr>]\<rparr>)"
  by (simp add: new_main_epoll_def new_epoll_def setup_epoll_def Let_def demo_setup_def opened_def
      emit_def setup_add_def create_timer_def then_do_def STDIN_FILENO_def)

definition demo_worker :: epoll where
  "demo_worker = \<lparr>epfd = 7, sockfd = -1, is_listen = False, show_timer_stats = False, timerfd = 9,
        clients = [], stdin_closed = False, socket_closed = False, size_clients = 1,
        wakeup_fd = 8, pending_new_socks = [(10, (new_stats 5)\<lparr>ip := ''10.0.0.1:99''\<rparr>)]\<rparr>"

lemma demo_accepted:
  "\<exists>m w. server_reaches demo_fp {0, 1, 2} 3 (demo_setup 4) [(demo_setup 7, True)] m w \<and>
    subepolls w = [demo_worker] \<and> is_listen m"
proof -
  let ?m = "\<lparr>epfd = 4, sockfd = 3, is_listen = True, show_timer_stats = True, timerfd = 6,
      clients = [], stdin_closed = False, socket_closed = False, size_clients = 0,
      wakeup_fd = 5, pending_new_socks = []\<rparr>"
  obtain w0 where w0: "new_main_epoll 3 True (demo_setup 4) [(demo_setup 7, True)]
      \<lparr>g_should_stop = False, calls = [], subepolls = []\<rparr> = Inr (?m, w0)"
    and sub: "subepolls w0 = [demo_worker\<lparr>pending_new_socks := [], size_clients := 0\<rparr>]"
    using demo_started by (simp add: demo_worker_def)
  let ?w = "(emit [Opened 10, Woken 8] w0)\<lparr>subepolls := [demo_worker]\<rparr>"
  have "exec_event Main_epoll demo_fp demo_answers \<lparr>ev_fd = 3, evs = 1\<rparr> ?m w0 = Inr (?m, ?w)"
    using sub
    by (simp add: exec_event_def handle_socket_data_def demo_answers_def epoll_flags
        STDIN_FILENO_def Let_def ONE_THREAD_MODE_def push_external_socket_def demo_worker_def emit_def)
  moreover have "event_ok ?m \<lparr>ev_fd = 3, evs = 1\<rparr>"
    by (simp add: event_ok_def)
  moreover have "accepts_fresh (\<lambda>_. True) ({0, 1, 2} \<union> set (worker_fds w0) \<union> set (owned ?m))
      (a_accepts demo_answers)"
    by (simp add: demo_answers_def worker_fds_def sub owned_def open_fd_def demo_worker_def)
  ultimately have "server_step demo_fp {0, 1, 2} (?m, w0) (?m, ?w)"
    by (intro server_step.main_event)
  with w0 have "server_reaches demo_fp {0, 1, 2} 3 (demo_setup 4) [(demo_setup 7, True)] ?m ?w"
    unfolding server_reaches_def by blast
  then show ?thesis by (intro exI [of _ ?m] exI [of _ ?w]) simp
qed

lemma demo_fresh:
  "(0 :: fd) \<le> 3" "(3 :: fd) \<notin> {0, 1, 2}"
  "setup_fresh (insert 3 {0, 1, 2}) (demo_setup 4)"
  "workers_fresh (insert 3 {0, 1, 2} \<union> set (setup_fds (demo_setup 4))) [(demo_setup 7, True)]"
  by (simp_all add: demo_setup_def setup_fresh_def setup_fds_def)



text \<open>In every reachable state the counter each loop is balanced by is the number of its
  clients and of the connections waiting in its queue.\<close>

theorem server_counts:
  assumes "server_reaches f B sock s ws m w" "0 \<le> sock" "sock \<notin> B"
    and "setup_fresh (insert sock B) s" "workers_fresh (insert sock B \<union> set (setup_fds s)) ws"
    and "e \<in> set (m # subepolls w)"
  shows "size_clients e = int (length (clients e) + length (pending_new_socks e))"
  using server_ok_reachable [OF assms(1-5)] assms(6)
  by (auto simp: server_ok_def holds_def list_all_iff count_ok_def)

lemma server_counts_witness:
  "size_clients demo_worker = int (length (clients demo_worker) + length (pending_new_socks demo_worker))"
proof -
  obtain m w where "server_reaches demo_fp {0, 1, 2} 3 (demo_setup 4) [(demo_setup 7, True)] m w"
    "subepolls w = [demo_worker]"
    using demo_accepted by blast
  with server_counts [OF this(1) demo_fresh, of demo_worker] show ?thesis by simp
qed

text \<open>\<open>fullstop\<close> closes exactly the descriptors the loop holds, each once and in a fixed
  order; a second call, from the destructor, closes nothing.\<close>

theorem fullstop_releases:
  "let (e1, w1) = fullstop e w; (e2, w2) = fullstop e1 w1
   in closed_fds (calls w1) = closed_fds (calls w) @ owned e \<and>
      closed_fds (calls w2) = closed_fds (calls w1) \<and> owned e1 = [] \<and> e2 = e1"
  by (simp add: fullstop_eq owned_def open_fd_def stopped_fd_def)


section \<open>Handing connections to the workers\<close>

interpretation worker_loop: least_loaded size_clients "\<lambda>(fd, st). push_external_socket fd st"
  by unfold_locales (simp add: push_external_socket_def split: prod.split)

lemma accept_connections_main:
  assumes "accept_connections Main_epoll a rs m w = Inr (m', w')"
  shows "m' = m" "worker_loop.even_loads (subepolls w) \<Longrightarrow> worker_loop.even_loads (subepolls w')"
    "worker_loop.total_load (subepolls w') =
       worker_loop.total_load (subepolls w) + int (length (takeWhile (\<lambda>r. \<exists>fd addr. r = Accepted fd addr) rs))"
proof -
  have "m' = m \<and> (worker_loop.even_loads (subepolls w) \<longrightarrow> worker_loop.even_loads (subepolls w')) \<and>
    worker_loop.total_load (subepolls w') = worker_loop.total_load (subepolls w) +
      int (length (takeWhile (\<lambda>r. \<exists>fd addr. r = Accepted fd addr) rs))"
    using assms
  proof (induction rs arbitrary: w)
    case Nil
    then show ?case by simp
  next
    case (Cons r rs)
    show ?case
    proof (cases r)
      case (Accept_failed errn)
      with Cons.prems show ?thesis by (auto split: if_splits)
    next
      case (Accepted fd addr)
      define st where "st = (new_stats (a_now a))\<lparr>ip := addr\<rparr>"
      obtain i where i: "min_element size_clients (subepolls w) = Some i"
        using Cons.prems by (auto simp: Accepted ONE_THREAD_MODE_def Let_def split: option.splits)
      let ?subs = "(subepolls w)[i := push_external_socket fd st (subepolls w ! i)]"
      have "accept_connections Main_epoll a rs m
          (emit [Woken (wakeup_fd (subepolls w ! i))] ((emit [Opened fd] w)\<lparr>subepolls := ?subs\<rparr>)) =
          Inr (m', w')"
        using Cons.prems i by (simp add: Accepted ONE_THREAD_MODE_def Let_def st_def)
      from Cons.IH [OF this] show ?thesis
        using worker_loop.even_give [OF i, of "(fd, st)"] worker_loop.total_give [OF i, of "(fd, st)"]
        by (simp add: Accepted)
    qed
  qed
  then show "m' = m" "worker_loop.even_loads (subepolls w) \<Longrightarrow> worker_loop.even_loads (subepolls w')"
    "worker_loop.total_load (subepolls w') =
       worker_loop.total_load (subepolls w) + int (length (takeWhile (\<lambda>r. \<exists>fd addr. r = Accepted fd addr) rs))"
    by simp_all
qed

text \<open>C28: Accepting connections keeps the workers balanced: if their loads differ by at most one
  before, they do after any number of accepted connections.\<close>

theorem accept_keeps_balance:
  assumes "accept_connections Main_epoll a rs m w = Inr (m', w')"
    and "list_all (\<lambda>x. list_all (\<lambda>y. size_clients x \<le> size_clients y + 1) (subepolls w)) (subepolls w)"
  shows "list_all (\<lambda>x. list_all (\<lambda>y. size_clients x \<le> size_clients y + 1) (subepolls w')) (subepolls w')"
  using accept_connections_main(2) [OF assms(1)] assms(2)
  by (simp add: worker_loop.even_loads_def list_all_iff)

text \<open>Every accepted connection is counted by exactly one worker: the workers' loads grow
  together by the number of connections accepted before the queue of the listening socket was
  empty.\<close>

theorem accept_counts_each:
  assumes "accept_connections Main_epoll a rs m w = Inr (m', w')"
  shows "sum_list (map size_clients (subepolls w')) = sum_list (map size_clients (subepolls w)) +
    int (length (takeWhile (\<lambda>r. \<exists>fd addr. r = Accepted fd addr) rs))"
  using accept_connections_main(3) [OF assms] by (simp add: worker_loop.total_load_def)

definition idle_worker :: epoll where
  "idle_worker = demo_worker\<lparr>pending_new_socks := [], size_clients := 0\<rparr>"

lemma demo_accept_two:
  "accept_connections Main_epoll demo_answers [Accepted 10 ''a'', Accepted 11 ''b''] idle_worker
     \<lparr>g_should_stop = False, calls = [], subepolls = [idle_worker, idle_worker]\<rparr> =
   Inr (idle_worker, \<lparr>g_should_stop = False, calls = [Opened 10, Woken 8, Opened 11, Woken 8],
     subepolls = [push_external_socket 10 ((new_stats 5)\<lparr>ip := ''a''\<rparr>) idle_worker,
                  push_external_socket 11 ((new_stats 5)\<lparr>ip := ''b''\<rparr>) idle_worker]\<rparr>)"
  by (simp add: ONE_THREAD_MODE_def Let_def emit_def demo_answers_def idle_worker_def demo_worker_def
      push_external_socket_def)

lemma accept_keeps_balance_witness:
  "\<exists>w'. accept_connections Main_epoll demo_answers [Accepted 10 ''a'', Accepted 11 ''b''] idle_worker
     \<lparr>g_should_stop = False, calls = [], subepolls = [idle_worker, idle_worker]\<rparr> = Inr (idle_worker, w') \<and>
   list_all (\<lambda>x. list_all (\<lambda>y. size_clients x \<le> size_clients y + 1) (subepolls w')) (subepolls w')"
  using accept_keeps_balance [OF demo_accept_two] demo_accept_two by simp

lemma accept_counts_each_witness:
  "sum_list (map size_clients [push_external_socket 10 ((new_stats 5)\<lparr>ip := ''a''\<rparr>) idle_worker,
     push_external_socket 11 ((new_stats 5)\<lparr>ip := ''b''\<rparr>) idle_worker]) =
   sum_list (map size_clients [idle_worker, idle_worker]) + 2"
  using accept_counts_each [OF demo_accept_two] by simp

end
