(* ===== verification/EpollBehaviour.thy ===== *)
theory EpollBehaviour
  imports EpollProperties
begin

text \<open>
  How a loop of \<open>mync\<close> ends, what it relays, and four behaviours that contradict what the
  code is for.
\<close>


section \<open>Ending\<close>

lemma exec_ends: "\<exists>t\<in>set ts. signalled t \<Longrightarrow> \<exists>r. exec c f ts e w = Some r"
proof (induction ts arbitrary: e w)
  case Nil
  then show ?case by simp
next
  case (Cons t ts)
  show ?case
  proof (cases "signalled t")
    case True
    then show ?thesis by (simp add: stop_signal_handler_def)
  next
    case False
    with Cons have "\<exists>r. exec c f ts e' w' = Some r" for e' w' by auto
    with False show ?thesis
      by (auto simp: Let_def split: wait_result.splits sum.splits)
  qed
qed

text \<open>A loop returns once the stop signal has come: by the next test of the flag, whatever
  events and errors \<open>epoll_wait\<close> reports before and after.\<close>

theorem exec_stops_on_signal:
  assumes "signalled t"
  shows "\<exists>r. exec c f (ts @ t # us) e w = Some r"
  using assms by (intro exec_ends) auto

lemma exec_stops_on_signal_witness:
  "\<exists>r. exec Epoll_base demo_fp ([\<lparr>signalled = False, waited = Wait_failed EINTR\<rparr>] @
     \<lparr>signalled = True, waited = Ready []\<rparr> # []) idle_worker
     \<lparr>g_should_stop = False, calls = [], subepolls = []\<rparr> = Some r"
  by (rule exec_stops_on_signal) simp

lemma new_epoll_flag:
  "new_epoll sock listen show s w = Inr (e, w') \<Longrightarrow> g_should_stop w' = g_should_stop w"
  by (auto simp: new_epoll_def setup_epoll_def Let_def create_timer_def setup_add_def split: if_splits)

lemma start_workers_flag:
  assumes "start_workers ws m w = Inr (m', w')"
  shows "g_should_stop w' \<longleftrightarrow> g_should_stop w \<or> (\<exists>s. (s, False) \<in> set ws)"
  using assms
proof (induction ws arbitrary: w)
  case Nil
  then show ?case by simp
next
  case (Cons wk ws)
  obtain s created where wk: "wk = (s, created)" by (cases wk)
  obtain sub w1 where n: "new_epoll (-1) False False s w = Inr (sub, w1)"
    using Cons.prems by (auto simp: wk split: sum.splits)
  let ?w = "if created then w1\<lparr>subepolls := subepolls w1 @ [sub]\<rparr> else snd (fullstop sub w1)"
  have "start_workers ws m ?w = Inr (m', w')"
    using Cons.prems n by (simp add: wk split: if_splits)
  from Cons.IH [OF this] new_epoll_flag [OF n] show ?case
    by (auto simp: wk fullstop_eq)
qed

text \<open>If one worker thread cannot be created, destroying its loop raises the stop flag of the
  whole process: the server that was constructed leaves its loop at once without serving.\<close>

theorem failed_worker_stops_server:
  assumes "new_main_epoll sock True s ws w = Inr (m, w')" "(s1, False) \<in> set ws"
  shows "exec Main_epoll f (t # ts) m w' = Some (Inr (m, w'))"
proof -
  obtain m1 w1 where "start_workers ws m1 w1 = Inr (m, w')"
    using assms(1) by (auto simp: new_main_epoll_def then_do_def split: sum.splits)
  from start_workers_flag [OF this] assms(2) have flag: "g_should_stop w'" by auto
  then have "w'\<lparr>g_should_stop := True\<rparr> = w'" by (cases w') simp
  with flag show ?thesis by (simp add: stop_signal_handler_def Let_def)
qed

lemma failed_worker_stops_server_witness:
  "\<exists>m w'. new_main_epoll 3 True (demo_setup 4) [(demo_setup 7, True), (demo_setup 10, False)]
      \<lparr>g_should_stop = False, calls = [], subepolls = []\<rparr> = Inr (m, w') \<and>
    exec Main_epoll demo_fp [\<lparr>signalled = False, waited = Ready []\<rparr>] m w' = Some (Inr (m, w'))"
proof -
  have "\<exists>m w'. new_main_epoll 3 True (demo_setup 4) [(demo_setup 7, True), (demo_setup 10, False)]
      \<lparr>g_should_stop = False, calls = [], subepolls = []\<rparr> = Inr (m, w')"
    by (simp add: new_main_epoll_def new_epoll_def setup_epoll_def Let_def demo_setup_def opened_def
      emit_def setup_add_def create_timer_def then_do_def)
  then obtain m w' where mw: "new_main_epoll 3 True (demo_setup 4)
      [(demo_setup 7, True), (demo_setup 10, False)]
      \<lparr>g_should_stop = False, calls = [], subepolls = []\<rparr> = Inr (m, w')" by blast
  with failed_worker_stops_server [OF mw, of "demo_setup 10" demo_fp] show ?thesis by simp
qed


section \<open>Events\<close>

text \<open>When a loop is woken it takes over every connection waiting in its queue, in order and
  with its counters, empties the queue and keeps its load; it takes those in, too, that the
  kernel refused to watch.\<close>

theorem wakeup_takes_all_pending:
  assumes "readable ev" "ev_fd ev = wakeup_fd e" "0 < wakeup_fd e" "distinct (owned e)"
  shows "exec_event c f a ev e w =
    Inr (e\<lparr>clients := clients e @ pending_new_socks e, pending_new_socks := []\<rparr>,
         emit (map (\<lambda>p. Ctl_add (epfd e) (fst p) (a_ctl_ok a (fst p))) (pending_new_socks e)) w)"
  using assms drain_owned [OF assms(4), of a w]
  by (simp add: exec_event_def readable_def hangs_up_def Let_def registrations_def)

lemma wakeup_takes_all_pending_witness:
  "exec_event Epoll_base demo_fp (demo_answers\<lparr>a_ctl_ok := (\<lambda>fd. False)\<rparr>) \<lparr>ev_fd = 8, evs = 1\<rparr>
     demo_worker \<lparr>g_should_stop = False, calls = [], subepolls = []\<rparr> =
   Inr (demo_worker\<lparr>clients := clients demo_worker @ pending_new_socks demo_worker,
       pending_new_socks := []\<rparr>,
     emit (map (\<lambda>p. Ctl_add (epfd demo_worker) (fst p)
       (a_ctl_ok (demo_answers\<lparr>a_ctl_ok := (\<lambda>fd. False)\<rparr>) (fst p))) (pending_new_socks demo_worker))
       \<lparr>g_should_stop = False, calls = [], subepolls = []\<rparr>)"
  by (rule wakeup_takes_all_pending)
    (simp_all add: readable_def hangs_up_def epoll_flags demo_worker_def owned_def open_fd_def)

text \<open>A worker watches standard input as well, without a socket to send to: the line typed
  that wakes it ends the process by an exception, since \<open>send\<close> on descriptor -1 fails.\<close>

theorem worker_dies_of_stdin:
  assumes "readable ev" "ev_fd ev = STDIN_FILENO" "wakeup_fd e \<noteq> STDIN_FILENO"
    and "\<not> is_listen e" "a_stdin a = Received bs" "bs \<noteq> []" "a_sent a (sockfd e) = -1"
  shows "\<exists>w'. exec_event c f a ev e w = Inl (Thrown (Runtime_error ''send to socket''), e, w')"
proof -
  obtain b bs' where "bs = b # bs'" using assms(6) by (cases bs) auto
  with assms show ?thesis
    by (simp add: exec_event_def readable_def hangs_up_def Let_def handle_stdin_def)
qed

lemma worker_dies_of_stdin_witness:
  "\<exists>w'. exec_event Epoll_base demo_fp (demo_answers\<lparr>a_stdin := Received [104, 105],
       a_sent := (\<lambda>fd. if fd = -1 then -1 else 2)\<rparr>)
     \<lparr>ev_fd = 0, evs = 1\<rparr> idle_worker \<lparr>g_should_stop = False, calls = [], subepolls = []\<rparr> =
   Inl (Thrown (Runtime_error ''send to socket''), idle_worker, w')"
  by (rule worker_dies_of_stdin [where bs = "[104, 105]"])
    (simp_all add: readable_def hangs_up_def epoll_flags idle_worker_def demo_worker_def STDIN_FILENO_def)

text \<open>A hang-up on standard input (the end of a pipe) is taken for a client's: the loop loses
  one from the counter it is balanced by, closes descriptor 0 without reading what is left in it,
  and goes on without noticing that its input has ended.\<close>

theorem stdin_hangup_mistaken_for_client:
  assumes "hangs_up ev" "ev_fd ev = STDIN_FILENO" "sockfd e \<noteq> STDIN_FILENO"
    and "\<not> umap_count STDIN_FILENO (clients e)"
  shows "exec_event c f a ev e w =
    Inr (e\<lparr>size_clients := size_clients e - 1\<rparr>,
         emit [Ctl_del (epfd e) STDIN_FILENO, Closed STDIN_FILENO] w)"
proof -
  have "umap_erase STDIN_FILENO (clients e) = clients e"
    unfolding umap_erase_def using assms(4)
    by (intro filter_True) (auto simp: umap_count_def image_iff)
  with assms show ?thesis
    by (simp add: exec_event_def hangs_up_def Let_def remove_client_def)
qed

lemma stdin_hangup_mistaken_for_client_witness:
  "exec_event Epoll_base demo_fp demo_answers \<lparr>ev_fd = 0, evs = 17\<rparr> idle_worker
     \<lparr>g_should_stop = False, calls = [], subepolls = []\<rparr> =
   Inr (idle_worker\<lparr>size_clients := size_clients idle_worker - 1\<rparr>,
     emit [Ctl_del (epfd idle_worker) STDIN_FILENO, Closed STDIN_FILENO]
       \<lparr>g_should_stop = False, calls = [], subepolls = []\<rparr>)"
  by (rule stdin_hangup_mistaken_for_client)
    (simp_all add: hangs_up_def epoll_flags idle_worker_def demo_worker_def STDIN_FILENO_def
      umap_count_def)


section \<open>The accepting loop has no clients of its own\<close>

definition main_idle :: "epoll \<Rightarrow> bool" where
  "main_idle m \<longleftrightarrow> clients m = [] \<and> pending_new_socks m = [] \<and> is_listen m"

lemma main_idle_step:
  assumes "server_step f B (m, w) s'" "main_idle m"
  shows "main_idle (fst s')"
  using assms(1)
proof cases
  case (main_event ev a m' w')
  have "main_idle m'"
  proof (cases "hangs_up ev")
    case True
    with main_event(2,4) assms(2) show ?thesis
      by (auto simp: exec_event_def hangs_up_def event_ok_def umap_count_def main_idle_def)
  next
    case False
    then have ev: "evs ev AND (EPOLLHUP OR EPOLLRDHUP OR EPOLLERR) = 0" by (simp add: hangs_up_def)
    show ?thesis
      using main_event(4) ev assms(2)
        accept_connections_main(1) [of a "a_accepts a" m w m' w']
      by (auto simp: exec_event_def Let_def main_idle_def handle_stdin_def handle_timer_def
          handle_socket_data_def umap_count_def split: if_splits recv_result.splits list.splits)
  qed
  with main_event(1) show ?thesis by simp
next
  case (main_stop m' w')
  with assms(2) show ?thesis by (auto simp: fullstop_eq main_idle_def)
qed (use assms(2) in simp_all)

lemma start_workers_main: "start_workers ws m w = Inr (m', w') \<Longrightarrow> m' = m"
  by (induction ws m w rule: start_workers.induct) (auto split: sum.splits if_splits)

lemma main_idle_reachable:
  assumes "server_reaches f B sock s ws m w"
  shows "main_idle m"
proof -
  obtain m0 w0 where st: "new_main_epoll sock True s ws
      \<lparr>g_should_stop = False, calls = [], subepolls = []\<rparr> = Inr (m0, w0)"
    and steps: "(server_step f B)\<^sup>*\<^sup>* (m0, w0) (m, w)"
    using assms by (auto simp: server_reaches_def)
  obtain m1 w1 where n: "new_epoll sock True True s \<lparr>g_should_stop = False, calls = [], subepolls = []\<rparr> =
      Inr (m1, w1)" "start_workers ws m1 w1 = Inr (m0, w0)"
    using st by (auto simp: new_main_epoll_def then_do_def split: sum.splits)
  have "main_idle m0"
    using new_epoll_state(1) [OF n(1)] start_workers_main [OF n(2)] by (simp add: main_idle_def)
  with steps show ?thesis
  proof (induction rule: rtranclp_induct2)
    case refl
    then show ?case .
  next
    case (step a b c d)
    with main_idle_step [of f B a b "(c, d)"] show ?case by simp
  qed
qed

text \<open>In the multi-threaded server what is typed on standard input reaches no client: the
  accepting loop sends it to its own clients, of which it never has any.\<close>

theorem server_stdin_reaches_nobody:
  assumes "server_reaches f B sock s ws m w" "a_stdin a = Received (b # bs)"
  shows "handle_stdin a m w = Inr (m, w)"
  using main_idle_reachable [OF assms(1)] assms(2)
  by (simp add: handle_stdin_def Let_def main_idle_def emit_def)

lemma server_stdin_reaches_nobody_witness:
  "\<exists>m w. handle_stdin (demo_answers\<lparr>a_stdin := Received [104]\<rparr>) m w = Inr (m, w) \<and>
    subepolls w = [demo_worker]"
proof -
  obtain m w where "server_reaches demo_fp {0, 1, 2} 3 (demo_setup 4) [(demo_setup 7, True)] m w"
    "subepolls w = [demo_worker]"
    using demo_accepted by blast
  with server_stdin_reaches_nobody [OF this(1), of "demo_answers\<lparr>a_stdin := Received [104]\<rparr>"]
  show ?thesis by auto
qed


section \<open>The client relays\<close>

text \<open>What went to the socket and to standard output, and what came in.\<close>

fun sent_bytes :: "fd \<Rightarrow> sys list \<Rightarrow> u8 list" where
  "sent_bytes s [] = []"
| "sent_bytes s (Sent fd bs # ss) = (if fd = s then bs else []) @ sent_bytes s ss"
| "sent_bytes s (x # ss) = sent_bytes s ss"

fun written_bytes :: "sys list \<Rightarrow> u8 list" where
  "written_bytes [] = []"
| "written_bytes (Written bs # ss) = bs @ written_bytes ss"
| "written_bytes (x # ss) = written_bytes ss"

lemma sent_bytes_append [simp]: "sent_bytes s (xs @ ys) = sent_bytes s xs @ sent_bytes s ys"
  by (induction xs rule: sent_bytes.induct) simp_all

lemma written_bytes_append [simp]: "written_bytes (xs @ ys) = written_bytes xs @ written_bytes ys"
  by (induction xs rule: written_bytes.induct) simp_all

fun delivered :: "recv_result \<Rightarrow> u8 list" where
  "delivered (Received bs) = bs"
| "delivered (Recv_failed errn) = []"

fun input_of :: "fd \<Rightarrow> (answers \<Rightarrow> recv_result) \<Rightarrow> (epoll_event \<times> answers) list \<Rightarrow> u8 list" where
  "input_of fd get [] = []"
| "input_of fd get ((ev, a) # rest) =
     (if readable ev \<and> ev_fd ev = fd then delivered (get a) else []) @ input_of fd get rest"

definition client_ok :: "epoll \<Rightarrow> bool" where
  "client_ok e \<longleftrightarrow> 0 < sockfd e \<and> \<not> is_listen e \<and> clients e = [] \<and> pending_new_socks e = [] \<and>
     timerfd e = -1 \<and> 0 < wakeup_fd e \<and> wakeup_fd e \<noteq> sockfd e"

lemma client_relays_event:
  assumes "client_ok e" "\<not> hangs_up ev" "exec_event Epoll_base f a ev e w = Inr (e', w')" "0 \<le> ev_fd ev"
  shows "client_ok e' \<and> sockfd e' = sockfd e \<and>
    sent_bytes (sockfd e) (calls w') =
      sent_bytes (sockfd e) (calls w) @ input_of STDIN_FILENO a_stdin [(ev, a)] \<and>
    written_bytes (calls w') = written_bytes (calls w) @ input_of (sockfd e) a_recv [(ev, a)]"
proof -
  have hu: "evs ev AND (EPOLLHUP OR EPOLLRDHUP OR EPOLLERR) = 0"
    using assms(2) by (simp add: hangs_up_def)
  consider (none) "evs ev AND EPOLLIN = 0" | (wake) "readable ev" "ev_fd ev = wakeup_fd e"
    | (stdin) "readable ev" "ev_fd ev = STDIN_FILENO" | (sock) "readable ev" "ev_fd ev = sockfd e"
    | (other) "readable ev" "ev_fd ev \<noteq> wakeup_fd e" "ev_fd ev \<noteq> STDIN_FILENO" "ev_fd ev \<noteq> sockfd e"
    using assms(2) by (auto simp: readable_def)
  then show ?thesis
  proof cases
    case none
    with assms hu show ?thesis by (simp add: exec_event_def Let_def readable_def)
  next
    case wake
    with assms(1,3) hu show ?thesis
      by (auto simp: exec_event_def Let_def readable_def client_ok_def STDIN_FILENO_def)
  next
    case stdin
    with assms(1,3) hu show ?thesis
      by (auto simp: exec_event_def Let_def readable_def client_ok_def STDIN_FILENO_def
          handle_stdin_def split: recv_result.splits list.splits if_splits)
  next
    case sock
    with assms(1,3) hu show ?thesis
      by (auto simp: exec_event_def Let_def readable_def client_ok_def STDIN_FILENO_def
          handle_socket_data_def write_to_stdout_def split: recv_result.splits list.splits if_splits)
  next
    case other
    with assms(1,3,4) hu show ?thesis
      by (auto simp: exec_event_def Let_def readable_def client_ok_def umap_count_def)
  qed
qed

text \<open>In client mode, as long as no call fails and no hang-up is reported, the bytes sent to
  the socket are those read from standard input and the bytes written to standard output those
  received from the socket: all of them, once, in order.\<close>

theorem client_relays:
  assumes "client_ok e" "list_all (\<lambda>(ev, a). \<not> hangs_up ev \<and> 0 \<le> ev_fd ev) batch"
    and "exec_events Epoll_base f batch e w = Inr (e', w')"
  shows "sent_bytes (sockfd e) (calls w') =
      sent_bytes (sockfd e) (calls w) @ input_of STDIN_FILENO a_stdin batch \<and>
    written_bytes (calls w') = written_bytes (calls w) @ input_of (sockfd e) a_recv batch"
  using assms
proof (induction batch arbitrary: e w)
  case Nil
  then show ?case by simp
next
  case (Cons x batch)
  obtain ev a where x: "x = (ev, a)" by (cases x)
  obtain e1 w1 where s: "exec_event Epoll_base f a ev e w = Inr (e1, w1)"
    and r: "exec_events Epoll_base f batch e1 w1 = Inr (e', w')"
    using Cons.prems(3) by (auto simp: x then_do_def split: sum.splits)
  have ev: "\<not> hangs_up ev" "0 \<le> ev_fd ev" using Cons.prems(2) by (simp_all add: x)
  note step = client_relays_event [OF Cons.prems(1) ev(1) s ev(2)]
  from step have "client_ok e1" by simp
  from Cons.IH [OF this _ r] Cons.prems(2) step show ?case by (simp add: x)
qed

definition demo_client :: epoll where
  "demo_client = \<lparr>epfd = 4, sockfd = 3, is_listen = False, show_timer_stats = False, timerfd = -1,
     clients = [], stdin_closed = False, socket_closed = False, size_clients = 0, wakeup_fd = 5,
     pending_new_socks = []\<rparr>"

lemma client_relays_witness:
  "\<exists>e' w'. exec_events Epoll_base demo_fp
      [(\<lparr>ev_fd = 0, evs = 1\<rparr>, demo_answers\<lparr>a_stdin := Received [104, 105], a_sent := (\<lambda>fd. 2)\<rparr>),
       (\<lparr>ev_fd = 3, evs = 1\<rparr>, demo_answers\<lparr>a_recv := Received [111, 107], a_stdout := 2\<rparr>)]
      demo_client \<lparr>g_should_stop = False, calls = [], subepolls = []\<rparr> = Inr (e', w') \<and>
    sent_bytes 3 (calls w') = [104, 105] \<and> written_bytes (calls w') = [111, 107]"
proof -
  let ?batch = "[(\<lparr>ev_fd = 0, evs = 1\<rparr>, demo_answers\<lparr>a_stdin := Received [104, 105], a_sent := (\<lambda>fd. 2)\<rparr>),
       (\<lparr>ev_fd = 3, evs = 1\<rparr>, demo_answers\<lparr>a_recv := Received [111, 107], a_stdout := 2\<rparr>)]"
  have c: "client_ok demo_client" by (simp add: client_ok_def demo_client_def)
  have b: "list_all (\<lambda>(ev, a). \<not> hangs_up ev \<and> 0 \<le> ev_fd ev) ?batch"
    by (simp add: hangs_up_def epoll_flags)
  obtain e' w' where r: "exec_events Epoll_base demo_fp ?batch demo_client
      \<lparr>g_should_stop = False, calls = [], subepolls = []\<rparr> = Inr (e', w')"
    by (simp add: then_do_def exec_event_def epoll_flags Let_def demo_client_def STDIN_FILENO_def
        handle_stdin_def handle_socket_data_def write_to_stdout_def)
  from client_relays [OF c b r]
  have "sent_bytes 3 (calls w') = [104, 105] \<and> written_bytes (calls w') = [111, 107]"
    by (simp add: demo_client_def STDIN_FILENO_def readable_def hangs_up_def epoll_flags)
  with r show ?thesis by blast
qed

end
