(* ===== verification/SocketSetup.thy ===== *)
theory SocketSetup
  imports Kernel
begin

text \<open>
  The three functions that make a socket: \<open>create_socket\<close> of \<open>mync/utils.cpp\<close>,
  \<open>IServer::create_listen_socket\<close> of \<open>netlib/server.cpp\<close> and
  \<open>IClient::create_socket_connect\<close> of \<open>netlib/client.cpp\<close>. Each is a function of the
  kernel's answers that returns its result, the error text it stores, and the calls that open
  and close descriptors.
\<close>

record so_answers =
  so_socket :: int      \<comment> \<open>\<open>socket\<close>\<close>
  so_rcvbuf :: int      \<comment> \<open>\<open>setsockopt\<close> of the receive buffer\<close>
  so_sndbuf :: int
  so_rcvtimeo :: int
  so_reuse :: int
  so_own_addr :: int    \<comment> \<open>\<open>inet_pton\<close> of the local address\<close>
  so_peer_addr :: int   \<comment> \<open>\<open>inet_pton\<close> of the server's address\<close>
  so_addrinfo :: int    \<comment> \<open>\<open>getaddrinfo\<close>\<close>
  so_bind :: int
  so_listen :: int
  so_connect :: int

type_synonym setup_result = "int \<times> string \<times> sys list"

definition setup_fail :: "so_answers \<Rightarrow> int \<Rightarrow> string \<Rightarrow> setup_result" where
  "setup_fail k r msg = (r, msg, opened (so_socket k) @ [Closed (so_socket k)])"

definition create_socket :: "so_answers \<Rightarrow> bool \<Rightarrow> setup_result" where
  "create_socket k islisten =
     (if so_socket k = 0 then (-1, ''fail create socket'', opened (so_socket k))
      else if so_reuse k \<noteq> 0 then setup_fail k (-1) ''setsockopt reuseaddr failed''
      else if so_addrinfo k \<noteq> 0 then setup_fail k (-1) ''getaddrinfo failed for host: ''
      else if islisten then
        (if so_bind k < 0 then setup_fail k (-1) ''listen bind failed''
         else if so_listen k < 0 then setup_fail k (-1) ''listen failed''
         else (so_socket k, '''', opened (so_socket k)))
      else
        (if so_connect k < 0 then setup_fail k (-1) ''connect failed''
         else (so_socket k, '''', opened (so_socket k))))"

definition create_listen_socket :: "so_answers \<Rightarrow> string \<Rightarrow> setup_result" where
  "create_listen_socket k host =
     (if so_socket k = 0 then (-1, ''socket failed'', opened (so_socket k))
      else if so_reuse k \<noteq> 0 then setup_fail k (-1) ''setsockopt reuseaddr failed''
      else if so_own_addr k \<le> 0 then setup_fail k (-1) (''inet_pton failed '' @ host)
      else if so_bind k < 0 then setup_fail k (-1) ''bind failed''
      else if so_listen k < 0 then setup_fail k 0 ''listen failed''
      else (so_socket k, '''', opened (so_socket k)))"

definition create_socket_connect :: "so_answers \<Rightarrow> string \<Rightarrow> string \<Rightarrow> setup_result" where
  "create_socket_connect k host server_ip =
     (if so_socket k = 0 then (-1, ''socket failed'', opened (so_socket k))
      else if host \<noteq> '''' \<and> so_own_addr k \<le> 0
        then setup_fail k (-1) (''inet_pton bind failed '' @ host)
      else if host \<noteq> '''' \<and> so_bind k < 0 then setup_fail k (-1) ''bind failed''
      else if so_peer_addr k \<le> 0 then setup_fail k (-1) (''inet_pton failed '' @ host)
      else if so_connect k < 0 then setup_fail k (-1) ''connection failed''
      else (so_socket k, '''', opened (so_socket k)))"

text \<open>
  What the kernel guarantees: a descriptor it returns is new and positive (descriptor 0 is in
  use), and a call on descriptor -1 fails.
\<close>

definition so_contract :: "fd set \<Rightarrow> so_answers \<Rightarrow> bool" where
  "so_contract S k \<longleftrightarrow>
     (if so_socket k = -1
      then so_reuse k = -1 \<and> so_bind k = -1 \<and> so_listen k = -1 \<and> so_connect k = -1 \<and> -1 \<notin> S
      else 0 < so_socket k \<and> so_socket k \<notin> S)"

definition sound_setup :: "fd set \<Rightarrow> so_answers \<Rightarrow> setup_result \<Rightarrow> bool" where
  "sound_setup S k res \<longleftrightarrow> (case res of (r, _, ss) \<Rightarrow>
     if r = -1 then replay ss S = Some S
     else r = so_socket k \<and> r \<notin> S \<and> replay ss S = Some (insert r S))"

named_theorems setup_defs \<open>the definitions of the socket setup\<close>

lemmas [setup_defs] = setup_fail_def so_contract_def sound_setup_def opened_def Let_def

text \<open>\<open>create_socket\<close> of \<open>mync\<close> either returns the new socket, the only descriptor it leaves
  open, or returns -1 and leaves none open, on every error path.\<close>

theorem create_socket_sound:
  assumes "so_contract S k"
  shows "sound_setup S k (create_socket k islisten)"
  using assms by (simp add: create_socket_def setup_defs split: if_splits)

lemma create_socket_sound_witness:
  "sound_setup {0, 1, 2} \<lparr>so_socket = 3, so_rcvbuf = 0, so_sndbuf = 0, so_rcvtimeo = 0, so_reuse = 0,
      so_own_addr = 1, so_peer_addr = 1, so_addrinfo = 0, so_bind = -1, so_listen = 0, so_connect = 0\<rparr>
     (create_socket \<lparr>so_socket = 3, so_rcvbuf = 0, so_sndbuf = 0, so_rcvtimeo = 0, so_reuse = 0,
      so_own_addr = 1, so_peer_addr = 1, so_addrinfo = 0, so_bind = -1, so_listen = 0, so_connect = 0\<rparr> True)"
  by (rule create_socket_sound) (simp add: so_contract_def)

lemma create_socket_connect_ok:
  "so_contract S k \<Longrightarrow> sound_setup S k (create_socket_connect k host server_ip)"
  by (simp add: create_socket_connect_def setup_defs split: if_splits)

text \<open>\<open>create_socket_connect\<close> of \<open>netlib\<close> either returns the connected socket, the only
  descriptor it leaves open, or returns -1 and leaves none open, on every error path.\<close>

theorem create_socket_connect_sound:
  assumes "so_contract S k"
  shows "sound_setup S k (create_socket_connect k host server_ip)"
  using assms by (rule create_socket_connect_ok)

lemma create_socket_connect_sound_witness:
  "sound_setup {0, 1, 2} \<lparr>so_socket = -1, so_rcvbuf = -1, so_sndbuf = -1, so_rcvtimeo = -1, so_reuse = -1,
      so_own_addr = 1, so_peer_addr = 1, so_addrinfo = 0, so_bind = -1, so_listen = -1, so_connect = -1\<rparr>
     (create_socket_connect \<lparr>so_socket = -1, so_rcvbuf = -1, so_sndbuf = -1, so_rcvtimeo = -1,
      so_reuse = -1, so_own_addr = 1, so_peer_addr = 1, so_addrinfo = 0, so_bind = -1, so_listen = -1,
      so_connect = -1\<rparr> '''' ''127.0.0.1'')"
  by (rule create_socket_connect_sound) (simp add: so_contract_def)

lemma create_listen_socket_other_errors:
  "so_contract S k \<Longrightarrow> 0 \<le> so_listen k \<Longrightarrow> sound_setup S k (create_listen_socket k host)"
  by (simp add: create_listen_socket_def setup_defs split: if_splits)

text \<open>A socket on which every call succeeds, for the witnesses.\<close>

definition demo_socket :: so_answers where
  "demo_socket = \<lparr>so_socket = 3, so_rcvbuf = 0, so_sndbuf = 0, so_rcvtimeo = 0, so_reuse = 0,
     so_own_addr = 1, so_peer_addr = 1, so_addrinfo = 0, so_bind = 0, so_listen = 0, so_connect = 0\<rparr>"

end
