(* ===== verification/UringRelay.thy ===== *)
theory UringRelay
  imports Stats Kernel "HOL-Library.Multiset"
begin

text \<open>
  \<open>class UringBidirectionalRelay\<close> of \<open>mync/io_uring.h\<close>. \<open>liburing\<close> is not part of the
  repository: whether \<open>io_uring_get_sqe\<close> finds an entry is an answer, and a completion is a
  request that was handed over. Preparing a request and \<open>io_uring_submit\<close> are one step: a handler
  that prepares one submits it before it returns, or the next handler does. A \<open>Request\<close> and its buffers are a heap object with an address;
  the log records allocations and releases, so that leaks and double frees show.
\<close>


section \<open>State\<close>

datatype op_type = STDIN_READ | SOCKET_READ | ACCEPT | TIMER_READ | CLIENT_READ

record request =
  r_type :: op_type
  r_fd :: fd
  r_addr :: nat       \<comment> \<open>the address of the object\<close>

datatype heap_op = Alloc nat | Free nat

record relay =
  rsock :: fd
  rlisten :: bool
  rclients :: "(fd, stats) umap"
  rstdin_closed :: bool
  rsocket_closed :: bool
  rtimerfd :: fd
  inflight :: "request list"
  next_addr :: nat
  heap_ops :: "heap_op list"
  rcalls :: "sys list"

text \<open>
  The answers to one handler: whether the ring has an entry for a request of a kind, at the
  first attempt and after a submission, the result of \<open>send\<close>, the address of the peer and the
  clock. A handler submits at most one request of a kind.
\<close>

record relay_answers =
  u_sqe :: "op_type \<Rightarrow> bool"
  u_sqe_again :: "op_type \<Rightarrow> bool"
  u_sent :: "fd \<Rightarrow> int"
  u_peer :: string
  u_now :: time

definition rcall :: "sys list \<Rightarrow> relay \<Rightarrow> relay" where
  "rcall ss r = r\<lparr>rcalls := rcalls r @ ss\<rparr>"


section \<open>Submitting\<close>

text \<open>\<open>new Request\<close> with its buffers, prepared and handed to the ring.\<close>

definition enqueue_request :: "op_type \<Rightarrow> fd \<Rightarrow> relay \<Rightarrow> relay" where
  "enqueue_request t fd r =
     r\<lparr>inflight := inflight r @ [\<lparr>r_type = t, r_fd = fd, r_addr = next_addr r\<rparr>],
       heap_ops := heap_ops r @ [Alloc (next_addr r)], next_addr := next_addr r + 1\<rparr>"

definition got_sqe :: "relay_answers \<Rightarrow> op_type \<Rightarrow> bool" where
  "got_sqe a t \<longleftrightarrow> (if \<not> u_sqe a t then u_sqe_again a t else True)"

definition submit_stdin_read :: "relay_answers \<Rightarrow> relay \<Rightarrow> relay" where
  "submit_stdin_read a r =
     (if rstdin_closed r then r else if \<not> got_sqe a STDIN_READ then r else enqueue_request STDIN_READ 0 r)"

definition submit_socket_read :: "relay_answers \<Rightarrow> relay \<Rightarrow> relay" where
  "submit_socket_read a r =
     (if rsocket_closed r then r else if \<not> got_sqe a SOCKET_READ then r
      else enqueue_request SOCKET_READ (rsock r) r)"

definition submit_accept :: "relay_answers \<Rightarrow> relay \<Rightarrow> relay" where
  "submit_accept a r =
     (if rsocket_closed r then r else if \<not> got_sqe a ACCEPT then r
      else enqueue_request ACCEPT (rsock r) r)"

definition submit_client_read :: "relay_answers \<Rightarrow> fd \<Rightarrow> relay \<Rightarrow> relay" where
  "submit_client_read a client_fd r =
     (if \<not> umap_count client_fd (rclients r) then r else if \<not> got_sqe a CLIENT_READ then r
      else enqueue_request CLIENT_READ client_fd r)"

text \<open>The timer: \<open>created\<close> is the result of \<open>timerfd_create\<close>, \<open>armed\<close> of \<open>timerfd_settime\<close>.\<close>

definition relay_create_timer :: "fd \<Rightarrow> int \<Rightarrow> relay \<Rightarrow> fd \<times> relay" where
  "relay_create_timer created armed r =
     (if created = -1 then (-1, r)
      else if armed = -1 then (-1, rcall [Opened created, Closed created] r)
      else (created, rcall [Opened created] r))"

definition setup_timer :: "relay_answers \<Rightarrow> fd \<Rightarrow> int \<Rightarrow> relay \<Rightarrow> relay" where
  "setup_timer a created armed r =
     (case relay_create_timer created armed r of (t, r) \<Rightarrow>
        let r = r\<lparr>rtimerfd := t\<rparr>
        in if t < 0 then r else if \<not> got_sqe a TIMER_READ then r else enqueue_request TIMER_READ t r)"

text \<open>The constructor; \<open>ring\<close> is the result of \<open>io_uring_queue_init\<close>.\<close>

definition new_relay ::
  "relay_answers \<Rightarrow> int \<Rightarrow> fd \<Rightarrow> int \<Rightarrow> fd \<Rightarrow> bool \<Rightarrow> failure + relay" where
  "new_relay a ring created armed sock listen =
     (if ring < 0 then Inl (Thrown (Runtime_error ''io_uring_queue_init failed''))
      else let r = \<lparr>rsock = sock, rlisten = listen, rclients = [], rstdin_closed = False,
            rsocket_closed = False, rtimerfd = -1, inflight = [], next_addr = 0, heap_ops = [],
            rcalls = []\<rparr>;
          r = submit_stdin_read a r
      in Inr (if listen then setup_timer a created armed (submit_accept a r)
              else submit_socket_read a r))"


section \<open>Completions\<close>

definition free_request :: "request \<Rightarrow> relay \<Rightarrow> relay" where
  "free_request req r = r\<lparr>heap_ops := heap_ops r @ [Free (r_addr req)]\<rparr>"

definition relay_remove_client :: "fd \<Rightarrow> relay \<Rightarrow> relay" where
  "relay_remove_client fd r =
     (if umap_count fd (rclients r)
      then (rcall [Closed fd] r)\<lparr>rclients := umap_erase fd (rclients r)\<rparr> else r)"

text \<open>\<open>buf\<close> are the bytes the read delivered, \<open>res\<close> its result.\<close>

definition handle_stdin_read :: "relay_answers \<Rightarrow> request \<Rightarrow> int \<Rightarrow> u8 list \<Rightarrow> relay \<Rightarrow> relay" where
  "handle_stdin_read a req res buf r =
     (let r = (if res > 0 then
                 (if rlisten r then rcall (map (\<lambda>c. Sent (fst c) buf) (rclients r)) r
                  else let r = rcall [Sent (rsock r) buf] r
                    in if u_sent a (rsock r) \<noteq> res then r\<lparr>rsocket_closed := True\<rparr> else r)
               else if res = 0 then
                 (let r = (if rlisten r then rcall (map (\<lambda>c. Shut_write (fst c)) (rclients r)) r
                           else rcall [Shut_write (rsock r)] r)
                  in r\<lparr>rstdin_closed := True\<rparr>)
               else r\<lparr>rstdin_closed := True\<rparr>);
          r = free_request req r
      in if \<not> rstdin_closed r then submit_stdin_read a r else r)"

definition handle_socket_read :: "relay_answers \<Rightarrow> request \<Rightarrow> int \<Rightarrow> u8 list \<Rightarrow> relay \<Rightarrow> relay" where
  "handle_socket_read a req res buf r =
     (let r = (if res > 0 then rcall [Written buf] r else r\<lparr>rsocket_closed := True\<rparr>);
          r = free_request req r
      in if \<not> rsocket_closed r then submit_socket_read a r else r)"

definition relay_handle_accept :: "relay_answers \<Rightarrow> request \<Rightarrow> int \<Rightarrow> relay \<Rightarrow> relay" where
  "relay_handle_accept a req res r =
     (let r = (if res \<ge> 0 then
                 (let r = rcall [Opened res] r;
                      r = r\<lparr>rclients := umap_emplace res ((new_stats (u_now a))\<lparr>ip := u_peer a\<rparr>) (rclients r)\<rparr>
                  in submit_client_read a res r)
               else r);
          r = free_request req r
      in if \<not> rsocket_closed r then submit_accept a r else r)"

fun relay_update_stats :: "fp \<Rightarrow> time \<Rightarrow> (fd, stats) umap \<Rightarrow> (fd, stats) umap \<times> sys list" where
  "relay_update_stats f now [] = ([], [])"
| "relay_update_stats f now ((fd, st) # rest) =
     (case checkFourGigabytes f now (updateBps f now st) of
        (over, stats_msg, st1) \<Rightarrow>
          (case relay_update_stats f now rest of
             (rest1, out) \<Rightarrow>
               ((fd, st1) # rest1, (if over then [Sent_text fd stats_msg] else []) @ out)))"

definition handle_timer_read :: "fp \<Rightarrow> relay_answers \<Rightarrow> request \<Rightarrow> int \<Rightarrow> relay \<Rightarrow> relay" where
  "handle_timer_read f a req res r =
     (let r = (if res = 8 then
                 (case relay_update_stats f (u_now a) (rclients r) of
                    (m, out) \<Rightarrow> (rcall out r)\<lparr>rclients := m\<rparr>)
               else r);
          r = free_request req r
      in if 0 \<le> rtimerfd r then (if u_sqe a TIMER_READ then enqueue_request TIMER_READ (rtimerfd r) r else r)
         else r)"

definition handle_client_read :: "relay_answers \<Rightarrow> request \<Rightarrow> int \<Rightarrow> u8 list \<Rightarrow> relay \<Rightarrow> relay" where
  "handle_client_read a req res buf r =
     (let client_fd = r_fd req
      in case umap_find client_fd (rclients r) of
           None \<Rightarrow> free_request req r
         | Some st \<Rightarrow>
             if res > 0 then
               (let r = rcall [Written buf]
                      (r\<lparr>rclients := umap_set client_fd (addBytes (nat res) st) (rclients r)\<rparr>);
                    r = free_request req r
                in submit_client_read a client_fd r)
             else relay_remove_client client_fd (free_request req r))"

text \<open>One completion of \<open>exec\<close>: the ring gives back a request, which is no longer in flight.\<close>

definition complete :: "fp \<Rightarrow> relay_answers \<Rightarrow> request \<Rightarrow> int \<Rightarrow> u8 list \<Rightarrow> relay \<Rightarrow> relay" where
  "complete f a req res buf r =
     (let r = r\<lparr>inflight := remove1 req (inflight r)\<rparr>
      in case r_type req of
           STDIN_READ \<Rightarrow> handle_stdin_read a req res buf r
         | SOCKET_READ \<Rightarrow> handle_socket_read a req res buf r
         | ACCEPT \<Rightarrow> relay_handle_accept a req res r
         | TIMER_READ \<Rightarrow> handle_timer_read f a req res r
         | CLIENT_READ \<Rightarrow> handle_client_read a req res buf r)"

text \<open>
  What \<open>io_uring_wait_cqe\<close> returns in a turn: an error, with the value of \<open>errno\<close> the code
  looks at, or a completion. \<open>None\<close>: the loop is still running.
\<close>

datatype cqe = Cqe_failed errno | Cqe request int "u8 list" relay_answers

fun relay_exec :: "fp \<Rightarrow> cqe list \<Rightarrow> relay \<Rightarrow> (failure \<times> relay + relay) option" where
  "relay_exec f [] r = (if rstdin_closed r \<or> rsocket_closed r then Some (Inr r) else None)"
| "relay_exec f (x # xs) r =
     (if rstdin_closed r \<or> rsocket_closed r then Some (Inr r)
      else case x of
        Cqe_failed errn \<Rightarrow>
          if errn = EINTR then relay_exec f xs r
          else Some (Inl (Thrown (Runtime_error ''io_uring_wait_cqe failed''), r))
      | Cqe req res buf a \<Rightarrow> relay_exec f xs (complete f a req res buf r))"

definition destroy_relay :: "relay \<Rightarrow> relay" where
  "destroy_relay r =
     (let r = rcall (map (\<lambda>c. Closed (fst c)) (rclients r)) r
      in if 0 \<le> rtimerfd r then rcall [Closed (rtimerfd r)] r else r)"

end
