(* ===== verification/UringOwnership.thy ===== *)
theory UringOwnership
  imports UringRelay
begin

text \<open>
  What the relay of \<open>UringRelay\<close> owns: its request objects on the heap, the reads and accepts
  it has in flight, and the descriptors of its clients, in every state \<open>exec\<close> can reach.
\<close>


section \<open>Reachable states\<close>

text \<open>
  A completion the ring can deliver: of a request in flight, and an accepted descriptor is not
  one the process has open.
\<close>

definition offered :: "request \<Rightarrow> int \<Rightarrow> relay \<Rightarrow> bool" where
  "offered req res r \<longleftrightarrow>
     req \<in> set (inflight r) \<and>
     (r_type req = ACCEPT \<and> 0 \<le> res \<longrightarrow>
        \<not> umap_count res (rclients r) \<and> res \<noteq> rtimerfd r \<and> res \<noteq> rsock r)"

inductive relay_steps :: "fp \<Rightarrow> (relay_answers \<Rightarrow> bool) \<Rightarrow> relay \<Rightarrow> relay \<Rightarrow> bool" for f good r0 where
  start: "relay_steps f good r0 r0"
| turn: "\<lbrakk> relay_steps f good r0 r; \<not> rstdin_closed r; \<not> rsocket_closed r; offered req res r; good a \<rbrakk>
    \<Longrightarrow> relay_steps f good r0 (complete f a req res buf r)"

text \<open>What \<open>exec\<close> computes is reachable.\<close>

fun relay_offers :: "fp \<Rightarrow> (relay_answers \<Rightarrow> bool) \<Rightarrow> cqe list \<Rightarrow> relay \<Rightarrow> bool" where
  "relay_offers f good [] r = True"
| "relay_offers f good (Cqe_failed errn # xs) r = relay_offers f good xs r"
| "relay_offers f good (Cqe req res buf a # xs) r =
     (rstdin_closed r \<or> rsocket_closed r \<or>
      (offered req res r \<and> good a \<and> relay_offers f good xs (complete f a req res buf r)))"

lemma relay_exec_steps:
  assumes "relay_exec f xs r = Some (Inr r')" "relay_offers f good xs r" "relay_steps f good r0 r"
  shows "relay_steps f good r0 r' \<and> (rstdin_closed r' \<or> rsocket_closed r')"
  using assms
proof (induction f xs r rule: relay_exec.induct)
  case (2 f x xs r)
  then show ?case
    by (cases x) (auto split: if_splits intro: relay_steps.turn)
qed (auto split: if_splits)


section \<open>Request objects\<close>

fun heap_step :: "heap_op \<Rightarrow> nat set \<Rightarrow> nat set option" where
  "heap_step (Alloc p) S = (if p \<in> S then None else Some (insert p S))"
| "heap_step (Free p) S = (if p \<in> S then Some (S - {p}) else None)"

text \<open>The objects allocated after a run; a double free or a reused address is \<open>None\<close>.\<close>

fun heap_replay :: "heap_op list \<Rightarrow> nat set \<Rightarrow> nat set option" where
  "heap_replay [] S = Some S"
| "heap_replay (h # hs) S = Option.bind (heap_step h S) (heap_replay hs)"

lemma heap_replay_append [simp]:
  "heap_replay (xs @ ys) S = Option.bind (heap_replay xs S) (heap_replay ys)"
  by (induction xs arbitrary: S) (auto split: bind_split)

text \<open>\<open>held\<close>: objects taken out of the ring and not yet released.\<close>

definition heap_ok :: "nat list \<Rightarrow> relay \<Rightarrow> bool" where
  "heap_ok held r \<longleftrightarrow>
     (let live = held @ map r_addr (inflight r)
      in heap_replay (heap_ops r) {} = Some (set live) \<and> distinct live \<and>
         (\<forall>p \<in> set live. p < next_addr r))"

lemma heap_ok_irrelevant [simp]:
  "heap_ok held (rcall ss r) = heap_ok held r"
  "heap_ok held (r\<lparr>rclients := m\<rparr>) = heap_ok held r"
  "heap_ok held (r\<lparr>rsocket_closed := b\<rparr>) = heap_ok held r"
  "heap_ok held (r\<lparr>rstdin_closed := b\<rparr>) = heap_ok held r"
  "heap_ok held (r\<lparr>rtimerfd := t\<rparr>) = heap_ok held r"
  by (simp_all add: heap_ok_def rcall_def)

lemma heap_ok_enqueue [simp]: "heap_ok held r \<Longrightarrow> heap_ok held (enqueue_request t fd r)"
  by (auto simp: heap_ok_def enqueue_request_def Let_def less_Suc_eq)

lemma heap_ok_free [simp]: "heap_ok [r_addr req] r \<Longrightarrow> heap_ok [] (free_request req r)"
  by (auto simp: heap_ok_def free_request_def Let_def)

lemma mset_map_remove1:
  "x \<in> set xs \<Longrightarrow> mset (map g xs) = add_mset (g x) (mset (map g (remove1 x xs)))"
  by (induction xs) auto

lemma heap_ok_take:
  assumes "heap_ok [] r" "req \<in> set (inflight r)"
  shows "heap_ok [r_addr req] (r\<lparr>inflight := remove1 req (inflight r)\<rparr>)"
proof -
  let ?rest = "map r_addr (remove1 req (inflight r))"
  have "mset (r_addr req # ?rest) = mset (map r_addr (inflight r))"
    using mset_map_remove1 [OF assms(2), of r_addr] by simp
  then have "set (r_addr req # ?rest) = set (map r_addr (inflight r))"
    and "distinct (r_addr req # ?rest) = distinct (map r_addr (inflight r))"
    by (rule mset_eq_setD, rule mset_eq_imp_distinct_iff)
  with assms(1) show ?thesis unfolding heap_ok_def Let_def by simp
qed

lemmas submit_defs =
  submit_stdin_read_def submit_socket_read_def submit_accept_def submit_client_read_def

lemmas completion_defs =
  handle_stdin_read_def handle_socket_read_def relay_handle_accept_def handle_timer_read_def
  handle_client_read_def relay_remove_client_def

lemma heap_ok_submit [simp]:
  assumes "heap_ok held r"
  shows "heap_ok held (submit_stdin_read a r)" "heap_ok held (submit_socket_read a r)"
    "heap_ok held (submit_accept a r)" "heap_ok held (submit_client_read a fd r)"
  using assms by (simp_all add: submit_defs)

lemma heap_ok_complete:
  assumes "heap_ok [] r" "offered req res r"
  shows "heap_ok [] (complete f a req res buf r)"
proof -
  have "heap_ok [r_addr req] (r\<lparr>inflight := remove1 req (inflight r)\<rparr>)"
    using assms by (auto simp: offered_def intro: heap_ok_take)
  then show ?thesis
    by (simp add: complete_def completion_defs Let_def split: op_type.split option.split prod.split)
qed

lemma heap_ok_new:
  assumes "new_relay a ring created armed sock listen = Inr r"
  shows "heap_ok [] r"
proof -
  have "heap_ok [] \<lparr>rsock = sock, rlisten = listen, rclients = [], rstdin_closed = False,
    rsocket_closed = False, rtimerfd = -1, inflight = [], next_addr = 0, heap_ops = [], rcalls = []\<rparr>"
    by (simp add: heap_ok_def)
  with assms show ?thesis
    by (auto simp: new_relay_def setup_timer_def relay_create_timer_def Let_def split: if_splits)
qed

lemma relay_steps_heap_ok:
  assumes "relay_steps f good r0 r" "heap_ok [] r0"
  shows "heap_ok [] r"
  using assms by induction (auto intro: heap_ok_complete)


section \<open>What is in flight\<close>

definition kind :: "request \<Rightarrow> op_type \<times> fd" where
  "kind q = (r_type q, r_fd q)"

definition kinds :: "relay \<Rightarrow> (op_type \<times> fd) multiset" where
  "kinds r = image_mset kind (mset (inflight r))"

definition client_kinds :: "relay \<Rightarrow> (op_type \<times> fd) multiset" where
  "client_kinds r = image_mset (Pair CLIENT_READ) (mset (map fst (rclients r)))"

text \<open>
  The requests the relay is meant to have in flight: one read of every source it serves, one
  accept, one read of the timer.
\<close>

definition wanted :: "relay \<Rightarrow> (op_type \<times> fd) multiset" where
  "wanted r =
     {#(STDIN_READ, 0)#} +
     (if rlisten r then
        add_mset (ACCEPT, rsock r) (if 0 \<le> rtimerfd r then {#(TIMER_READ, rtimerfd r)#} else {#})
      else {#(SOCKET_READ, rsock r)#}) + client_kinds r"

text \<open>Requests are only lost when the ring is full.\<close>

definition has_room :: "relay_answers \<Rightarrow> bool" where
  "has_room a \<longleftrightarrow>
     got_sqe a STDIN_READ \<and> got_sqe a SOCKET_READ \<and> got_sqe a ACCEPT \<and> got_sqe a CLIENT_READ \<and>
     u_sqe a TIMER_READ"

lemma kinds_enqueue [simp]: "kinds (enqueue_request t fd r) = add_mset (t, fd) (kinds r)"
  by (simp add: kinds_def enqueue_request_def kind_def)

lemma kinds_irrelevant [simp]:
  "kinds (rcall ss r) = kinds r" "kinds (free_request req r) = kinds r"
  "kinds (r\<lparr>rclients := m\<rparr>) = kinds r" "kinds (r\<lparr>rsocket_closed := b\<rparr>) = kinds r"
  "kinds (r\<lparr>rstdin_closed := b\<rparr>) = kinds r" "kinds (r\<lparr>rtimerfd := t\<rparr>) = kinds r"
  by (simp_all add: kinds_def rcall_def free_request_def)

lemma kinds_take:
  "req \<in> set (inflight r) \<Longrightarrow>
   kinds r = add_mset (kind req) (kinds (r\<lparr>inflight := remove1 req (inflight r)\<rparr>))"
  using mset_map_remove1 [of req "inflight r" kind] by (simp add: kinds_def)

lemma wanted_irrelevant [simp]:
  "wanted (rcall ss r) = wanted r" "wanted (free_request req r) = wanted r"
  "wanted (r\<lparr>rsocket_closed := b\<rparr>) = wanted r" "wanted (r\<lparr>rstdin_closed := b\<rparr>) = wanted r"
  "wanted (r\<lparr>inflight := xs\<rparr>) = wanted r" "wanted (enqueue_request t fd r) = wanted r"
  by (simp_all add: wanted_def client_kinds_def rcall_def free_request_def enqueue_request_def)

lemma wanted_clients:
  "map fst m = map fst (rclients r) \<Longrightarrow> wanted (r\<lparr>rclients := m\<rparr>) = wanted r"
  by (simp add: wanted_def client_kinds_def)

lemma wanted_emplace:
  "\<not> umap_count fd (rclients r) \<Longrightarrow>
   wanted (r\<lparr>rclients := umap_emplace fd st (rclients r)\<rparr>) = add_mset (CLIENT_READ, fd) (wanted r)"
  by (simp add: wanted_def client_kinds_def umap_emplace_def)

lemma mset_map_fst_erase:
  "umap_wf m \<Longrightarrow> umap_count k m \<Longrightarrow> mset (map fst m) = add_mset k (mset (map fst (umap_erase k m)))"
proof (induction m)
  case (Cons e m)
  show ?case
  proof (cases "fst e = k")
    case True
    with Cons.prems(1) have "filter (\<lambda>x. fst x \<noteq> k) m = m"
      by (intro filter_True) (auto simp: umap_wf_def image_iff)
    with True show ?thesis by (simp add: umap_erase_def)
  next
    case False
    with Cons show ?thesis by (auto simp: umap_erase_def umap_wf_def umap_count_def)
  qed
qed (simp add: umap_count_def)

lemma wanted_erase:
  assumes "umap_wf (rclients r)" "umap_count fd (rclients r)"
  shows "wanted r = add_mset (CLIENT_READ, fd) (wanted (r\<lparr>rclients := umap_erase fd (rclients r)\<rparr>))"
  using mset_map_fst_erase [OF assms] by (simp add: wanted_def client_kinds_def)

lemma map_fst_update_stats: "map fst (fst (relay_update_stats f now m)) = map fst m"
  by (induction f now m rule: relay_update_stats.induct) (auto split: prod.split)

lemma map_fst_umap_set: "umap_count k m \<Longrightarrow> map fst (umap_set k v m) = map fst m"
  by (simp add: umap_set_def map_fst_overwrite del: map_map)

lemma relay_fields [simp]:
  "rclients (rcall ss r) = rclients r" "rclients (free_request req r) = rclients r"
  "rclients (enqueue_request t fd r) = rclients r"
  "rsock (rcall ss r) = rsock r" "rsock (free_request req r) = rsock r"
  "rsock (enqueue_request t fd r) = rsock r"
  "rlisten (rcall ss r) = rlisten r" "rlisten (free_request req r) = rlisten r"
  "rlisten (enqueue_request t fd r) = rlisten r"
  "rtimerfd (rcall ss r) = rtimerfd r" "rtimerfd (free_request req r) = rtimerfd r"
  "rtimerfd (enqueue_request t fd r) = rtimerfd r"
  "rstdin_closed (rcall ss r) = rstdin_closed r"
  "rstdin_closed (free_request req r) = rstdin_closed r"
  "rstdin_closed (enqueue_request t fd r) = rstdin_closed r"
  "rsocket_closed (rcall ss r) = rsocket_closed r"
  "rsocket_closed (free_request req r) = rsocket_closed r"
  "rsocket_closed (enqueue_request t fd r) = rsocket_closed r"
  by (simp_all add: rcall_def free_request_def enqueue_request_def)

lemma submit_fields [simp]:
  "rclients (submit_stdin_read a r) = rclients r" "rclients (submit_socket_read a r) = rclients r"
  "rclients (submit_accept a r) = rclients r" "rclients (submit_client_read a fd r) = rclients r"
  "rsock (submit_stdin_read a r) = rsock r" "rsock (submit_socket_read a r) = rsock r"
  "rsock (submit_accept a r) = rsock r" "rsock (submit_client_read a fd r) = rsock r"
  "rlisten (submit_stdin_read a r) = rlisten r" "rlisten (submit_socket_read a r) = rlisten r"
  "rlisten (submit_accept a r) = rlisten r" "rlisten (submit_client_read a fd r) = rlisten r"
  "rtimerfd (submit_stdin_read a r) = rtimerfd r" "rtimerfd (submit_socket_read a r) = rtimerfd r"
  "rtimerfd (submit_accept a r) = rtimerfd r" "rtimerfd (submit_client_read a fd r) = rtimerfd r"
  by (simp_all add: submit_defs)

text \<open>
  \<open>gap\<close>: requests the handler has taken out of the ring and not yet replaced. In the strict
  case nothing else is missing while the loop runs.
\<close>

definition fits :: "bool \<Rightarrow> (op_type \<times> fd) multiset \<Rightarrow> relay \<Rightarrow> bool" where
  "fits strict gap r \<longleftrightarrow>
     gap + kinds r \<subseteq># wanted r \<and>
     (strict \<and> \<not> rstdin_closed r \<and> \<not> rsocket_closed r \<longrightarrow> gap + kinds r = wanted r)"

lemma fits_irrelevant [simp]:
  "fits strict gap (rcall ss r) = fits strict gap r"
  "fits strict gap (free_request req r) = fits strict gap r"
  by (simp_all add: fits_def)

lemma fits_close [simp]:
  "fits strict gap r \<Longrightarrow> fits strict gap (r\<lparr>rsocket_closed := True\<rparr>)"
  "fits strict gap r \<Longrightarrow> fits strict gap (r\<lparr>rstdin_closed := True\<rparr>)"
  by (simp_all add: fits_def)

lemma fits_enqueue:
  "fits strict (add_mset (t, fd) gap) r \<Longrightarrow> fits strict gap (enqueue_request t fd r)"
  by (simp add: fits_def)

lemma fits_closed:
  "fits strict (gap' + gap) r \<Longrightarrow> rstdin_closed r \<or> rsocket_closed r \<Longrightarrow> fits strict gap r"
  by (auto simp: fits_def add.assoc intro: subset_mset.order_trans [OF mset_subset_eq_add_right])

lemma fits_lost:
  "fits strict (add_mset k gap) r \<Longrightarrow> \<not> strict \<Longrightarrow> fits strict gap r"
  by (auto simp: fits_def dest: mset_subset_eq_insertD subset_mset.less_imp_le)

lemma fits_drop:
  "fits strict (add_mset k gap) r \<Longrightarrow> rstdin_closed r \<or> rsocket_closed r \<Longrightarrow> fits strict gap r"
  using fits_closed [of strict "{#k#}"] by simp

lemma fits_submitted:
  assumes "fits strict (add_mset (t, fd) gap) r" "strict \<longrightarrow> room"
  shows "fits strict gap (if closed then r else if \<not> room then r else enqueue_request t fd r) \<or>
    closed \<and> \<not> (rstdin_closed r \<or> rsocket_closed r)"
  using assms by (auto intro: fits_enqueue fits_lost fits_drop)

lemma fits_submit:
  assumes "strict \<longrightarrow> has_room a"
  shows "fits strict (add_mset (STDIN_READ, 0) gap) r \<Longrightarrow> fits strict gap (submit_stdin_read a r)"
    and "fits strict (add_mset (SOCKET_READ, rsock r) gap) r \<Longrightarrow> fits strict gap (submit_socket_read a r)"
    and "fits strict (add_mset (ACCEPT, rsock r) gap) r \<Longrightarrow> fits strict gap (submit_accept a r)"
    and "\<lbrakk> fits strict (add_mset (CLIENT_READ, fd) gap) r; umap_count fd (rclients r) \<rbrakk>
      \<Longrightarrow> fits strict gap (submit_client_read a fd r)"
  unfolding submit_defs using assms unfolding has_room_def
  by (metis fits_submitted)+

lemma kind_of_wanted:
  assumes "add_mset (t, fd) gap \<subseteq># wanted r"
  shows "t = STDIN_READ \<Longrightarrow> fd = 0" "t = SOCKET_READ \<Longrightarrow> fd = rsock r"
    "t = ACCEPT \<Longrightarrow> fd = rsock r \<and> rlisten r"
    "t = TIMER_READ \<Longrightarrow> fd = rtimerfd r \<and> 0 \<le> rtimerfd r"
    "t = CLIENT_READ \<Longrightarrow> umap_count fd (rclients r)"
proof -
  have "(t, fd) \<in># wanted r"
    using assms by (meson insert_subset_eq_iff)
  then show "t = STDIN_READ \<Longrightarrow> fd = 0" "t = SOCKET_READ \<Longrightarrow> fd = rsock r"
    "t = ACCEPT \<Longrightarrow> fd = rsock r \<and> rlisten r"
    "t = TIMER_READ \<Longrightarrow> fd = rtimerfd r \<and> 0 \<le> rtimerfd r"
    "t = CLIENT_READ \<Longrightarrow> umap_count fd (rclients r)"
    by (auto simp: wanted_def client_kinds_def umap_count_def split: if_splits)
qed

lemma fits_take:
  assumes "fits strict {#} r" "offered req res r" "\<not> rstdin_closed r" "\<not> rsocket_closed r"
  shows "fits strict {#kind req#} (r\<lparr>inflight := remove1 req (inflight r)\<rparr>)"
  using assms kinds_take [of req r] by (simp add: fits_def offered_def)

lemma fits_emplace:
  "\<not> umap_count fd (rclients r) \<Longrightarrow>
   fits strict (add_mset (CLIENT_READ, fd) gap) (r\<lparr>rclients := umap_emplace fd st (rclients r)\<rparr>) =
   fits strict gap r"
  by (simp add: fits_def wanted_emplace)

lemma fits_clients:
  "map fst m = map fst (rclients r) \<Longrightarrow> fits strict gap (r\<lparr>rclients := m\<rparr>) = fits strict gap r"
  by (simp add: fits_def wanted_clients)

lemma fits_remove:
  assumes "umap_wf (rclients r)" "umap_count fd (rclients r)" "fits strict {#(CLIENT_READ, fd)#} r"
  shows "fits strict {#} (r\<lparr>rclients := umap_erase fd (rclients r)\<rparr>)"
  using assms(3) wanted_erase [OF assms(1,2)] by (simp add: fits_def)

lemma fits_close_drop:
  "fits strict (add_mset k gap) r \<Longrightarrow> fits strict gap (r\<lparr>rsocket_closed := True\<rparr>)"
  "fits strict (add_mset k gap) r \<Longrightarrow> fits strict gap (r\<lparr>rstdin_closed := True\<rparr>)"
  by (rule fits_drop, erule fits_close, simp)+

lemma rcall_update [simp]:
  "(rcall ss r)\<lparr>rclients := m\<rparr> = rcall ss (r\<lparr>rclients := m\<rparr>)"
  "(rcall ss r)\<lparr>rsocket_closed := b\<rparr> = rcall ss (r\<lparr>rsocket_closed := b\<rparr>)"
  "(rcall ss r)\<lparr>rstdin_closed := b\<rparr> = rcall ss (r\<lparr>rstdin_closed := b\<rparr>)"
  "(rcall ss r)\<lparr>rtimerfd := t\<rparr> = rcall ss (r\<lparr>rtimerfd := t\<rparr>)"
  "(free_request req r)\<lparr>rclients := m\<rparr> = free_request req (r\<lparr>rclients := m\<rparr>)"
  by (simp_all add: rcall_def free_request_def)

lemmas fits_handler = fits_submit fits_drop fits_close fits_close_drop fits_remove

text \<open>Each handler fills the gap its request left.\<close>

lemma fits_stdin_read:
  assumes "strict \<longrightarrow> has_room a" "fits strict {#(STDIN_READ, 0)#} r"
  shows "fits strict {#} (handle_stdin_read a req res buf r)"
  using assms by (auto simp: handle_stdin_read_def Let_def intro: fits_handler)

lemma fits_socket_read:
  assumes "strict \<longrightarrow> has_room a" "fits strict {#(SOCKET_READ, rsock r)#} r"
  shows "fits strict {#} (handle_socket_read a req res buf r)"
  using assms by (auto simp: handle_socket_read_def Let_def intro: fits_handler)

lemma fits_handle_accept:
  assumes "strict \<longrightarrow> has_room a" "fits strict {#(ACCEPT, rsock r)#} r"
    and "0 \<le> res \<longrightarrow> \<not> umap_count res (rclients r)"
  shows "fits strict {#} (relay_handle_accept a req res r)"
proof (cases "0 \<le> res")
  case True
  let ?m = "umap_emplace res ((new_stats (u_now a))\<lparr>ip := u_peer a\<rparr>) (rclients r)"
  let ?r = "submit_client_read a res ((rcall [Opened res] r)\<lparr>rclients := ?m\<rparr>)"
  have "fits strict {#(ACCEPT, rsock r)#} ?r"
    using assms True
    by (intro fits_submit(4))
      (simp_all add: fits_emplace umap_count_def umap_keys_emplace)
  with assms(1) True show ?thesis
    by (auto simp: relay_handle_accept_def Let_def intro: fits_handler)
next
  case False
  with assms show ?thesis
    by (auto simp: relay_handle_accept_def Let_def intro: fits_handler)
qed

lemma fits_timer_read:
  assumes "strict \<longrightarrow> has_room a" "fits strict {#(TIMER_READ, rtimerfd r)#} r" "0 \<le> rtimerfd r"
  shows "fits strict {#} (handle_timer_read f a req res r)"
  using assms map_fst_update_stats [of f "u_now a" "rclients r"]
  by (auto simp: handle_timer_read_def Let_def has_room_def fits_clients split: prod.splits
      intro!: fits_enqueue intro: fits_lost)

lemma fits_client_read:
  assumes "strict \<longrightarrow> has_room a" "fits strict {#(CLIENT_READ, r_fd req)#} r"
    and "umap_wf (rclients r)" "umap_count (r_fd req) (rclients r)"
  shows "fits strict {#} (handle_client_read a req res buf r)"
proof -
  from assms(4) obtain st where st: "umap_find (r_fd req) (rclients r) = Some st"
    by (auto simp: umap_count_find)
  show ?thesis
  proof (cases "0 < res")
    case True
    then show ?thesis
      using assms st
      by (auto simp: handle_client_read_def Let_def fits_clients [OF map_fst_umap_set]
          umap_count_find umap_find_set intro!: fits_submit(4))
  next
    case False
    then show ?thesis
      using assms st by (simp add: handle_client_read_def relay_remove_client_def Let_def fits_remove)
  qed
qed


text \<open>What a completion does to the clients, and what it leaves alone.\<close>

definition clients_after :: "fp \<Rightarrow> relay_answers \<Rightarrow> request \<Rightarrow> int \<Rightarrow> relay \<Rightarrow> (fd, stats) umap" where
  "clients_after f a req res r =
     (case r_type req of
        ACCEPT \<Rightarrow>
          if 0 \<le> res then umap_emplace res ((new_stats (u_now a))\<lparr>ip := u_peer a\<rparr>) (rclients r)
          else rclients r
      | TIMER_READ \<Rightarrow>
          if res = 8 then fst (relay_update_stats f (u_now a) (rclients r)) else rclients r
      | CLIENT_READ \<Rightarrow>
          (case umap_find (r_fd req) (rclients r) of
             None \<Rightarrow> rclients r
           | Some st \<Rightarrow>
               if 0 < res then umap_set (r_fd req) (addBytes (nat res) st) (rclients r)
               else umap_erase (r_fd req) (rclients r))
      | _ \<Rightarrow> rclients r)"

lemma complete_clients: "rclients (complete f a req res buf r) = clients_after f a req res r"
  by (cases "r_type req")
    (simp_all add: complete_def completion_defs clients_after_def Let_def umap_count_find
      split: option.split prod.split)

lemma complete_fields [simp]:
  "rlisten (complete f a req res buf r) = rlisten r"
  "rsock (complete f a req res buf r) = rsock r"
  "rtimerfd (complete f a req res buf r) = rtimerfd r"
  by (cases "r_type req";
      simp add: complete_def completion_defs submit_defs Let_def split: option.split prod.split)+

lemma umap_wf_update_stats [simp]: "umap_wf m \<Longrightarrow> umap_wf (fst (relay_update_stats f now m))"
  by (simp add: umap_wf_def map_fst_update_stats)

lemma complete_wf: "umap_wf (rclients r) \<Longrightarrow> umap_wf (rclients (complete f a req res buf r))"
  by (simp add: complete_clients clients_after_def split: op_type.split option.split)

lemma fits_complete:
  assumes "strict \<longrightarrow> has_room a" "fits strict {#} r" "offered req res r" "umap_wf (rclients r)"
    and "\<not> rstdin_closed r" "\<not> rsocket_closed r"
  shows "fits strict {#} (complete f a req res buf r)"
proof -
  let ?r = "r\<lparr>inflight := remove1 req (inflight r)\<rparr>"
  have gap: "fits strict {#(r_type req, r_fd req)#} ?r"
    using assms fits_take by (simp add: kind_def)
  then have "add_mset (r_type req, r_fd req) (kinds ?r) \<subseteq># wanted ?r"
    by (simp add: fits_def)
  note source = kind_of_wanted [OF this]
  show ?thesis
  proof (cases "r_type req")
    case STDIN_READ
    then show ?thesis
      using gap source(1) assms(1) by (simp add: complete_def fits_stdin_read)
  next
    case SOCKET_READ
    then show ?thesis
      using gap source(2) assms(1) by (simp add: complete_def fits_socket_read)
  next
    case ACCEPT
    then show ?thesis
      using gap source(3) assms(1,3) by (simp add: complete_def fits_handle_accept offered_def)
  next
    case TIMER_READ
    then show ?thesis
      using gap source(4) assms(1) by (simp add: complete_def fits_timer_read)
  next
    case CLIENT_READ
    then show ?thesis
      using gap source(5) assms(1,4) by (simp add: complete_def fits_client_read)
  qed
qed

lemma fits_timerfd:
  assumes "fits strict {#} r" "rtimerfd r = -1" "rlisten r"
  shows "0 \<le> t \<Longrightarrow> fits strict {#(TIMER_READ, t)#} (r\<lparr>rtimerfd := t\<rparr>)"
    and "t < 0 \<Longrightarrow> fits strict {#} (r\<lparr>rtimerfd := t\<rparr>)"
  using assms by (simp_all add: fits_def wanted_def client_kinds_def add_mset_commute)

definition timer_calls :: "fd \<Rightarrow> int \<Rightarrow> sys list" where
  "timer_calls created armed =
     (if created = -1 then []
      else if armed = -1 then [Opened created, Closed created] else [Opened created])"

lemma setup_timer_eq:
  "setup_timer a created armed r =
     (let t = (if armed = -1 then -1 else created);
          s = rcall (timer_calls created armed) (r\<lparr>rtimerfd := t\<rparr>)
      in if t < 0 then s else if \<not> got_sqe a TIMER_READ then s else enqueue_request TIMER_READ t s)"
  by (simp add: setup_timer_def relay_create_timer_def timer_calls_def Let_def)
    (simp add: rcall_def)

lemma setup_timer_fields [simp]:
  "rclients (setup_timer a created armed r) = rclients r"
  "rlisten (setup_timer a created armed r) = rlisten r"
  "rsock (setup_timer a created armed r) = rsock r"
  by (simp_all add: setup_timer_eq Let_def)

lemma fits_setup_timer:
  assumes "fits strict {#} r" "rtimerfd r = -1" "rlisten r" "strict \<longrightarrow> has_room a"
  shows "fits strict {#} (setup_timer a created armed r)"
proof -
  let ?t = "if armed = -1 then -1 else created"
  let ?s = "rcall (timer_calls created armed) (r\<lparr>rtimerfd := ?t\<rparr>)"
  note ss = setup_timer_eq [of a created armed r]
  have room: "strict \<longrightarrow> got_sqe a TIMER_READ"
    using assms(4) by (auto simp: has_room_def got_sqe_def)
  show "fits strict {#} (setup_timer a created armed r)"
  proof (cases "?t < 0")
    case True
    then show ?thesis
      using ss fits_timerfd(2) [OF assms(1-3)] by simp
  next
    case False
    then have "fits strict {#(TIMER_READ, ?t)#} ?s"
      using fits_timerfd(1) [OF assms(1-3)] by simp
    with False ss room show ?thesis
      by (auto simp: Let_def intro: fits_enqueue fits_lost)
  qed
qed

lemma fits_new:
  assumes "new_relay a ring created armed sock listen = Inr r" "strict \<longrightarrow> has_room a"
  shows "fits strict {#} r" "rclients r = []"
proof -
  let ?r = "\<lparr>rsock = sock, rlisten = listen, rclients = [], rstdin_closed = False,
    rsocket_closed = False, rtimerfd = -1, inflight = [], next_addr = 0, heap_ops = [], rcalls = []\<rparr>"
  have start: "fits strict {#(STDIN_READ, 0), if listen then (ACCEPT, sock) else (SOCKET_READ, sock)#} ?r"
    by (simp add: fits_def wanted_def client_kinds_def kinds_def)
  let ?s = "submit_stdin_read a ?r"
  have "fits strict {#if listen then (ACCEPT, sock) else (SOCKET_READ, sock)#} ?s"
    using start assms(2) by (rule fits_submit(1) [rotated])
  moreover have "rsock ?s = sock" "rlisten ?s = listen" "rtimerfd ?s = -1" "rclients ?s = []"
    by (simp_all add: submit_stdin_read_def enqueue_request_def)
  moreover have "r = (if listen then setup_timer a created armed (submit_accept a ?s)
    else submit_socket_read a ?s)"
    using assms(1) by (simp add: new_relay_def Let_def split: if_splits)
  ultimately show "fits strict {#} r" "rclients r = []"
    using assms(2) fits_submit(2,3) [where r = ?s, OF assms(2)]
    by (simp_all split: if_splits add: fits_setup_timer)
qed

lemma relay_steps_fits:
  assumes "relay_steps f good r0 r" "\<And>a. strict \<and> good a \<Longrightarrow> has_room a"
    and "fits strict {#} r0" "umap_wf (rclients r0)"
  shows "fits strict {#} r \<and> umap_wf (rclients r)"
  using assms
  by induction (auto intro: fits_complete complete_wf)


section \<open>Descriptors\<close>

definition timer_fds :: "relay \<Rightarrow> fd set" where
  "timer_fds r = (if 0 \<le> rtimerfd r then {rtimerfd r} else {})"

text \<open>The descriptors the relay has open are those of its clients and its timer.\<close>

definition fds_ok :: "relay \<Rightarrow> bool" where
  "fds_ok r \<longleftrightarrow>
     replay (rcalls r) {} = Some (fst ` set (rclients r) \<union> timer_fds r) \<and>
     fst ` set (rclients r) \<inter> timer_fds r = {}"

lemma rcalls_simps [simp]:
  "rcalls (rcall ss r) = rcalls r @ ss" "rcalls (free_request req r) = rcalls r"
  "rcalls (enqueue_request t fd r) = rcalls r" "rcalls (submit_stdin_read a r) = rcalls r"
  "rcalls (submit_socket_read a r) = rcalls r" "rcalls (submit_accept a r) = rcalls r"
  "rcalls (submit_client_read a fd r) = rcalls r"
  by (simp_all add: rcall_def free_request_def enqueue_request_def submit_defs)

lemma replay_stats [simp]: "relay_update_stats f now m = (m', ss) \<Longrightarrow> replay ss S = Some S"
  by (induction f now m arbitrary: m' ss rule: relay_update_stats.induct)
    (auto split: prod.splits if_splits)

lemma replay_shutdowns [simp]: "replay (map (\<lambda>c. Shut_write (g c)) xs) S = Some S"
  by (rule replay_quiet) auto

definition calls_after :: "fp \<Rightarrow> relay_answers \<Rightarrow> request \<Rightarrow> int \<Rightarrow> relay \<Rightarrow> sys list" where
  "calls_after f a req res r =
     (if r_type req = ACCEPT \<and> 0 \<le> res then [Opened res]
      else if r_type req = CLIENT_READ \<and> res \<le> 0 \<and> umap_count (r_fd req) (rclients r)
      then [Closed (r_fd req)] else [])"

lemma complete_calls:
  "replay (rcalls (complete f a req res buf r)) S = replay (rcalls r @ calls_after f a req res r) S"
  by (cases "r_type req")
    (auto simp: complete_def completion_defs calls_after_def Let_def umap_count_find
      split: option.split prod.split bind_split)

lemma fds_ok_complete:
  assumes "fds_ok r" "umap_wf (rclients r)" "offered req res r"
  shows "fds_ok (complete f a req res buf r)"
proof -
  let ?K = "fst ` set (rclients r)"
  have keys: "fst ` set (clients_after f a req res r) =
    (if r_type req = ACCEPT \<and> 0 \<le> res then insert res ?K
     else if r_type req = CLIENT_READ \<and> res \<le> 0 then ?K - {r_fd req} else ?K)"
    using arg_cong [OF map_fst_update_stats [of f "u_now a" "rclients r"], of set]
    by (cases "r_type req")
      (auto simp: clients_after_def umap_simps umap_count_find umap_count_def [symmetric] split: option.split)
  have same: "timer_fds (complete f a req res buf r) = timer_fds r"
    by (simp add: timer_fds_def)
  have fresh: "r_type req = ACCEPT \<and> 0 \<le> res \<Longrightarrow> res \<notin> ?K \<and> res \<notin> timer_fds r"
    using assms(3) by (auto simp: offered_def umap_count_def timer_fds_def split: if_splits)
  show ?thesis
    using assms(1) fresh
    unfolding fds_ok_def complete_calls complete_clients keys same
    by (auto simp: calls_after_def umap_count_def)
qed

lemma fds_ok_new:
  assumes "new_relay a ring created armed sock listen = Inr r" "created = -1 \<or> 0 \<le> created"
  shows "fds_ok r"
  using assms
  by (auto simp: new_relay_def Let_def setup_timer_eq timer_calls_def fds_ok_def timer_fds_def
      submit_defs enqueue_request_def rcall_def split: if_splits)

lemma relay_steps_fds_ok:
  assumes "relay_steps f good r0 r" "fds_ok r0" "umap_wf (rclients r0)"
  shows "fds_ok r \<and> umap_wf (rclients r)"
  using assms by induction (auto intro: fds_ok_complete complete_wf)

lemma destroy_closes_all:
  assumes "fds_ok r" "umap_wf (rclients r)"
  shows "replay (rcalls (destroy_relay r)) {} = Some {}"
proof -
  have "replay (map Closed (map fst (rclients r))) (set (map fst (rclients r)) \<union> timer_fds r) =
    Some (set (map fst (rclients r)) \<union> timer_fds r - set (map fst (rclients r)))"
    using assms(2) by (intro replay_closes) (auto simp: umap_wf_def)
  then have "replay (map (\<lambda>c. Closed (fst c)) (rclients r)) (fst ` set (rclients r) \<union> timer_fds r) =
    Some (timer_fds r)"
    using assms(1) by (auto simp: fds_ok_def comp_def Un_Diff Diff_triv inf_commute)
  with assms(1) show ?thesis
    by (auto simp: destroy_relay_def fds_ok_def timer_fds_def Let_def)
qed


section \<open>Properties\<close>

lemma relay_start:
  assumes "new_relay a ring created armed sock listen = Inr r0"
  shows "fits False {#} r0" "umap_wf (rclients r0)" "has_room a \<Longrightarrow> fits True {#} r0"
    "created = -1 \<or> 0 \<le> created \<Longrightarrow> fds_ok r0"
  using fits_new [OF assms, of False] fits_new(1) [OF assms, of True] fds_ok_new [OF assms] by simp_all


text \<open>C31: The descriptors the relay opens are its clients and its timer, each open once, in every
  reachable state, and the destructor closes them all exactly once.\<close>

theorem relay_descriptors:
  assumes "new_relay a ring created armed sock listen = Inr r0" "relay_steps f good r0 r"
    and "created = -1 \<or> 0 \<le> created"
  shows "replay (rcalls r) {} = Some (fst ` set (rclients r) \<union> timer_fds r) \<and>
    replay (rcalls (destroy_relay r)) {} = Some {}"
  using relay_steps_fds_ok [OF assms(2)] relay_start [OF assms(1)] assms(3) destroy_closes_all [of r]
  by (simp add: fds_ok_def)

text \<open>C29: The relay serves everyone: while it runs, and the ring never refuses an entry, exactly
  one read is in flight for standard input, for the timer and for every client, and one accept
  (one read of the socket, in client mode).\<close>

theorem relay_serves_everyone:
  assumes "new_relay a ring created armed sock listen = Inr r0" "has_room a"
    and "relay_steps f has_room r0 r" "\<not> rstdin_closed r" "\<not> rsocket_closed r"
  shows "kinds r = wanted r"
  using relay_steps_fits [OF assms(3), of True] relay_start [OF assms(1)] assms(2,4,5)
  by (simp add: fits_def)

text \<open>The end of standard input stops the relay with requests still in flight, one for every
  other source; nobody releases them, the destructor included.\<close>

theorem relay_stop_leaks:
  assumes "new_relay a ring created armed sock listen = Inr r0" "has_room a"
    and "relay_steps f has_room r0 r" "\<not> rstdin_closed r" "\<not> rsocket_closed r"
    and "req \<in> set (inflight r)" "r_type req = STDIN_READ" "res \<le> 0"
  shows "\<exists>r'. relay_exec f [Cqe req res buf a'] r = Some (Inr r') \<and>
    heap_replay (heap_ops (destroy_relay r')) {} = Some (r_addr ` set (inflight r')) \<and>
    kinds r' = wanted r - {#(STDIN_READ, 0)#} \<and> size (kinds r') = card (r_addr ` set (inflight r'))"
proof -
  let ?r = "complete f a' req res buf r"
  have "heap_ok [] r"
    using relay_steps_heap_ok [OF assms(3) heap_ok_new [OF assms(1)]] .
  then have ok: "heap_ok [] ?r"
    using assms(6,7) by (intro heap_ok_complete) (simp_all add: offered_def)
  have "kinds r = wanted r"
    using relay_steps_fits [OF assms(3), of True] relay_start [OF assms(1)] assms(2,4,5)
    by (simp add: fits_def)
  moreover from this have "r_fd req = 0"
    using kinds_take [OF assms(6)] assms(7) kind_of_wanted(1) [of STDIN_READ "r_fd req" _ r]
    by (metis kind_def subset_mset.order_refl)
  ultimately have "kinds (r\<lparr>inflight := remove1 req (inflight r)\<rparr>) = wanted r - {#(STDIN_READ, 0)#}"
    using kinds_take [OF assms(6)] assms(7) by (metis add_mset_remove_trivial kind_def)
  then have "kinds ?r = wanted r - {#(STDIN_READ, 0)#}"
    using assms(7,8) by (simp add: complete_def handle_stdin_read_def Let_def)
  moreover have "rstdin_closed ?r"
    using assms(7,8) by (simp add: complete_def handle_stdin_read_def Let_def)
  moreover have "heap_ops (destroy_relay ?r) = heap_ops ?r"
    by (simp add: destroy_relay_def rcall_def Let_def)
  moreover have "size (kinds ?r) = card (r_addr ` set (inflight ?r))"
    using ok distinct_card [of "map r_addr (inflight ?r)"] by (simp add: heap_ok_def kinds_def Let_def)
  ultimately show ?thesis
    using ok assms(4,5) by (simp add: heap_ok_def Let_def)
qed

text \<open>At the end of standard input the client half-closes the connection and returns at once:
  whatever the server still sends, completions of its reads included, is not written.\<close>

theorem relay_client_drops_reply:
  assumes "\<not> rlisten r" "\<not> rstdin_closed r" "\<not> rsocket_closed r" "r_type req = STDIN_READ"
  shows "\<exists>r'. relay_exec f (Cqe req 0 buf a # xs) r = Some (Inr r') \<and>
    rcalls r' = rcalls r @ [Shut_write (rsock r)]"
  using assms
  by (cases xs) (simp_all add: complete_def handle_stdin_read_def free_request_def rcall_def Let_def)

text \<open>
  A full ring: the accept that cannot be submitted is never submitted again, and nobody is
  accepted any more.
\<close>

lemma relay_stops_accepting:
  assumes "relay_steps f good r0 r" "ACCEPT \<notin> r_type ` set (inflight r0)"
  shows "ACCEPT \<notin> r_type ` set (inflight r)"
  using assms
proof induction
  case (turn r req res a buf)
  then have "r_type req \<noteq> ACCEPT" unfolding offered_def by (metis imageI)
  moreover have "ACCEPT \<notin> r_type ` set (remove1 req (inflight r))"
    using turn set_remove1_subset [of req "inflight r"] by blast
  ultimately show ?case
    by (cases "r_type req")
      (auto simp: complete_def completion_defs submit_defs enqueue_request_def free_request_def
        rcall_def Let_def split: option.split prod.split)
qed simp


text \<open>A concrete relay for the witnesses: a server with one client, and a client.\<close>

definition demo_ring :: "time \<Rightarrow> relay_answers" where
  "demo_ring now = \<lparr>u_sqe = (\<lambda>t. True), u_sqe_again = (\<lambda>t. True), u_sent = (\<lambda>fd. 0),
     u_peer = ''10.0.0.1:99'', u_now = now\<rparr>"

definition demo_request :: "op_type \<Rightarrow> fd \<Rightarrow> nat \<Rightarrow> request" where
  "demo_request t fd p = \<lparr>r_type = t, r_fd = fd, r_addr = p\<rparr>"

definition demo_relay :: "bool \<Rightarrow> relay" where
  "demo_relay listen = projr (new_relay (demo_ring 0) 0 7 0 3 listen)"

definition demo_serving :: relay where
  "demo_serving = complete demo_fp (demo_ring 1) (demo_request ACCEPT 3 1) 9 [] (demo_relay True)"

lemmas demo_relay_defs =
  demo_relay_def demo_serving_def demo_request_def new_relay_def setup_timer_def relay_create_timer_def submit_defs
  got_sqe_def demo_ring_def complete_def relay_handle_accept_def enqueue_request_def rcall_def
  free_request_def umap_emplace_def umap_count_def Let_def

lemma demo_relay_new: "new_relay (demo_ring 0) 0 7 0 3 listen = Inr (demo_relay listen)"
  by (simp add: demo_relay_def new_relay_def Let_def)

lemma demo_room: "has_room (demo_ring t)"
  by (simp add: has_room_def got_sqe_def demo_ring_def)

lemma demo_serving_reached: "relay_steps demo_fp has_room (demo_relay True) demo_serving"
  unfolding demo_serving_def
  by (rule relay_steps.turn [OF relay_steps.start])
    (simp_all add: demo_room, simp_all add: offered_def demo_relay_defs)

lemma demo_serving_state:
  "\<not> rstdin_closed demo_serving" "\<not> rsocket_closed demo_serving" "rlisten demo_serving"
  "map fst (rclients demo_serving) = [9]" "rtimerfd demo_serving = 7"
  "map r_addr (inflight demo_serving) = [0, 2, 3, 4]"
  "demo_request STDIN_READ 0 0 \<in> set (inflight demo_serving)"
  by (simp_all add: demo_relay_defs)


lemma relay_descriptors_witness:
  "replay (rcalls demo_serving) {} = Some {7, 9} \<and> replay (rcalls (destroy_relay demo_serving)) {} = Some {}"
  using relay_descriptors [OF demo_relay_new demo_serving_reached]
    arg_cong [OF demo_serving_state(4), of set] demo_serving_state(5)
  by (simp add: timer_fds_def insert_commute)

lemma relay_serves_everyone_witness: "kinds demo_serving = wanted demo_serving"
  by (rule relay_serves_everyone [OF demo_relay_new demo_room demo_serving_reached demo_serving_state(1,2)])

lemma relay_stop_leaks_witness:
  "\<exists>r'. relay_exec demo_fp [Cqe (demo_request STDIN_READ 0 0) 0 [] (demo_ring 2)] demo_serving = Some (Inr r') \<and>
    heap_replay (heap_ops (destroy_relay r')) {} = Some (r_addr ` set (inflight r')) \<and>
    kinds r' = wanted demo_serving - {#(STDIN_READ, 0)#} \<and> size (kinds r') = card (r_addr ` set (inflight r'))"
  by (rule relay_stop_leaks [OF demo_relay_new demo_room demo_serving_reached demo_serving_state(1,2,7)])
    (simp_all add: demo_request_def)

lemma relay_client_drops_reply_witness:
  "\<exists>r'. relay_exec demo_fp [Cqe (demo_request STDIN_READ 0 0) 0 [] (demo_ring 1),
      Cqe (demo_request SOCKET_READ 3 1) 2 [104, 105] (demo_ring 1)] (demo_relay False) = Some (Inr r') \<and>
    rcalls r' = rcalls (demo_relay False) @ [Shut_write (rsock (demo_relay False))]"
  by (rule relay_client_drops_reply) (simp_all add: demo_relay_defs)

end
