(* ===== verification/Programs.thy ===== *)
theory Programs
  imports EpollBehaviour SocketSetup UringOwnership
begin

text \<open>
  The programs around the components: the command lines of \<open>mync/main.cpp\<close> and
  \<open>clientapp/main.cpp\<close>, the retried read of standard input (\<open>read_from_stdin\<close> of
  \<open>mync/utils.cpp\<close>), the complete write of \<open>test_write/main.cpp\<close>, the client program
  \<open>client_mode_epoll\<close> with its paced sender (\<open>mync/epollserver.cpp\<close>), and the two programs over
  \<open>io_uring\<close> (\<open>mync/io_uring.h\<close>). A program composes the socket, the loop and the destructor of
  the components it uses.
\<close>


section \<open>\<open>std::stoi\<close>\<close>

definition is_digit :: "char \<Rightarrow> bool" where
  "is_digit c \<longleftrightarrow> 48 \<le> (of_char c :: nat) \<and> (of_char c :: nat) \<le> 57"

definition is_space :: "char \<Rightarrow> bool" where
  "is_space c \<longleftrightarrow> (of_char c :: nat) \<in> {9, 10, 11, 12, 13, 32}"

definition digits_value :: "string \<Rightarrow> nat" where
  "digits_value ds = foldl (\<lambda>n c. 10 * n + (of_char c - 48)) 0 ds"

definition stoi :: "string \<Rightarrow> exn + int" where
  "stoi s =
     (let t = dropWhile is_space s;
          (negative, u) = (case t of
              [] \<Rightarrow> (False, [])
            | c # cs \<Rightarrow> if c = CHR ''-'' then (True, cs) else if c = CHR ''+'' then (False, cs) else (False, t));
          ds = takeWhile is_digit u
      in if ds = [] then Inl (Invalid_argument ''stoi'')
         else let v = (if negative then - int (digits_value ds) else int (digits_value ds))
           in if v < - (2 ^ 31) \<or> 2 ^ 31 \<le> v then Inl (Out_of_range ''stoi'') else Inr v)"

lemma of_char_digit: "d < 10 \<Longrightarrow> of_char (char_of (48 + d) :: char) = (48 + d :: nat)"
  by (simp add: take_bit_nat_eq_self)

lemma to_string_digits: "list_all is_digit (to_string n) \<and> to_string n \<noteq> []"
proof (induction n rule: to_string.induct)
  case (1 n)
  have "is_digit (char_of (48 + n mod 10))" for n :: nat
    using of_char_digit [of "n mod 10"] by (simp add: is_digit_def)
  from this [of n] 1 show ?case
    by (subst (1 2) to_string.simps) auto
qed

lemma digits_value_to_string [simp]: "digits_value (to_string n) = n"
proof (induction n rule: to_string.induct)
  case (1 n)
  show ?case
  proof (cases "n < 10")
    case True
    then show ?thesis
      using of_char_digit [of n] by (subst to_string.simps) (simp add: digits_value_def)
  next
    case False
    with 1 have "digits_value (to_string (n div 10)) = n div 10" by simp
    with False show ?thesis
      using of_char_digit [of "n mod 10"]
      by (subst to_string.simps) (simp add: digits_value_def)
  qed
qed

lemma digit_first: "is_digit c \<Longrightarrow> \<not> is_space c \<and> c \<noteq> CHR ''-'' \<and> c \<noteq> CHR ''+''"
  by (auto simp: is_digit_def is_space_def)

lemma stoi_to_string:
  assumes "n < 2 ^ 31"
  shows "stoi (to_string n) = Inr (int n)"
proof -
  obtain c cs where c: "to_string n = c # cs"
    using to_string_digits [of n] by (cases "to_string n") auto
  with to_string_digits [of n] have "is_digit c" by simp
  then have first: "\<not> is_space c" "c \<noteq> CHR ''-''" "c \<noteq> CHR ''+''"
    using digit_first by auto
  have drop: "dropWhile is_space (to_string n) = to_string n"
    unfolding c using first by simp
  have take: "takeWhile is_digit (to_string n) = to_string n"
    using to_string_digits [of n] by (simp add: takeWhile_eq_all_conv list_all_iff)
  have sign: "(case to_string n of [] \<Rightarrow> (False, [])
      | c # cs \<Rightarrow> if c = CHR ''-'' then (True, cs) else if c = CHR ''+'' then (False, cs)
          else (False, to_string n)) = (False, to_string n)"
    unfolding c using first by simp
  show ?thesis
    unfolding stoi_def Let_def drop sign prod.case take
    using assms to_string_digits [of n] by simp
qed


section \<open>Command lines\<close>

text \<open>
  \<open>main\<close> of \<open>mync\<close> up to the choice of the mode. \<open>args\<close> are the arguments behind the program's
  name; an exception is reported and ends the program with status 1.
\<close>

datatype mync_mode = Print_usage | Listen_mode int | Client_mode string int

definition check_port :: "int \<Rightarrow> exn + int" where
  "check_port port =
     (if port < 1 \<or> port > 65535 then Inl (Out_of_range ''Port must be between 1 and 65535'')
      else Inr port)"

definition mync_args :: "string list \<Rightarrow> exn + mync_mode" where
  "mync_args args =
     (case args of
        [] \<Rightarrow> Inr Print_usage
      | arg1 # rest \<Rightarrow>
          if arg1 = ''-h'' then Inr Print_usage
          else case rest of
            [] \<Rightarrow> Inl (Invalid_argument ''Not enough arguments'')
          | [arg2] \<Rightarrow>
              let is_listen = (arg1 = ''-l'')
              in (case stoi arg2 of
                    Inl e \<Rightarrow> Inl e
                  | Inr port \<Rightarrow>
                      (case check_port port of
                         Inl e \<Rightarrow> Inl e
                       | Inr port \<Rightarrow> Inr (if is_listen then Listen_mode port else Client_mode arg1 port)))
          | _ \<Rightarrow> Inl (Invalid_argument ''Too many arguments''))"

text \<open>
  \<open>ClientConfig\<close> and the argument parsing of \<open>clientapp\<close>: the port goes through a 16-bit field
  before it is checked.
\<close>

record client_config =
  cc_host :: string
  cc_server_ip :: string
  cc_server_port :: u16

definition default_client_config :: client_config where
  "default_client_config = \<lparr>cc_host = '''', cc_server_ip = ''127.0.0.1'', cc_server_port = 12345\<rparr>"

definition clientapp_args :: "string list \<Rightarrow> exn + client_config option" where
  "clientapp_args args =
     (if args \<noteq> [] \<and> hd args = ''-h'' then Inr None
      else let conf = default_client_config;
               conf = (case args of [] \<Rightarrow> conf | a # _ \<Rightarrow> conf\<lparr>cc_server_ip := a\<rparr>)
        in case (if 1 < length args
                 then (case stoi (args ! 1) of
                         Inl e \<Rightarrow> Inl e
                       | Inr v \<Rightarrow> Inr (conf\<lparr>cc_server_port := word_of_int v\<rparr>))
                 else Inr conf) of
             Inl e \<Rightarrow> Inl e
           | Inr conf \<Rightarrow>
               let conf = (if 2 < length args then conf\<lparr>cc_host := args ! 2\<rparr> else conf)
               in (case check_port (uint (cc_server_port conf)) of
                     Inl e \<Rightarrow> Inl e
                   | Inr _ \<Rightarrow> Inr (Some conf)))"

text \<open>The command line of \<open>mync\<close> is understood as it is printed in the usage: with a host
  and a port in decimal the program runs as a client of just these, with \<open>-l\<close> and a port as a
  server, exactly for the ports from 1 to 65535; every other number is an error.\<close>

theorem mync_args_correct:
  assumes "p < 2 ^ 31"
  shows "mync_args [host, to_string p] =
    (if host = ''-h'' then Inr Print_usage
     else if p \<in> {1..65535}
     then Inr (if host = ''-l'' then Listen_mode (int p) else Client_mode host (int p))
     else Inl (Out_of_range ''Port must be between 1 and 65535''))"
  using assms by (auto simp: mync_args_def stoi_to_string check_port_def)

lemma mync_args_correct_witness:
  "mync_args [''-l'', to_string 12345] = Inr (Listen_mode 12345) \<and>
   mync_args [''example.org'', to_string 65536] =
     Inl (Out_of_range ''Port must be between 1 and 65535'')"
  using mync_args_correct [of 12345 "''-l''"] mync_args_correct [of 65536 "''example.org''"] by simp

text \<open>The remaining command lines.\<close>

lemma mync_args_other:
  "mync_args [] = Inr Print_usage"
  "host \<noteq> ''-h'' \<Longrightarrow> mync_args [host] = Inl (Invalid_argument ''Not enough arguments'')"
  "host \<noteq> ''-h'' \<Longrightarrow> mync_args (host # a # b # cs) = Inl (Invalid_argument ''Too many arguments'')"
  by (simp_all add: mync_args_def)

lemma mync_args_bad_port:
  "host \<noteq> ''-h'' \<Longrightarrow> stoi s = Inl e \<Longrightarrow> mync_args [host, s] = Inl e"
  by (simp add: mync_args_def)

text \<open>\<open>clientapp\<close> checks the port only after it went into a 16-bit field: a number too large
  for a port is taken modulo two to the 16 and accepted, unless the remainder is zero.\<close>

theorem clientapp_port_wraps:
  assumes "p < 2 ^ 31" "server \<noteq> ''-h''"
  shows "clientapp_args [server, to_string p] =
    (if p mod 65536 = 0 then Inl (Out_of_range ''Port must be between 1 and 65535'')
     else Inr (Some \<lparr>cc_host = '''', cc_server_ip = server, cc_server_port = of_nat p\<rparr>))"
proof -
  have u: "uint (of_nat p :: u16) = int (p mod 65536)"
    by (simp add: unsigned_of_nat take_bit_eq_mod zmod_int)
  then show ?thesis
    using assms by (simp add: clientapp_args_def stoi_to_string default_client_config_def check_port_def Let_def)
qed

lemma clientapp_port_wraps_witness:
  "clientapp_args [''10.0.0.1'', to_string 65616] =
     Inr (Some \<lparr>cc_host = '''', cc_server_ip = ''10.0.0.1'', cc_server_port = 80\<rparr>)"
  using clientapp_port_wraps [of 65616 "''10.0.0.1''"] by simp

text \<open>
  The command line of \<open>serverapp\<close>. The program does not compile (its \<open>ServerConfig\<close> has
  lost the member \<open>filename\<close> it assigns to); the two values it reads are kept in a record of
  their own. The port stays an \<open>int\<close> and is checked as such.
\<close>

record serverapp_config =
  sa_port :: int
  sa_filename :: string

definition serverapp_args :: "string list \<Rightarrow> exn + serverapp_config option" where
  "serverapp_args args =
     (if args \<noteq> [] \<and> hd args = ''-h'' then Inr None
      else case (case args of [] \<Rightarrow> Inr 12345 | a # _ \<Rightarrow> stoi a) of
             Inl e \<Rightarrow> Inl e
           | Inr port \<Rightarrow>
               let filename = (if 1 < length args then args ! 1 else '''')
               in (case check_port port of
                     Inl e \<Rightarrow> Inl e
                   | Inr port \<Rightarrow> Inr (Some \<lparr>sa_port = port, sa_filename = filename\<rparr>)))"

text \<open>Other than \<open>clientapp\<close>, \<open>serverapp\<close> accepts exactly the ports; further arguments are
  ignored.\<close>

lemma serverapp_args_correct:
  assumes "p < 2 ^ 31"
  shows "serverapp_args (to_string p # rest) =
    (if p \<in> {1..65535}
     then Inr (Some \<lparr>sa_port = int p, sa_filename = (case rest of [] \<Rightarrow> '''' | name # _ \<Rightarrow> name)\<rparr>)
     else Inl (Out_of_range ''Port must be between 1 and 65535''))"
proof -
  have "to_string p \<noteq> ''-h''"
  proof
    assume "to_string p = ''-h''"
    with to_string_digits [of p] show False by (simp add: is_digit_def)
  qed
  with assms show ?thesis
    by (auto simp: serverapp_args_def stoi_to_string check_port_def split: list.split)
qed

lemma serverapp_args_none: "serverapp_args [] = Inr (Some \<lparr>sa_port = 12345, sa_filename = ''''\<rparr>)"
  by (simp add: serverapp_args_def check_port_def)


section \<open>Standard input and output\<close>

text \<open>
  \<open>read_from_stdin\<close>: the answers of \<open>read\<close>, one per attempt; \<open>None\<close> when it is still waiting.
  The result carries what is read and the answers left.
\<close>

fun read_from_stdin :: "recv_result list \<Rightarrow> (recv_result \<times> recv_result list) option" where
  "read_from_stdin [] = None"
| "read_from_stdin (Recv_failed errn # rest) =
     (if errn = EINTR then read_from_stdin rest else Some (Recv_failed errn, rest))"
| "read_from_stdin (Received bs # rest) = Some (Received bs, rest)"

text \<open>It returns at the first attempt a signal does not interrupt, with its answer.\<close>

lemma read_from_stdin_retries:
  "set xs \<subseteq> {Recv_failed EINTR} \<Longrightarrow> r \<noteq> Recv_failed EINTR \<Longrightarrow>
   read_from_stdin (xs @ r # rest) = Some (r, rest)"
  by (induction xs) (cases r, auto)

text \<open>
  \<open>write_to_stdout\<close> of \<open>test_write\<close>: the answers are the results of \<open>write\<close>, a count or an
  error; the result is 0 or -1 with the bytes written, or \<open>None\<close> while the loop still runs.
\<close>

datatype write_result = Wrote nat | Write_failed errno

fun write_fully :: "write_result list \<Rightarrow> u8 list \<Rightarrow> nat \<Rightarrow> (int \<times> u8 list) option" where
  "write_fully [] buf written = (if written < length buf then None else Some (0, []))"
| "write_fully (Write_failed errn # rest) buf written =
     (if written < length buf then
        (if errn = EINTR then write_fully rest buf written else Some (-1, []))
      else Some (0, []))"
| "write_fully (Wrote n # rest) buf written =
     (if written < length buf then
        map_option (\<lambda>(r, out). (r, take n (drop written buf) @ out)) (write_fully rest buf (written + n))
      else Some (0, []))"

text \<open>What \<open>write\<close> promises: no more than it was asked to write. \<open>progress\<close> counts the bytes.\<close>

fun writes_fit :: "write_result list \<Rightarrow> u8 list \<Rightarrow> nat \<Rightarrow> bool" where
  "writes_fit [] buf written = True"
| "writes_fit (Wrote n # rest) buf written =
     (written < length buf \<longrightarrow> n \<le> length buf - written \<and> writes_fit rest buf (written + n))"
| "writes_fit (Write_failed errn # rest) buf written = writes_fit rest buf written"

fun progress :: "write_result \<Rightarrow> nat" where
  "progress (Wrote n) = n"
| "progress (Write_failed errn) = 0"

lemma write_fully_prefix:
  assumes "writes_fit rs buf written" "written \<le> length buf"
    and "write_fully rs buf written = Some (r, out)"
  shows "(r = 0 \<and> out = drop written buf) \<or> (r = -1 \<and> (\<exists>more. out @ more = drop written buf))"
  using assms
proof (induction rs buf written arbitrary: out rule: write_fully.induct)
  case (3 n rest buf written)
  show ?case
  proof (cases "written < length buf")
    case True
    with 3 obtain out1 where o: "write_fully rest buf (written + n) = Some (r, out1)"
      "out = take n (drop written buf) @ out1"
      by auto
    from 3 True have "writes_fit rest buf (written + n)" "written + n \<le> length buf" by auto
    from "3.IH" [OF True this o(1)]
    have "(r = 0 \<and> out1 = drop n (drop written buf)) \<or>
        (r = -1 \<and> (\<exists>more. out1 @ more = drop n (drop written buf)))"
      by (simp add: add.commute)
    with o(2) show ?thesis by (metis append.assoc append_take_drop_id)
  next
    case False
    with 3 show ?thesis by simp
  qed
qed (auto split: if_splits)

lemma write_fully_returns:
  assumes "length buf - written \<le> sum_list (map progress rs)"
    and "\<And>errn. Write_failed errn \<in> set rs \<Longrightarrow> errn = EINTR"
  shows "\<exists>out. write_fully rs buf written = Some (0, out)"
  using assms
proof (induction rs buf written rule: write_fully.induct)
  case (3 n rest buf written)
  show ?case
  proof (cases "written < length buf")
    case True
    with 3 have "\<exists>out. write_fully rest buf (written + n) = Some (0, out)" by (intro "3.IH") auto
    with True show ?thesis by auto
  qed simp
qed auto

text \<open>The complete write of \<open>test_write\<close>: for any way \<open>write\<close> cuts the buffer, and any
  signals between, it returns 0 after the calls that suffice and has written the whole buffer,
  every byte once and in order; whenever it returns -1 it has written a prefix.\<close>

theorem write_fully_correct:
  assumes "writes_fit rs buf 0"
  shows "(write_fully rs buf 0 = Some (r, out) \<longrightarrow>
      (r = 0 \<and> out = buf) \<or> (r = -1 \<and> (\<exists>more. out @ more = buf))) \<and>
    (length buf \<le> sum_list (map progress rs) \<and> (\<forall>errn. Write_failed errn \<in> set rs \<longrightarrow> errn = EINTR) \<longrightarrow>
      write_fully rs buf 0 = Some (0, buf))"
  using write_fully_prefix [OF assms, of r out] write_fully_prefix [OF assms, of 0]
    write_fully_returns [of buf 0 rs] by auto

lemma write_fully_correct_witness:
  "write_fully [Wrote 2, Write_failed EINTR, Wrote 1] [72, 105, 10] 0 = Some (0, [72, 105, 10])"
  using write_fully_correct [of "[Wrote 2, Write_failed EINTR, Wrote 1]" "[72, 105, 10]"] by simp


section \<open>The client program\<close>

text \<open>
  \<open>client_mode_epoll\<close>: connect, relay, and destroy the loop. An exception ends the process.
  The second sender thread is compiled in only with \<open>CLIENT_SELF_SEND_1gbps\<close>, which is 0.
\<close>

definition client_mode_epoll ::
  "fp \<Rightarrow> so_answers \<Rightarrow> setup_answers \<Rightarrow> turn list \<Rightarrow> world \<Rightarrow> (failure \<times> world + world) option" where
  "client_mode_epoll f k s turns w =
     (case create_socket k False of (sock, _, ss) \<Rightarrow>
        let w = emit ss w
        in if sock < 0 then Some (Inr w)
           else case new_epoll sock False False s w of
             Inl (x, e, w) \<Rightarrow> Some (Inl (x, w))
           | Inr (e, w) \<Rightarrow>
               (case exec Epoll_base f turns e w of
                  None \<Rightarrow> None
                | Some (Inl (x, e, w)) \<Rightarrow> Some (Inl (x, w))
                | Some (Inr (e, w)) \<Rightarrow> Some (Inr (snd (fullstop e w)))))"

text \<open>Standard input does not hang up in these turns.\<close>

fun client_turn :: "fd \<Rightarrow> turn \<Rightarrow> bool" where
  "client_turn sock t =
     (case waited t of
        Wait_failed errn \<Rightarrow> True
      | Ready batch \<Rightarrow> list_all (\<lambda>(ev, a). hangs_up ev \<longrightarrow> ev_fd ev = sock) batch)"

definition client_shape :: "fd \<Rightarrow> epoll \<Rightarrow> bool" where
  "client_shape sock e \<longleftrightarrow>
     sockfd e = sock \<and> \<not> is_listen e \<and> clients e = [] \<and> pending_new_socks e = []"

lemma client_shape_event:
  assumes "client_shape sock e" "hangs_up ev \<longrightarrow> ev_fd ev = sock"
    and "exec_event c f a ev e w = Inr (e', w')"
  shows "client_shape sock e'"
  using assms
  by (auto simp: client_shape_def exec_event_def hangs_up_def Let_def handle_stdin_def handle_timer_def
      handle_socket_data_def write_to_stdout_def umap_count_def
      split: if_splits recv_result.splits list.splits)

text \<open>A client accepts nothing: what \<open>accept4\<close> would answer does not matter.\<close>

lemma handlers_ignore_accepts [simp]:
  "handle_stdin (a\<lparr>a_accepts := rs\<rparr>) e w = handle_stdin a e w"
  "handle_timer f (a\<lparr>a_accepts := rs\<rparr>) e w = handle_timer f a e w"
  "\<not> is_listen e \<Longrightarrow> handle_socket_data c (a\<lparr>a_accepts := rs\<rparr>) e w = handle_socket_data c a e w"
  by (simp_all add: handle_stdin_def handle_timer_def handle_socket_data_def write_to_stdout_def Let_def
      split: recv_result.split list.split)

lemma client_event_accepts:
  assumes "client_shape sock e"
  shows "exec_event c f (a\<lparr>a_accepts := []\<rparr>) ev e w = exec_event c f a ev e w"
  using assms
  by (simp add: client_shape_def exec_event_def Let_def umap_count_def)

lemma client_event_holds:
  assumes "client_shape sock e" "hangs_up ev \<longrightarrow> ev_fd ev = sock" "holds S0 L e w"
    and "exec_event c f a ev e w = Inr (e', w')"
  shows "holds S0 L e' w'"
proof -
  have ok: "event_ok e ev"
    using assms(1,2) by (simp add: event_ok_def client_shape_def)
  have r: "exec_event c f (a\<lparr>a_accepts := []\<rparr>) ev e w = Inr (e', w')"
    using assms(1,4) by (simp add: client_event_accepts)
  from exec_event_frame [OF assms(3) ok r] assms(3) show ?thesis by auto
qed

lemma client_events_hold:
  assumes "client_shape sock e" "list_all (\<lambda>(ev, a). hangs_up ev \<longrightarrow> ev_fd ev = sock) batch"
    and "holds S0 L e w" "exec_events c f batch e w = Inr (e', w')"
  shows "client_shape sock e' \<and> holds S0 L e' w'"
  using assms
proof (induction batch arbitrary: e w)
  case Nil
  then show ?case by simp
next
  case (Cons x batch)
  obtain ev a where x: "x = (ev, a)" by (cases x)
  obtain e1 w1 where s: "exec_event c f a ev e w = Inr (e1, w1)"
    and r: "exec_events c f batch e1 w1 = Inr (e', w')"
    using Cons.prems(4) by (auto simp: x then_do_def split: sum.splits)
  have ev: "hangs_up ev \<longrightarrow> ev_fd ev = sock" using Cons.prems(2) by (simp add: x)
  have "list_all (\<lambda>(ev, a). hangs_up ev \<longrightarrow> ev_fd ev = sock) batch" using Cons.prems(2) by simp
  from Cons.IH [OF client_shape_event [OF Cons.prems(1) ev s] this
      client_event_holds [OF Cons.prems(1) ev Cons.prems(3) s] r] show ?case .
qed

lemma client_exec_holds:
  assumes "client_shape sock e" "list_all (client_turn sock) turns" "holds S0 L e w"
    and "exec c f turns e w = Some (Inr (e', w'))"
  shows "holds S0 L e' w'"
  using assms
proof (induction turns arbitrary: e w)
  case Nil
  then show ?case by (simp split: if_splits)
next
  case (Cons t turns)
  let ?w = "if signalled t then stop_signal_handler w else w"
  have h: "holds S0 L e ?w"
    using Cons.prems(3) by (simp add: holds_def stop_signal_handler_def)
  show ?case
  proof (cases "stdin_closed e \<or> socket_closed e \<or> g_should_stop ?w")
    case True
    with Cons.prems(3,4) h show ?thesis by (auto simp: Let_def split: if_splits)
  next
    case False
    show ?thesis
    proof (cases "waited t")
      case (Wait_failed errn)
      with False Cons.prems(4) have "exec c f turns e ?w = Some (Inr (e', w'))"
        by (auto simp: Let_def split: if_splits)
      from Cons.IH [OF Cons.prems(1) _ h this] Cons.prems(2) show ?thesis by simp
    next
      case (Ready batch)
      with False Cons.prems(4) obtain e1 w1 where b: "exec_events c f batch e ?w = Inr (e1, w1)"
        and r: "exec c f turns e1 w1 = Some (Inr (e', w'))"
        by (auto simp: Let_def split: sum.splits)
      have "list_all (\<lambda>(ev, a). hangs_up ev \<longrightarrow> ev_fd ev = sock) batch"
        using Cons.prems(2) Ready by simp
      from client_events_hold [OF Cons.prems(1) this h b] Cons.IH [OF _ _ _ r] Cons.prems(2)
      show ?thesis by simp
    qed
  qed
qed

text \<open>The client program as a whole, from \<open>socket\<close> to the destructor of the loop: when it
  returns, every descriptor it opened is closed again, once, and the descriptors that were open
  before are as they were, unless standard input hangs up (\<open>client_turn\<close>; the loop takes that for
  the end of a client and closes descriptor 0).\<close>

theorem client_mode_closes:
  assumes "so_contract B k" "setup_fresh (insert (so_socket k) B) s"
    and "list_all (client_turn (so_socket k)) turns" "calls w = []"
    and "client_mode_epoll f k s turns w = Some (Inr w')"
  shows "replay (calls w') B = Some B"
proof -
  obtain sock err ss where k: "create_socket k False = (sock, err, ss)"
    by (cases "create_socket k False") auto
  from create_socket_sound [OF assms(1), of False] k have sound: "sound_setup B k (sock, err, ss)" by simp
  show ?thesis
  proof (cases "sock < 0")
    case True
    then have "sock = -1" using sound assms(1)
      by (auto simp: sound_setup_def so_contract_def split: if_splits)
    with True k assms(4,5) sound show ?thesis
      by (auto simp: client_mode_epoll_def sound_setup_def)
  next
    case False
    then have sock: "sock = so_socket k" "sock \<notin> B" "0 \<le> sock" "replay ss B = Some (insert sock B)"
      using sound by (auto simp: sound_setup_def)
    obtain e w1 where n: "new_epoll sock False False s (emit ss w) = Inr (e, w1)"
      using False k assms(5) by (auto simp: client_mode_epoll_def Let_def split: sum.splits prod.splits)
    obtain e2 w2 where r: "exec Epoll_base f turns e w1 = Some (Inr (e2, w2))"
      and w': "w' = snd (fullstop e2 w2)"
      using False k n assms(5)
      by (auto simp: client_mode_epoll_def Let_def split: sum.splits prod.splits option.splits)
    have o: "set (open_fd sock) = {sock}" using sock(3) by (simp add: open_fd_def)
    have h: "holds B B e w1" "client_shape sock e"
      using holds_new_epoll [OF n, of B B, unfolded o] sock(2,4) assms(2,4) sock(1) [symmetric]
      by (auto simp: client_shape_def)
    have "list_all (client_turn sock) turns" using assms(3) sock(1) by simp
    from client_exec_holds [OF h(2) this h(1) r] have "holds B B e2 w2" .
    then have "holds B B (fst (fullstop e2 w2)) w' \<and> owned (fst (fullstop e2 w2)) = []"
      using holds_fullstop [of B B e2 w2] w' by (metis prod.collapse)
    then show ?thesis by (auto simp: holds_def)
  qed
qed

lemma client_mode_closes_witness:
  "\<exists>w'. client_mode_epoll demo_fp demo_socket (demo_setup 4)
      [\<lparr>signalled = False, waited = Ready [(\<lparr>ev_fd = 0, evs = 1\<rparr>, demo_answers\<lparr>a_stdin := Received []\<rparr>)]\<rparr>]
      \<lparr>g_should_stop = False, calls = [], subepolls = []\<rparr> = Some (Inr w') \<and>
    replay (calls w') {0, 1, 2} = Some {0, 1, 2} \<and> closed_fds (calls w') = [3, 4, 5]"
proof -
  let ?turns = "[\<lparr>signalled = False, waited = Ready [(\<lparr>ev_fd = 0, evs = 1\<rparr>, demo_answers\<lparr>a_stdin := Received []\<rparr>)]\<rparr>]"
  have k: "so_contract {0, 1, 2} demo_socket" by (simp add: so_contract_def demo_socket_def)
  have s: "setup_fresh (insert (so_socket demo_socket) {0, 1, 2}) (demo_setup 4)"
    by (simp add: setup_fresh_def setup_fds_def demo_setup_def demo_socket_def)
  have t: "list_all (client_turn (so_socket demo_socket)) ?turns"
    by (simp add: hangs_up_def epoll_flags)
  obtain w' where r: "client_mode_epoll demo_fp demo_socket (demo_setup 4) ?turns
      \<lparr>g_should_stop = False, calls = [], subepolls = []\<rparr> = Some (Inr w')"
    and c: "closed_fds (calls w') = [3, 4, 5]"
    by (simp add: client_mode_epoll_def create_socket_def demo_socket_def demo_setup_def new_epoll_def
        setup_epoll_def setup_add_def opened_def exec_event_def epoll_flags Let_def then_do_def
        STDIN_FILENO_def handle_stdin_def fullstop_eq owned_def open_fd_def)
  from client_mode_closes [OF k s t _ r] c r show ?thesis by auto
qed


section \<open>The paced sender\<close>

text \<open>
  The thread \<open>client_mode_epoll\<close> starts when it is compiled with \<open>CLIENT_SELF_SEND_1gbps\<close>:
  it sends random bytes at a target rate. One turn of its loop reads the clock (in nanoseconds)
  and, unless it sleeps, writes; the list holds the clock and the answer to the write of each
  turn. The result are the times and sizes of the writes.
\<close>

definition TARGET_BPS :: nat where "TARGET_BPS = 125000000"   \<comment> \<open>bytes per second\<close>
definition BUFFER_SIZE :: nat where "BUFFER_SIZE = 65536"
definition INTERVAL :: nat where "INTERVAL = 100"              \<comment> \<open>milliseconds\<close>

definition bytes_to_send :: nat where
  "bytes_to_send = min BUFFER_SIZE (TARGET_BPS * INTERVAL div 1000)"

fun paced_sender :: "(time \<times> write_result) list \<Rightarrow> time \<Rightarrow> nat \<Rightarrow> (time \<times> nat) list" where
  "paced_sender [] interval_start bytes_sent = []"
| "paced_sender ((now, r) # rest) interval_start bytes_sent =
     (let elapsed_ms = nat ((now - interval_start) div 1000000);
          over = INTERVAL \<le> elapsed_ms;
          bytes_allowed = TARGET_BPS * elapsed_ms div 1000;
          start = (if over then now else interval_start);
          sent = (if over then 0 else bytes_sent)
      in if \<not> over \<and> bytes_allowed \<le> bytes_sent
         then paced_sender rest interval_start bytes_sent
         else case r of
           Wrote n \<Rightarrow> (now, n) # paced_sender rest start (sent + n)
         | Write_failed errn \<Rightarrow>
             if errn \<noteq> EAGAIN \<and> errn \<noteq> EWOULDBLOCK then [] else paced_sender rest start sent)"

lemma paced_bound:
  assumes "sorted (interval_start # map fst xs)" "\<forall>t r. (t, r) \<in> set xs \<longrightarrow> t \<le> T"
    and "\<forall>t n. (t, Wrote n) \<in> set xs \<longrightarrow> n \<le> bytes_to_send"
    and "bytes_sent \<le> 12500000" "interval_start \<le> T"
  shows "int (bytes_sent + sum_list (map snd (paced_sender xs interval_start bytes_sent)))
    \<le> 12500000 * ((T - interval_start) div 100000000 + 1)"
  using assms
proof (induction xs arbitrary: interval_start bytes_sent)
  case (Nil s b)
  then have "0 \<le> (T - s) div 100000000" by (simp add: pos_imp_zdiv_nonneg_iff)
  with Nil show ?case by simp
next
  case (Cons x rest s b)
  obtain now r where x: "x = (now, r)" by (cases x)
  let ?ms = "nat ((now - s) div 1000000)"
  let ?over = "INTERVAL \<le> ?ms"
  have now: "s \<le> now" "now \<le> T" "sorted (now # map fst rest)" "sorted (s # map fst rest)"
    using Cons.prems(1,2) by (auto simp: x)
  have rest: "\<forall>t r. (t, r) \<in> set rest \<longrightarrow> t \<le> T"
    "\<forall>t n. (t, Wrote n) \<in> set rest \<longrightarrow> n \<le> bytes_to_send"
    using Cons.prems(2,3) by (auto simp: x)
  show ?case
  proof (cases "\<not> ?over \<and> TARGET_BPS * ?ms div 1000 \<le> b")
    case True
    then have "paced_sender (x # rest) s b = paced_sender rest s b" by (simp add: x Let_def)
    with Cons.IH [OF now(4) rest Cons.prems(4,5)] show ?thesis by simp
  next
    case False
    define s' where "s' = (if ?over then now else s)"
    define b' where "b' = (if ?over then 0 else b)"
    have s': "sorted (s' # map fst rest)" "s' \<le> T" using now Cons.prems(5) by (auto simp: s'_def)
    have room: "b' + bytes_to_send \<le> 12500000" "b' \<le> 12500000"
      using False by (auto simp: b'_def INTERVAL_def TARGET_BPS_def bytes_to_send_def BUFFER_SIZE_def)
    have paid: "int b + 12500000 * ((T - s') div 100000000 + 1) - int b'
        \<le> 12500000 * ((T - s) div 100000000 + 1)"
    proof (cases ?over)
      case True
      then have "100000000 \<le> now - s" by (simp add: INTERVAL_def)
      then have "(T - now) div 100000000 + 1 \<le> (T - s) div 100000000" using now(1,2) by linarith
      with True Cons.prems(4) show ?thesis by (simp add: s'_def b'_def)
    qed (simp add: s'_def b'_def)
    show ?thesis
    proof (cases r)
      case (Wrote n)
      then have n: "n \<le> bytes_to_send" using Cons.prems(3) by (auto simp: x)
      have "int (b' + n + sum_list (map snd (paced_sender rest s' (b' + n))))
          \<le> 12500000 * ((T - s') div 100000000 + 1)"
        using room n by (intro Cons.IH s' rest) simp
      moreover have "paced_sender (x # rest) s b = (now, n) # paced_sender rest s' (b' + n)"
        using False Wrote by (auto simp: x Let_def s'_def b'_def)
      ultimately show ?thesis using paid by simp
    next
      case (Write_failed errn)
      have "paced_sender (x # rest) s b =
          (if errn \<noteq> EAGAIN \<and> errn \<noteq> EWOULDBLOCK then [] else paced_sender rest s' b')"
        using False Write_failed by (auto simp: x Let_def s'_def b'_def)
      moreover have "0 \<le> (T - s') div 100000000" using s'(2) by (simp add: pos_imp_zdiv_nonneg_iff)
      ultimately show ?thesis
        using paid room(2) Cons.IH [OF s'(1) rest room(2) s'(2)] by auto
    qed
  qed
qed

text \<open>C34: The paced sender keeps its rate: whatever part of a buffer the kernel accepts, and
  however late its turns come, up to any time \<open>T\<close> of the steady clock it sends at most 12500000
  bytes, a tenth of a second at one gigabit per second, for every tenth of a second begun.\<close>

theorem paced_sender_rate:
  assumes "sorted (t0 # map fst xs)" "\<forall>t r. (t, r) \<in> set xs \<longrightarrow> t \<le> T" "t0 \<le> T"
    and "\<forall>t n. (t, Wrote n) \<in> set xs \<longrightarrow> n \<le> bytes_to_send"
  shows "int (sum_list (map snd (paced_sender xs t0 0)))
    \<le> 12500000 * ((T - t0) div 100000000 + 1)"
  using paced_bound [OF assms(1,2,4) _ assms(3), of 0] by simp

lemma paced_sender_rate_witness:
  "map snd (paced_sender [(0, Wrote 7), (1000000, Wrote 65536), (1500000, Wrote 65536),
      (2000000, Write_failed EAGAIN), (2000000, Wrote 65536), (100000000, Wrote 1)] 0 0) =
    [65536, 65536, 65536, 1] \<and>
   int (sum_list (map snd (paced_sender [(0, Wrote 7), (1000000, Wrote 65536), (1500000, Wrote 65536),
      (2000000, Write_failed EAGAIN), (2000000, Wrote 65536), (100000000, Wrote 1)] 0 0)))
    \<le> 12500000 * ((100000000 - 0) div 100000000 + 1)"
proof -
  let ?xs = "[(0 :: time, Wrote 7), (1000000, Wrote 65536), (1500000, Wrote 65536),
      (2000000, Write_failed EAGAIN), (2000000, Wrote 65536), (100000000, Wrote 1)]"
  have "map snd (paced_sender ?xs 0 0) = [65536, 65536, 65536, 1]"
    by (simp add: Let_def INTERVAL_def TARGET_BPS_def)
  moreover have "sorted ((0 :: time) # map fst ?xs)" "\<forall>t r. (t, r) \<in> set ?xs \<longrightarrow> t \<le> (100000000 :: time)"
    "\<forall>t n. (t, Wrote n) \<in> set ?xs \<longrightarrow> n \<le> bytes_to_send"
    by (auto simp: bytes_to_send_def BUFFER_SIZE_def TARGET_BPS_def INTERVAL_def)
  ultimately show ?thesis using paced_sender_rate [of 0 ?xs 100000000] by simp
qed


section \<open>The programs over \<open>io_uring\<close>\<close>

text \<open>
  \<open>listen_mode_iouring\<close> and \<open>client_mode_iouring\<close>: the socket, the relay, its loop and its
  destructor, with the answers of each. The result are the calls that open and close descriptors
  and move data. Nobody closes the socket itself: it is left to the end of the process.
\<close>

definition relay_program ::
  "fp \<Rightarrow> fd \<Rightarrow> bool \<Rightarrow> relay_answers \<Rightarrow> int \<Rightarrow> fd \<Rightarrow> int \<Rightarrow> cqe list \<Rightarrow> (failure \<times> sys list + sys list) option"
where
  "relay_program f sock listen a ring created armed xs =
     (case new_relay a ring created armed sock listen of
        Inl x \<Rightarrow> Some (Inl (x, []))
      | Inr r \<Rightarrow>
          (case relay_exec f xs r of
             None \<Rightarrow> None
           | Some (Inl (x, r)) \<Rightarrow> Some (Inl (x, rcalls r))
           | Some (Inr r) \<Rightarrow> Some (Inr (rcalls (destroy_relay r)))))"

definition listen_mode_iouring ::
  "fp \<Rightarrow> so_answers \<Rightarrow> relay_answers \<Rightarrow> int \<Rightarrow> fd \<Rightarrow> int \<Rightarrow> cqe list \<Rightarrow> sys list \<times> (failure \<times> sys list + sys list) option"
where
  "listen_mode_iouring f k a ring created armed xs =
     (case create_socket k True of (listen_fd, _, ss) \<Rightarrow>
        (ss, if listen_fd < 0 then Some (Inr [])
             else relay_program f listen_fd True a ring created armed xs))"

definition client_mode_iouring ::
  "fp \<Rightarrow> so_answers \<Rightarrow> relay_answers \<Rightarrow> int \<Rightarrow> cqe list \<Rightarrow> sys list \<times> (failure \<times> sys list + sys list) option"
where
  "client_mode_iouring f k a ring xs =
     (case create_socket k False of (sock, _, ss) \<Rightarrow>
        (ss, if sock < 0 then Some (Inr []) else relay_program f sock False a ring (-1) (-1) xs))"

text \<open>The server over \<open>io_uring\<close>, from the socket to the end of the program: when it returns,
  whatever completions the ring gave it, the listening socket is the only descriptor that is
  still open of those it opened; a socket that cannot be made leaves none.\<close>

theorem listen_iouring_leaves_socket:
  assumes "so_contract {} k" "listen_mode_iouring f k a ring created armed xs = (ss, Some (Inr rs))"
    and "created = -1 \<or> 0 \<le> created"
    and "\<forall>r. new_relay a ring created armed (so_socket k) True = Inr r \<longrightarrow> relay_offers f (\<lambda>a. True) xs r"
  shows "replay rs {} = Some {} \<and>
    replay ss {} = Some (if fst (create_socket k True) < 0 then {} else {so_socket k})"
proof -
  obtain sock err ss' where k: "create_socket k True = (sock, err, ss')"
    by (cases "create_socket k True") auto
  have ss: "ss = ss'" using assms(2) k by (simp add: listen_mode_iouring_def)
  from create_socket_sound [OF assms(1), of True] k ss
  have sound: "sound_setup {} k (sock, err, ss)" by simp
  show ?thesis
  proof (cases "sock < 0")
    case True
    then have "sock = -1" using sound assms(1)
      by (auto simp: sound_setup_def so_contract_def split: if_splits)
    with True sound k assms(2) show ?thesis
      by (auto simp: sound_setup_def listen_mode_iouring_def)
  next
    case False
    then have sock: "sock = so_socket k" "replay ss {} = Some {sock}"
      using sound by (auto simp: sound_setup_def)
    have p: "relay_program f sock True a ring created armed xs = Some (Inr rs)"
      using False k assms(2) by (simp add: listen_mode_iouring_def)
    then obtain r r' where n: "new_relay a ring created armed sock True = Inr r"
      and x: "relay_exec f xs r = Some (Inr r')" and rs: "rs = rcalls (destroy_relay r')"
      by (auto simp: relay_program_def split: sum.splits option.splits prod.splits)
    have "relay_steps f (\<lambda>a. True) r r'"
      using relay_exec_steps [OF x _ relay_steps.start] assms(4) n sock(1) by auto
    from relay_steps_fds_ok [OF this] relay_start(2,4) [OF n] assms(3)
    have "replay rs {} = Some {}" unfolding rs by (intro destroy_closes_all) auto
    with sock False k show ?thesis by simp
  qed
qed

lemma listen_iouring_leaves_socket_witness:
  "\<exists>ss rs. listen_mode_iouring demo_fp demo_socket (demo_ring 0) 0 7 0
      [Cqe (demo_request ACCEPT 3 1) 9 [] (demo_ring 1), Cqe (demo_request STDIN_READ 0 0) 0 [] (demo_ring 2)]
      = (ss, Some (Inr rs)) \<and>
    replay rs {} = Some {} \<and> replay ss {} = Some {3} \<and> closed_fds rs = [9, 7]"
proof -
  let ?xs = "[Cqe (demo_request ACCEPT 3 1) 9 [] (demo_ring 1),
    Cqe (demo_request STDIN_READ 0 0) 0 [] (demo_ring 2)]"
  have k: "so_contract {} demo_socket" by (simp add: so_contract_def demo_socket_def)
  obtain ss rs where p: "listen_mode_iouring demo_fp demo_socket (demo_ring 0) 0 7 0 ?xs = (ss, Some (Inr rs))"
    and c: "closed_fds rs = [9, 7]"
    by (simp add: listen_mode_iouring_def relay_program_def create_socket_def demo_socket_def
        demo_relay_defs submit_client_read_def destroy_relay_def handle_stdin_read_def)
  have o: "\<forall>r. new_relay (demo_ring 0) 0 7 0 (so_socket demo_socket) True = Inr r \<longrightarrow>
      relay_offers demo_fp (\<lambda>a. True) ?xs r"
    by (simp add: demo_socket_def demo_relay_defs offered_def)
  have "fst (create_socket demo_socket True) = 3" "so_socket demo_socket = 3"
    by (simp_all add: create_socket_def demo_socket_def)
  with listen_iouring_leaves_socket [OF k p _ o] p c show ?thesis by auto
qed

end
