(* ===== verification/ServerProgram.thy ===== *)
theory ServerProgram
  imports EpollBehaviour SocketSetup
begin

text \<open>
  The multi-threaded server as one program: \<open>listen_mode_epoll\<close> of \<open>mync/epollserver.cpp\<close> with
  the worker threads of \<open>ThreadData\<close> and the destructor \<open>~MainEpoll\<close> of \<open>mync/epollserver.h\<close>. Each
  thread has a program counter; a step of the program is a step of one thread or the signal.
  Here the workers are created before the first of them runs; \<open>ServerStartup\<close> lifts this. Shown
  are who owns the descriptors at every step, that the steps left after the signal are bounded, when
  the program does not end, and the use of a loop its worker has already deleted. The report the
  main loop prints every second is at the end.
\<close>


section \<open>One loop, step by step\<close>

text \<open>
  Where a thread is: at the test of its loop, with the events of its last \<open>epoll_wait\<close> still to
  be handled, behind the loop, or gone. The test and the wait are one step: what another thread
  does in between is as if it came after the wait, which looks at nothing they share.
\<close>

datatype loop_at =
    At_test
  | Handling "(epoll_event \<times> answers) list"
  | Behind_loop
  | Gone

fun is_gone :: "loop_at \<Rightarrow> bool" where
  "is_gone Gone = True"
| "is_gone _ = False"

lemma is_gone_simps [simp]:
  "is_gone p \<longleftrightarrow> p = Gone"
  "list_all is_gone ps \<longleftrightarrow> list_all (\<lambda>p. p = Gone) ps" "list_ex is_gone ps \<longleftrightarrow> Gone \<in> set ps"
proof -
  show e: "is_gone p \<longleftrightarrow> p = Gone" for p by (cases p) simp_all
  show "list_all is_gone ps \<longleftrightarrow> list_all (\<lambda>p. p = Gone) ps" "list_ex is_gone ps \<longleftrightarrow> Gone \<in> set ps"
    by (auto simp: list_all_iff list_ex_iff e)
qed

definition loop_step :: "class_tag \<Rightarrow> fp \<Rightarrow> wait_result \<Rightarrow> loop_at \<Rightarrow> epoll \<Rightarrow> world
    \<Rightarrow> (failure \<times> epoll \<times> world) + (loop_at \<times> epoll \<times> world)" where
  "loop_step c f r pos e w =
     (case pos of
        At_test \<Rightarrow>
          if stdin_closed e \<or> socket_closed e \<or> g_should_stop w then Inr (Behind_loop, e, w)
          else (case r of
                  Wait_failed errn \<Rightarrow>
                    if errn = EINTR then Inr (At_test, e, w)
                    else Inl (Thrown (Runtime_error ''epoll_wait''), e, w)
                | Ready batch \<Rightarrow> Inr (Handling batch, e, w))
      | Handling [] \<Rightarrow> Inr (At_test, e, w)
      | Handling ((ev, a) # rest) \<Rightarrow>
          (case exec_event c f a ev e w of
             Inl x \<Rightarrow> Inl x
           | Inr (e, w) \<Rightarrow> Inr (Handling rest, e, w))
      | _ \<Rightarrow> Inr (pos, e, w))"

text \<open>A loop on its own, from step to step: the waits it still makes are the list.\<close>

inductive loop_runs :: "class_tag \<Rightarrow> fp \<Rightarrow> wait_result list \<Rightarrow> loop_at \<times> epoll \<times> world
    \<Rightarrow> (failure \<times> epoll \<times> world) + (epoll \<times> world) \<Rightarrow> bool" for c f where
  ends: "loop_runs c f rs (Behind_loop, e, w) (Inr (e, w))"
| fails: "loop_step c f (case rs of [] \<Rightarrow> Ready [] | r # _ \<Rightarrow> r) pos e w = Inl x \<Longrightarrow>
     loop_runs c f rs (pos, e, w) (Inl x)"
| handles: "loop_step c f r (Handling batch) e w = Inr s \<Longrightarrow> loop_runs c f rs s x \<Longrightarrow>
     loop_runs c f rs (Handling batch, e, w) x"
| waits: "loop_step c f r At_test e w = Inr s \<Longrightarrow> loop_runs c f rs s x \<Longrightarrow>
     loop_runs c f (r # rs) (At_test, e, w) x"

text \<open>One batch, step by step.\<close>

lemma batch_runs:
  "(case exec_events c f batch e w of
      Inl x \<Rightarrow> loop_runs c f rs (Handling batch, e, w) (Inl x)
    | Inr (e1, w1) \<Rightarrow> loop_runs c f rs (At_test, e1, w1) res \<longrightarrow>
        loop_runs c f rs (Handling batch, e, w) res)"
proof (induction batch arbitrary: e w)
  case Nil
  have "loop_step c f (Ready []) (Handling []) e w = Inr (At_test, e, w)" by (simp add: loop_step_def)
  from loop_runs.handles [OF this] show ?case by simp
next
  case (Cons x batch)
  obtain ev a where x: "x = (ev, a)" by (cases x)
  show ?case
  proof (cases "exec_event c f a ev e w")
    case (Inl y)
    then have "loop_step c f (case rs of [] \<Rightarrow> Ready [] | r # _ \<Rightarrow> r) (Handling (x # batch)) e w = Inl y"
      by (simp add: loop_step_def x)
    from loop_runs.fails [OF this] Inl show ?thesis by (simp add: x then_do_def)
  next
    case (Inr s)
    obtain e1 w1 where s: "s = (e1, w1)" by (cases s)
    have h: "loop_step c f (Ready []) (Handling (x # batch)) e w = Inr (Handling batch, e1, w1)"
      using Inr by (simp add: loop_step_def x s)
    have "exec_events c f (x # batch) e w = exec_events c f batch e1 w1"
      using Inr by (simp add: x s then_do_def)
    with Cons.IH [of e1 w1] show ?thesis
      using loop_runs.handles [OF h] by (auto split: sum.splits prod.splits)
  qed
qed



section \<open>The program\<close>

datatype outcome = Running | Returned | Terminated exn | Faulted fault

record server_program =
  main_loop :: epoll
  shared :: world                \<comment> \<open>the flag, the calls, and the workers' loops\<close>
  main_at :: loop_at
  worker_at :: "loop_at list"    \<comment> \<open>the thread of each loop in \<open>subepolls\<close>\<close>
  outcome :: outcome

text \<open>An exception that leaves \<open>exec\<close> leaves the thread, in a worker and in \<open>main\<close>.\<close>

fun failed :: "failure \<Rightarrow> outcome" where
  "failed (Thrown x) = Terminated x"
| "failed (Undefined x) = Faulted x"

text \<open>
  Whether a handler of the main loop follows the pointers in \<open>subepolls_\<close>: \<open>balance_socket\<close> for
  an accepted connection, \<open>show_shared_stats\<close> on the timer.
\<close>

definition follows_subepolls :: "epoll \<Rightarrow> epoll_event \<Rightarrow> answers \<Rightarrow> bool" where
  "follows_subepolls m ev a \<longleftrightarrow>
     readable ev \<and> \<not> (0 < wakeup_fd m \<and> ev_fd ev = wakeup_fd m) \<and> ev_fd ev \<noteq> STDIN_FILENO \<and>
     (if ev_fd ev = timerfd m then a_timer_read a = 8 \<and> show_timer_stats m
      else 0 < sockfd m \<and> ev_fd ev = sockfd m \<and> is_listen m \<and>
        (case a_accepts a of Accepted _ _ # _ \<Rightarrow> True | _ \<Rightarrow> False))"

fun uses_freed :: "loop_at \<Rightarrow> server_program \<Rightarrow> bool" where
  "uses_freed (Handling ((ev, a) # rest)) s =
     (follows_subepolls (main_loop s) ev a \<and> list_ex is_gone (worker_at s))"
| "uses_freed _ s = False"

text \<open>
  \<open>~MainEpoll\<close>: the workers are joined, that is, the thread waits until each is gone; only then
  does \<open>~Epoll\<close> run \<open>fullstop\<close>, which raises the flag.
\<close>

definition destroy_main :: "server_program \<Rightarrow> server_program option" where
  "destroy_main s =
     (if list_all is_gone (worker_at s)
      then (case fullstop (main_loop s) ((shared s)\<lparr>subepolls := []\<rparr>) of
              (m, w) \<Rightarrow> Some (s\<lparr>main_loop := m, shared := w, worker_at := [], main_at := Gone,
                                outcome := Returned\<rparr>))
      else None)"

definition main_step :: "fp \<Rightarrow> wait_result \<Rightarrow> server_program \<Rightarrow> server_program option" where
  "main_step f r s =
     (case main_at s of
        Gone \<Rightarrow> None
      | Behind_loop \<Rightarrow> destroy_main s
      | pos \<Rightarrow>
          if uses_freed pos s then Some (s\<lparr>outcome := Faulted Use_after_free\<rparr>)
          else (case loop_step Main_epoll f r pos (main_loop s) (shared s) of
                  Inl (x, m, w) \<Rightarrow> Some (s\<lparr>main_loop := m, shared := w, outcome := failed x\<rparr>)
                | Inr (pos, m, w) \<Rightarrow> Some (s\<lparr>main_loop := m, shared := w, main_at := pos\<rparr>)))"

definition put_worker :: "nat \<Rightarrow> loop_at \<Rightarrow> epoll \<Rightarrow> world \<Rightarrow> server_program \<Rightarrow> server_program" where
  "put_worker i pos e w s =
     s\<lparr>shared := w\<lparr>subepolls := (subepolls w)[i := e]\<rparr>, worker_at := (worker_at s)[i := pos]\<rparr>"

text \<open>\<open>worker_thread_func\<close>: the loop, then \<open>delete\<close>, whose destructor runs \<open>fullstop\<close>.\<close>

definition worker_thread_func :: "fp \<Rightarrow> nat \<Rightarrow> wait_result \<Rightarrow> server_program \<Rightarrow> server_program option"
where
  "worker_thread_func f i r s =
     (if length (worker_at s) \<le> i then None
      else let e = subepolls (shared s) ! i in
        case worker_at s ! i of
          Gone \<Rightarrow> None
        | Behind_loop \<Rightarrow> (case fullstop e (shared s) of (e, w) \<Rightarrow> Some (put_worker i Gone e w s))
        | pos \<Rightarrow>
            (case loop_step Epoll_base f r pos e (shared s) of
               Inl (x, e, w) \<Rightarrow> Some ((put_worker i pos e w s)\<lparr>outcome := failed x\<rparr>)
             | Inr (pos, e, w) \<Rightarrow> Some (put_worker i pos e w s)))"

datatype step_of = Main wait_result | Worker nat wait_result | Signal

fun program_step :: "fp \<Rightarrow> step_of \<Rightarrow> server_program \<Rightarrow> server_program option" where
  "program_step f act s =
     (if outcome s \<noteq> Running then None
      else case act of
        Main r \<Rightarrow> main_step f r s
      | Worker i r \<Rightarrow> worker_thread_func f i r s
      | Signal \<Rightarrow> Some (s\<lparr>shared := stop_signal_handler (shared s)\<rparr>))"

fun program_run :: "fp \<Rightarrow> step_of list \<Rightarrow> server_program \<Rightarrow> server_program option" where
  "program_run f [] s = Some s"
| "program_run f (act # acts) s = Option.bind (program_step f act s) (program_run f acts)"

text \<open>
  \<open>listen_mode_epoll\<close>: the socket, the loops and their threads, then the threads' steps. Without
  a socket it returns at once. A thread that is started before the last one is created runs only
  then in this schedule.
\<close>

definition server_main :: "epoll \<Rightarrow> world \<Rightarrow> server_program" where
  "server_main m w = \<lparr>main_loop = m, shared = w, main_at = At_test,
     worker_at = replicate (length (subepolls w)) At_test, outcome = Running\<rparr>"

definition start_server ::
  "so_answers \<Rightarrow> setup_answers \<Rightarrow> (setup_answers \<times> bool) list \<Rightarrow> world
    \<Rightarrow> (failure \<times> world) + (world + server_program)" where
  "start_server k s ws w =
     (case create_socket k True of (listen_fd, _, ss) \<Rightarrow>
        let w = emit ss w
        in if listen_fd < 0 then Inr (Inl w)
           else case new_main_epoll listen_fd True s ws w of
             Inl (x, _, w) \<Rightarrow> Inl (x, w)
           | Inr (m, w) \<Rightarrow> Inr (Inr (server_main m w)))"

definition listen_mode_epoll ::
  "fp \<Rightarrow> so_answers \<Rightarrow> setup_answers \<Rightarrow> (setup_answers \<times> bool) list \<Rightarrow> step_of list \<Rightarrow> world
    \<Rightarrow> ((failure \<times> world) + (world + server_program)) option" where
  "listen_mode_epoll f k s ws acts w =
     (case start_server k s ws w of
        Inl x \<Rightarrow> Some (Inl x)
      | Inr (Inl w) \<Rightarrow> Some (Inr (Inl w))
      | Inr (Inr p) \<Rightarrow> map_option (Inr \<circ> Inr) (program_run f acts p))"

lemma program_run_append:
  "program_run f (xs @ ys) s = Option.bind (program_run f xs s) (program_run f ys)"
  by (induction xs arbitrary: s) (auto split: bind_split)

section \<open>After the signal\<close>

text \<open>No handler touches the flag, and none changes the number of the workers.\<close>

lemma accept_connections_world:
  assumes "accept_connections c a rs e w = Inr (e', w')"
  shows "g_should_stop w' = g_should_stop w \<and> length (subepolls w') = length (subepolls w) \<and>
    (c = Epoll_base \<longrightarrow> subepolls w' = subepolls w)"
  using assms
proof (induction rs arbitrary: e w)
  case Nil
  then show ?case by simp
next
  case (Cons r rs)
  show ?case
  proof (cases r)
    case (Accept_failed errn)
    with Cons.prems show ?thesis by (auto split: if_splits)
  next
    case (Accepted fd addr)
    define st where "st = (new_stats (a_now a))\<lparr>ip := addr\<rparr>"
    obtain b w1 where b: "balance_socket c fd st (emit [Opened fd] w) = Inr (b, w1)"
      using Cons.prems by (auto simp: Accepted st_def Let_def simp del: balance_socket.simps split: sum.splits)
    have w1: "g_should_stop w1 = g_should_stop w \<and> length (subepolls w1) = length (subepolls w) \<and>
        (c = Epoll_base \<longrightarrow> subepolls w1 = subepolls w)"
      using b by (cases c) (auto simp: Let_def split: if_splits option.splits)
    obtain e2 w2 where r2: "accept_connections c a rs e2 w2 = Inr (e', w')"
      and w2: "g_should_stop w2 = g_should_stop w1 \<and> subepolls w2 = subepolls w1"
      using Cons.prems b
      by (cases b) (auto simp: Accepted st_def [symmetric] Let_def add_fd_def
          simp del: balance_socket.simps split: if_splits bool.splits)
    from Cons.IH [OF r2] w1 w2 show ?thesis by simp
  qed
qed

lemma drain_pending_world:
  "g_should_stop (snd (drain_pending a ps e w)) = g_should_stop w \<and>
   subepolls (snd (drain_pending a ps e w)) = subepolls w"
proof (induction ps arbitrary: e w)
  case (Cons p ps)
  obtain fd st where p: "p = (fd, st)" by (cases p)
  show ?case
    using Cons.IH [of "e\<lparr>clients := umap_emplace fd st (clients e)\<rparr>" "snd (add_fd a fd e w)"]
    by (simp add: p add_fd_def)
qed simp

lemma drain_pending_flag:
  "drain_pending a ps e w = (e', w') \<Longrightarrow> g_should_stop w' = g_should_stop w \<and> subepolls w' = subepolls w"
  using drain_pending_world [of a ps e w] by simp

lemma accept_connections_none:
  "(case rs of Accepted _ _ # _ \<Rightarrow> True | _ \<Rightarrow> False) = False \<Longrightarrow>
   accept_connections c a rs e w = Inr (e', w') \<Longrightarrow> e' = e \<and> w' = w"
  by (cases rs) (auto split: accept_result.splits if_splits)

lemma exec_event_world:
  assumes "exec_event c f a ev e w = Inr (e', w')"
  shows "g_should_stop w' = g_should_stop w \<and> length (subepolls w') = length (subepolls w) \<and>
    (c = Epoll_base \<or> \<not> follows_subepolls e ev a \<longrightarrow> subepolls w' = subepolls w)"
proof (cases "hangs_up ev")
  case True
  with assms show ?thesis
    by (auto simp: exec_event_def hangs_up_def Let_def remove_client_def split: if_splits)
next
  case False
  then have ev: "evs ev AND (EPOLLHUP OR EPOLLRDHUP OR EPOLLERR) = 0" by (simp add: hangs_up_def)
  have stdin: ?thesis if "handle_stdin a e w = Inr (e', w')"
    using that by (auto simp: handle_stdin_def Let_def split: recv_result.splits list.splits if_splits)
  have timer: ?thesis if "handle_timer f a e w = Inr (e', w')"
    using that by (auto simp: handle_timer_def split: prod.splits if_splits)
  have data: ?thesis if "handle_client_data a fd e w = Inr (e', w')" for fd
    using that by (auto simp: handle_client_data_def Let_def write_to_stdout_def remove_client_def
        split: recv_result.splits list.splits if_splits)
  have sock: ?thesis if "handle_socket_data c a e w = Inr (e', w')" "0 < sockfd e" "ev_fd ev = sockfd e"
    "ev_fd ev \<noteq> timerfd e" "\<not> (0 < wakeup_fd e \<and> ev_fd ev = wakeup_fd e)" "ev_fd ev \<noteq> STDIN_FILENO" "readable ev"
  proof (cases "is_listen e")
    case True
    with that(1) have r: "accept_connections c a (a_accepts a) e w = Inr (e', w')"
      by (simp add: handle_socket_data_def)
    show ?thesis
    proof (cases "follows_subepolls e ev a")
      case True
      with accept_connections_world [OF r] show ?thesis by simp
    next
      case False
      with that(2-) \<open>is_listen e\<close> accept_connections_none [OF _ r] show ?thesis
        by (simp add: follows_subepolls_def)
    qed
  next
    case False
    with that(1) show ?thesis
      by (auto simp: handle_socket_data_def write_to_stdout_def split: recv_result.splits list.splits if_splits)
  qed
  show ?thesis
    using assms ev stdin timer data sock drain_pending_flag [of a "pending_new_socks e" e w e' w'] False
    by (auto simp: exec_event_def Let_def readable_def simp del: split_paired_Ex split: if_splits)
qed

lemma loop_step_world:
  assumes "loop_step c f r pos e w = Inr (pos', e', w')"
  shows "g_should_stop w' = g_should_stop w \<and> length (subepolls w') = length (subepolls w)"
  using assms exec_event_world [of c f _ _ e w e' w']
  by (auto simp: loop_step_def simp del: split_paired_All split: loop_at.splits list.splits
      sum.splits prod.splits wait_result.splits if_splits)

text \<open>What a thread can still do once the flag is up, and the whole program.\<close>

fun work_at :: "loop_at \<Rightarrow> nat" where
  "work_at At_test = 2"
| "work_at (Handling batch) = length batch + 3"
| "work_at Behind_loop = 1"
| "work_at Gone = 0"

definition program_work :: "server_program \<Rightarrow> nat" where
  "program_work s = work_at (main_at s) + sum_list (map work_at (worker_at s))"

definition stopping :: "server_program \<Rightarrow> bool" where
  "stopping s \<longleftrightarrow> g_should_stop (shared s)"

lemma loop_step_work:
  assumes "loop_step c f r pos e w = Inr (pos', e', w')" "g_should_stop w" "pos \<noteq> Gone" "pos \<noteq> Behind_loop"
  shows "work_at pos' < work_at pos"
  using assms
  by (auto simp: loop_step_def split: loop_at.splits list.splits sum.splits prod.splits)

lemma sum_work_update:
  "i < length ps \<Longrightarrow> work_at p < work_at (ps ! i) \<Longrightarrow>
     sum_list (map work_at (ps[i := p])) < sum_list (map work_at ps)"
  by (induction ps arbitrary: i) (auto split: nat.split)

lemma failed_not_running [simp]: "failed x \<noteq> Running" "failed x \<noteq> Returned"
  by (cases x; simp)+

text \<open>The cases of a step of a thread that is still in its loop, and of one that has left it.\<close>

lemma main_step_cases:
  assumes "main_step f r s = Some s'"
  obtains (fails) "outcome s' \<noteq> Running" "outcome s' \<noteq> Returned" "main_at s \<noteq> Gone"
  | (loops) pos m w where "main_at s \<noteq> Gone" "main_at s \<noteq> Behind_loop" "\<not> uses_freed (main_at s) s"
      "loop_step Main_epoll f r (main_at s) (main_loop s) (shared s) = Inr (pos, m, w)"
      "s' = s\<lparr>main_loop := m, shared := w, main_at := pos\<rparr>"
  | (returns) m w where "main_at s = Behind_loop" "list_all (\<lambda>p. p = Gone) (worker_at s)"
      "fullstop (main_loop s) ((shared s)\<lparr>subepolls := []\<rparr>) = (m, w)"
      "s' = s\<lparr>main_loop := m, shared := w, worker_at := [], main_at := Gone, outcome := Returned\<rparr>"
proof -
  show thesis
  proof (cases "main_at s = Gone \<or> main_at s = Behind_loop")
    case True
    with assms have m: "main_at s = Behind_loop" "destroy_main s = Some s'"
      by (auto simp: main_step_def)
    obtain m w where fs: "fullstop (main_loop s) ((shared s)\<lparr>subepolls := []\<rparr>) = (m, w)" by fastforce
    with m show thesis by (intro returns [of m w]) (auto simp: destroy_main_def split: if_splits)
  next
    case False
    then have st: "main_step f r s =
        (if uses_freed (main_at s) s then Some (s\<lparr>outcome := Faulted Use_after_free\<rparr>)
         else (case loop_step Main_epoll f r (main_at s) (main_loop s) (shared s) of
                 Inl (x, m, w) \<Rightarrow> Some (s\<lparr>main_loop := m, shared := w, outcome := failed x\<rparr>)
               | Inr (pos, m, w) \<Rightarrow> Some (s\<lparr>main_loop := m, shared := w, main_at := pos\<rparr>)))"
      by (cases "main_at s") (simp_all add: main_step_def)
    show thesis
    proof (cases "uses_freed (main_at s) s")
      case True
      with st assms False show thesis by (intro fails) auto
    next
      case used: False
      show thesis
      proof (cases "loop_step Main_epoll f r (main_at s) (main_loop s) (shared s)")
        case (Inl y)
        with st used assms False show thesis by (intro fails) (auto split: prod.splits)
      next
        case (Inr y)
        obtain pos m w where "y = (pos, m, w)" by (cases y)
        with Inr st used assms False show thesis by (intro loops [of pos m w]) auto
      qed
    qed
  qed
qed

lemma worker_cases:
  assumes "worker_thread_func f i r s = Some s'"
  obtains (fails) "i < length (worker_at s)" "worker_at s ! i \<noteq> Gone"
      "outcome s' \<noteq> Running" "outcome s' \<noteq> Returned"
  | (loops) pos e w where "i < length (worker_at s)" "worker_at s ! i \<noteq> Gone" "worker_at s ! i \<noteq> Behind_loop"
      "loop_step Epoll_base f r (worker_at s ! i) (subepolls (shared s) ! i) (shared s) = Inr (pos, e, w)"
      "s' = put_worker i pos e w s"
  | (deletes) e w where "i < length (worker_at s)" "worker_at s ! i = Behind_loop"
      "fullstop (subepolls (shared s) ! i) (shared s) = (e, w)" "s' = put_worker i Gone e w s"
proof -
  let ?e = "subepolls (shared s) ! i"
  have i: "i < length (worker_at s)" "worker_at s ! i \<noteq> Gone"
    using assms by (auto simp: worker_thread_func_def Let_def split: if_splits)
  show thesis
  proof (cases "worker_at s ! i = Behind_loop")
    case True
    obtain e w where "fullstop ?e (shared s) = (e, w)" by fastforce
    with True i assms show thesis by (intro deletes [of e w]) (auto simp: worker_thread_func_def)
  next
    case False
    with i have st: "worker_thread_func f i r s =
        (case loop_step Epoll_base f r (worker_at s ! i) ?e (shared s) of
           Inl (x, e, w) \<Rightarrow> Some ((put_worker i (worker_at s ! i) e w s)\<lparr>outcome := failed x\<rparr>)
         | Inr (pos, e, w) \<Rightarrow> Some (put_worker i pos e w s))"
      by (cases "worker_at s ! i") (simp_all add: worker_thread_func_def split: sum.split prod.split)
    show thesis
    proof (cases "loop_step Epoll_base f r (worker_at s ! i) ?e (shared s)")
      case (Inl y)
      with st i assms show thesis by (intro fails) (auto split: prod.splits)
    next
      case (Inr y)
      obtain pos e w where "y = (pos, e, w)" by (cases y)
      with Inr st i False assms show thesis by (intro loops [of pos e w]) auto
    qed
  qed
qed

lemma work_positive: "p \<noteq> Gone \<Longrightarrow> 0 < work_at p"
  by (cases p) auto

lemma sum_work_positive: "i < length ps \<Longrightarrow> ps ! i \<noteq> Gone \<Longrightarrow> 0 < sum_list (map work_at ps)"
  by (induction ps arbitrary: i) (auto simp: work_positive nth_Cons split: nat.splits)

lemma step_decreases:
  assumes "program_step f act s = Some s'" "stopping s" "act \<noteq> Signal"
  shows "0 < program_work s \<and> (outcome s' = Running \<longrightarrow> stopping s' \<and> program_work s' < program_work s)"
proof (cases act)
  case (Main r)
  then have "main_step f r s = Some s'" using assms(1) by (simp split: if_splits)
  then show ?thesis
  proof (cases rule: main_step_cases)
    case fails
    then show ?thesis using work_positive by (simp add: program_work_def)
  next
    case (loops pos m w)
    with loop_step_work [OF loops(4)] loop_step_world [OF loops(4)] assms(2) show ?thesis
      by (auto simp: stopping_def program_work_def)
  next
    case (returns m w)
    then show ?thesis by (simp add: program_work_def)
  qed
next
  case (Worker i r)
  then have "worker_thread_func f i r s = Some s'" using assms(1) by (simp split: if_splits)
  then show ?thesis
  proof (cases rule: worker_cases)
    case fails
    then show ?thesis using sum_work_positive by (simp add: program_work_def)
  next
    case (loops pos e w)
    with loop_step_work [OF loops(4)] loop_step_world [OF loops(4)] assms(2)
      sum_work_update [of i "worker_at s" pos]
    show ?thesis by (auto simp: stopping_def program_work_def put_worker_def)
  next
    case (deletes e w)
    with assms(2) sum_work_update [of i "worker_at s" Gone] show ?thesis
      by (auto simp: stopping_def program_work_def put_worker_def fullstop_eq)
  qed
qed (use assms in simp)

text \<open>Somebody can always go on: the main thread, or while it waits in \<open>join\<close> a worker.\<close>

definition not_stranded :: "server_program \<Rightarrow> bool" where
  "not_stranded s \<longleftrightarrow> (main_at s = Gone \<longrightarrow> outcome s \<noteq> Running)"

lemma not_stranded_step:
  assumes "not_stranded s" "program_step f act s = Some s'"
  shows "not_stranded s'"
proof (cases act)
  case (Main r)
  then have "main_step f r s = Some s'" using assms(2) by (simp split: if_splits)
  then show ?thesis
  proof (cases rule: main_step_cases)
    case (loops pos m w)
    then have "pos \<noteq> Gone"
      by (auto simp: loop_step_def split: loop_at.splits list.splits sum.splits prod.splits
          wait_result.splits if_splits)
    with loops show ?thesis by (simp add: not_stranded_def)
  qed (auto simp: not_stranded_def)
next
  case (Worker i r)
  then have "worker_thread_func f i r s = Some s'" "outcome s = Running"
    using assms(2) by (simp_all split: if_splits)
  then show ?thesis
    using assms(1) by (cases rule: worker_cases) (auto simp: not_stranded_def put_worker_def)
next
  case Signal
  with assms show ?thesis by (auto simp: not_stranded_def split: if_splits)
qed

lemma can_go_on:
  assumes "not_stranded s" "outcome s = Running"
  shows "\<exists>act. act \<noteq> Signal \<and> program_step f act s \<noteq> None"
proof (cases "main_at s = Behind_loop \<and> \<not> list_all (\<lambda>p. p = Gone) (worker_at s)")
  case True
  then obtain i where i: "i < length (worker_at s)" "worker_at s ! i \<noteq> Gone"
    by (auto simp: list_all_length)
  then have "program_step f (Worker i (Ready [])) s \<noteq> None"
    using assms(2)
    by (auto simp: worker_thread_func_def Let_def split: loop_at.splits sum.splits prod.splits)
  then show ?thesis by blast
next
  case False
  have "main_at s \<noteq> Gone" using assms by (auto simp: not_stranded_def)
  with False have "program_step f (Main (Ready [])) s \<noteq> None"
    using assms(2)
    by (auto simp: main_step_def destroy_main_def split: loop_at.splits sum.splits prod.splits)
  then show ?thesis by blast
qed

section \<open>What the program leaves open\<close>

text \<open>
  The kernel's part, step by step: hang-ups are reported for descriptors of the loop
  (\<open>event_ok\<close>) and an accepted descriptor is not in use.
\<close>

fun step_contract :: "fd set \<Rightarrow> step_of \<Rightarrow> server_program \<Rightarrow> bool" where
  "step_contract B (Main r) s =
     (case main_at s of
        Handling ((ev, a) # rest) \<Rightarrow>
          event_ok (main_loop s) ev \<and>
          accepts_fresh (\<lambda>_. True) (B \<union> set (worker_fds (shared s)) \<union> set (owned (main_loop s))) (a_accepts a)
      | _ \<Rightarrow> True)"
| "step_contract B (Worker i r) s =
     (if i < length (worker_at s)
      then (case worker_at s ! i of
              Handling ((ev, a) # rest) \<Rightarrow>
                event_ok (subepolls (shared s) ! i) ev \<and>
                accepts_fresh (a_ctl_ok a)
                  (B \<union> set (worker_fds (shared s)) \<union> set (owned (main_loop s))) (a_accepts a)
            | _ \<Rightarrow> True)
      else True)"
| "step_contract B Signal s = True"

fun run_contract :: "fd set \<Rightarrow> fp \<Rightarrow> step_of list \<Rightarrow> server_program \<Rightarrow> bool" where
  "run_contract B f [] s = True"
| "run_contract B f (act # acts) s =
     (step_contract B act s \<and>
      (case program_step f act s of None \<Rightarrow> True | Some s' \<Rightarrow> run_contract B f acts s'))"

text \<open>
  The invariant: while the program runs its loops own what is open, and a worker that is gone
  owns nothing; when it has returned nobody does.
\<close>

definition gone_empty :: "server_program \<Rightarrow> bool" where
  "gone_empty s \<longleftrightarrow> length (subepolls (shared s)) = length (worker_at s) \<and>
     (\<forall>i<length (worker_at s). worker_at s ! i = Gone \<longrightarrow> owned (subepolls (shared s) ! i) = [])"

definition program_ok :: "fd set \<Rightarrow> fd set \<Rightarrow> server_program \<Rightarrow> bool" where
  "program_ok S0 B s \<longleftrightarrow>
     (outcome s = Running \<longrightarrow> server_ok S0 B (main_loop s) (shared s) \<and> gone_empty s) \<and>
     (outcome s = Returned \<longrightarrow> replay (calls (shared s)) S0 = Some B \<and> stopping s \<and> worker_at s = [])"

lemma loop_step_event:
  assumes "loop_step c f r pos e w = Inr (pos', e', w')" "pos \<noteq> Gone"
  shows "(e' = e \<and> w' = w \<and> pos' \<noteq> Gone) \<or>
    (\<exists>ev a rest. pos = Handling ((ev, a) # rest) \<and> pos' = Handling rest \<and> exec_event c f a ev e w = Inr (e', w'))"
proof (cases pos)
  case (Handling batch)
  with assms show ?thesis by (cases batch) (auto simp: loop_step_def split: sum.splits prod.splits)
qed (use assms in \<open>auto simp: loop_step_def split: wait_result.splits if_splits\<close>)

lemma all_gone_no_fds:
  assumes "gone_empty s" "list_all (\<lambda>p. p = Gone) (worker_at s)"
  shows "worker_fds (shared s) = []"
proof -
  have "owned e = []" if "e \<in> set (subepolls (shared s))" for e
    using that assms by (auto simp: gone_empty_def list_all_length in_set_conv_nth)
  then show ?thesis by (simp add: worker_fds_def)
qed

lemma gone_empty_put:
  assumes "gone_empty s" "i < length (worker_at s)"
    and "pos = Gone \<longrightarrow> owned e = []" "subepolls w = subepolls (shared s)"
  shows "gone_empty (put_worker i pos e w s)"
  using assms by (auto simp: gone_empty_def put_worker_def nth_list_update)

lemma worker_in_list:
  assumes "i < length xs" 
  shows "xs = take i xs @ xs ! i # drop (Suc i) xs" "xs[i := y] = take i xs @ y # drop (Suc i) xs"
  using assms by (simp_all add: id_take_nth_drop upd_conv_take_nth_drop)

lemma program_ok_main:
  assumes ok: "program_ok S0 B s" and run: "outcome s = Running"
    and step: "main_step f r s = Some s'" and con: "step_contract B (Main r) s"
  shows "program_ok S0 B s'"
  using step
proof (cases rule: main_step_cases)
  case fails
  then show ?thesis by (simp add: program_ok_def)
next
  case (loops pos m w)
  have inv: "server_ok S0 B (main_loop s) (shared s)" "gone_empty s" using ok run by (simp_all add: program_ok_def)
  from loop_step_event [OF loops(4,1)] consider (same) "m = main_loop s" "w = shared s"
    | (event) ev a rest where "main_at s = Handling ((ev, a) # rest)"
      "exec_event Main_epoll f a ev (main_loop s) (shared s) = Inr (m, w)"
    by blast
  then show ?thesis
  proof cases
    case same
    with inv loops(5) run show ?thesis by (simp add: program_ok_def gone_empty_def)
  next
    case event
    with con have "server_step f B (main_loop s, shared s) (m, w)"
      by (intro server_step.main_event [where ev = ev and a = a]) simp_all
    from server_ok_step [OF inv(1) this] have "server_ok S0 B m w" by simp
    moreover have "gone_empty s'"
    proof (cases "Gone \<in> set (worker_at s)")
      case True
      with loops(3) event(1) have "\<not> follows_subepolls (main_loop s) ev a" by auto
      with exec_event_world [OF event(2)] inv(2) loops(5) show ?thesis by (auto simp: gone_empty_def)
    next
      case False
      with exec_event_world [OF event(2)] inv(2) loops(5) show ?thesis
        by (auto simp: gone_empty_def in_set_conv_nth)
    qed
    ultimately show ?thesis using loops(5) run by (simp add: program_ok_def)
  qed
next
  case (returns m w)
  have inv: "server_ok S0 B (main_loop s) (shared s)" "gone_empty s" using ok run by (simp_all add: program_ok_def)
  from all_gone_no_fds [OF inv(2) returns(2)] inv(1)
  have "holds S0 B (main_loop s) ((shared s)\<lparr>subepolls := []\<rparr>)"
    by (simp add: server_ok_def holds_def)
  from holds_fullstop [OF this returns(3)] returns(3,4) show ?thesis
    by (auto simp: program_ok_def holds_def stopping_def fullstop_eq)
qed

lemma program_ok_worker:
  assumes ok: "program_ok S0 B s" and run: "outcome s = Running"
    and step: "worker_thread_func f i r s = Some s'" and con: "step_contract B (Worker i r) s"
  shows "program_ok S0 B s'"
proof -
  have inv: "server_ok S0 B (main_loop s) (shared s)" "gone_empty s" using ok run by (simp_all add: program_ok_def)
  let ?subs = "subepolls (shared s)"
  show ?thesis
    using step
  proof (cases rule: worker_cases)
    case fails
    then show ?thesis by (simp add: program_ok_def)
  next
    case (loops pos e w)
    then have i: "i < length ?subs" using inv(2) by (simp add: gone_empty_def)
    from loop_step_event [OF loops(4,2)] consider (same) "e = ?subs ! i" "w = shared s" "pos \<noteq> Gone"
      | (event) ev a rest where "worker_at s ! i = Handling ((ev, a) # rest)" "pos = Handling rest"
        "exec_event Epoll_base f a ev (?subs ! i) (shared s) = Inr (e, w)"
      by blast
    then show ?thesis
    proof cases
      case same
      then have "shared s' = shared s" using loops(5) by (simp add: put_worker_def)
      with same inv loops(5) run gone_empty_put [OF inv(2) loops(1), of pos e "shared s"] show ?thesis
        by (simp add: program_ok_def put_worker_def)
    next
      case event
      have subs: "subepolls w = ?subs" using exec_event_world [OF event(3)] by simp
      have "server_step f B (main_loop s, shared s)
          (main_loop s, w\<lparr>subepolls := take i ?subs @ e # drop (Suc i) ?subs\<rparr>)"
        using con event(1,3) loops(1) worker_in_list(1) [OF i]
        by (intro server_step.worker_event [where e = "?subs ! i" and ev = ev and a = a]) simp_all
      from server_ok_step [OF inv(1) this]
      have "server_ok S0 B (main_loop s) (w\<lparr>subepolls := ?subs[i := e]\<rparr>)"
        using worker_in_list(2) [OF i] by simp
      with subs loops(5) run gone_empty_put [OF inv(2) loops(1), of pos e w] event(2) show ?thesis
        by (simp add: program_ok_def put_worker_def)
    qed
  next
    case (deletes e w)
    then have i: "i < length ?subs" using inv(2) by (simp add: gone_empty_def)
    have subs: "subepolls w = ?subs" "owned e = []"
      using deletes(3) owned_stopped [of "?subs ! i" "shared s"] by (auto simp: fullstop_eq)
    have "server_step f B (main_loop s, shared s)
        (main_loop s, w\<lparr>subepolls := take i ?subs @ e # drop (Suc i) ?subs\<rparr>)"
      using deletes(3) worker_in_list(1) [OF i]
      by (intro server_step.worker_stop [where e = "?subs ! i"]) simp_all
    from server_ok_step [OF inv(1) this]
    have "server_ok S0 B (main_loop s) (w\<lparr>subepolls := ?subs[i := e]\<rparr>)"
      using worker_in_list(2) [OF i] by simp
    with subs deletes(4) run gone_empty_put [OF inv(2) deletes(1), of Gone e w] show ?thesis
      by (simp add: program_ok_def put_worker_def)
  qed
qed

lemma program_ok_step:
  assumes "program_ok S0 B s" "program_step f act s = Some s'" "step_contract B act s"
  shows "program_ok S0 B s'"
proof (cases act)
  case (Main r)
  with assms program_ok_main [of S0 B s f r s'] show ?thesis by (simp split: if_splits)
next
  case (Worker i r)
  with assms program_ok_worker [of S0 B s f i r s'] show ?thesis by (simp split: if_splits)
next
  case Signal
  with assms have run: "outcome s = Running" "s' = s\<lparr>shared := stop_signal_handler (shared s)\<rparr>"
    by (simp_all split: if_splits)
  with assms(1) server_ok_step [OF _ server_step.signal, of S0 B "main_loop s" "shared s"]
  show ?thesis by (simp add: program_ok_def gone_empty_def stop_signal_handler_def)
qed

lemma program_ok_run:
  assumes "program_run f acts s = Some s'" "run_contract B f acts s" "program_ok S0 B s"
  shows "program_ok S0 B s'"
  using assms
proof (induction acts arbitrary: s)
  case Nil
  then show ?case by simp
next
  case (Cons act acts)
  from Cons.prems(1) obtain s1 where s1: "program_step f act s = Some s1" "program_run f acts s1 = Some s'"
    by (auto simp del: program_step.simps simp: bind_eq_Some_conv)
  from Cons.prems(2) s1(1) have c: "step_contract B act s" "run_contract B f acts s1"
    by (auto simp del: program_step.simps step_contract.simps)
  from Cons.IH [OF s1(2) c(2) program_ok_step [OF Cons.prems(3) s1(1) c(1)]] show ?case .
qed

section \<open>The server as a whole\<close>

abbreviation fresh_world :: world where
  "fresh_world \<equiv> \<lparr>g_should_stop = False, calls = [], subepolls = []\<rparr>"

lemma start_server_ok:
  assumes "start_server k s ws fresh_world = Inr (Inr p)" "so_contract B k"
    and "setup_fresh (insert (so_socket k) B) s"
    and "workers_fresh (insert (so_socket k) B \<union> set (setup_fds s)) ws"
  shows "program_ok B B p \<and> outcome p = Running"
proof -
  obtain fd err ss where k: "create_socket k True = (fd, err, ss)" by (cases "create_socket k True") auto
  from create_socket_sound [OF assms(2), of True] k have sound: "sound_setup B k (fd, err, ss)" by simp
  have pos: "0 \<le> fd" using assms(1) k by (auto simp: start_server_def Let_def split: if_splits)
  with sound have fd: "fd = so_socket k" "fd \<notin> B" "replay ss B = Some (insert fd B)"
    by (auto simp: sound_setup_def split: if_splits)
  obtain m w1 where n: "new_main_epoll fd True s ws (emit ss fresh_world) = Inr (m, w1)"
    and p: "p = server_main m w1"
    using assms(1) k pos by (auto simp: start_server_def Let_def split: sum.splits prod.splits)
  have "server_ok B B m w1"
    using assms(3,4) fd pos by (intro server_ok_start [OF n]) simp_all
  then show ?thesis by (simp add: p server_main_def program_ok_def gone_empty_def)
qed

lemma listen_mode_ok:
  assumes "listen_mode_epoll f k s ws acts fresh_world = Some (Inr (Inr p))" "so_contract B k"
    and "setup_fresh (insert (so_socket k) B) s"
    and "workers_fresh (insert (so_socket k) B \<union> set (setup_fds s)) ws"
    and "\<forall>p. start_server k s ws fresh_world = Inr (Inr p) \<longrightarrow> run_contract B f acts p"
  shows "program_ok B B p"
proof -
  obtain p0 where p0: "start_server k s ws fresh_world = Inr (Inr p0)" "program_run f acts p0 = Some p"
    using assms(1) by (auto simp: listen_mode_epoll_def split: sum.splits)
  from program_ok_run [OF p0(2)] start_server_ok [OF p0(1) assms(2-4)] assms(5) p0(1)
  show ?thesis by blast
qed

lemma listen_mode_no_socket:
  assumes "listen_mode_epoll f k s ws acts fresh_world = Some (Inr (Inl w))" "so_contract B k"
  shows "replay (calls w) B = Some B"
proof -
  obtain fd err ss where k: "create_socket k True = (fd, err, ss)" by (cases "create_socket k True") auto
  with assms(1) have fd: "fd < 0" "w = emit ss fresh_world"
    by (auto simp: listen_mode_epoll_def start_server_def Let_def split: sum.splits prod.splits if_splits)
  moreover from create_socket_sound [OF assms(2), of True] k have "sound_setup B k (fd, err, ss)" by simp
  moreover have "fd = -1" using fd calculation(3) assms(2)
    by (auto simp: sound_setup_def so_contract_def split: if_splits)
  ultimately show ?thesis by (simp add: sound_setup_def)
qed

definition demo_start :: "(failure \<times> world) + (world + server_program)" where
  "demo_start = start_server demo_socket (demo_setup 4) [(demo_setup 7, True)]
     \<lparr>g_should_stop = False, calls = [], subepolls = []\<rparr>"

text \<open>One connection is accepted, handed over and watched; then the signal comes.\<close>

definition demo_steps :: "step_of list" where
  "demo_steps = [Main (Ready [(\<lparr>ev_fd = 3, evs = 1\<rparr>, demo_answers)]), Main (Ready []),
     Worker 0 (Ready [(\<lparr>ev_fd = 8, evs = 1\<rparr>, demo_answers\<lparr>a_accepts := []\<rparr>)]), Worker 0 (Ready []), Signal]"

lemma demo_contract:
  "so_contract {0, 1, 2} demo_socket" "setup_fresh (insert (so_socket demo_socket) {0, 1, 2}) (demo_setup 4)"
  "workers_fresh (insert (so_socket demo_socket) {0, 1, 2} \<union> set (setup_fds (demo_setup 4))) [(demo_setup 7, True)]"
  by (simp_all add: so_contract_def demo_socket_def setup_fresh_def setup_fds_def demo_setup_def)


section \<open>Two ways it does not end well\<close>

text \<open>The loops are constructed open, each with its thread at the test.\<close>

lemma start_workers_open:
  assumes "start_workers ws m w = Inr (m', w')"
  shows "m' = m \<and> (list_all (\<lambda>e. \<not> stdin_closed e \<and> \<not> socket_closed e) (subepolls w) \<longrightarrow>
    list_all (\<lambda>e. \<not> stdin_closed e \<and> \<not> socket_closed e) (subepolls w'))"
  using assms
proof (induction ws arbitrary: w)
  case Nil
  then show ?case by simp
next
  case (Cons wk ws)
  obtain s created where wk: "wk = (s, created)" by (cases wk)
  obtain sub w1 where n: "new_epoll (-1) False False s w = Inr (sub, w1)"
    using Cons.prems by (auto simp: wk split: sum.splits)
  have sub: "subepolls w1 = subepolls w"
    using n by (auto simp: new_epoll_def setup_epoll_def Let_def create_timer_def setup_add_def split: if_splits)
  show ?case
    using Cons.IH [of "if created then w1\<lparr>subepolls := subepolls w1 @ [sub]\<rparr> else snd (fullstop sub w1)"]
      Cons.prems n sub new_epoll_state(1) [OF n]
    by (auto simp: wk fullstop_eq split: if_splits)
qed

lemma start_server_open:
  assumes "start_server k s ws fresh_world = Inr (Inr p)"
  shows "main_at p = At_test" "outcome p = Running" "\<not> stdin_closed (main_loop p)"
    "\<not> socket_closed (main_loop p)"
    "worker_at p = replicate (length (subepolls (shared p))) At_test"
    "list_all (\<lambda>e. \<not> stdin_closed e \<and> \<not> socket_closed e) (subepolls (shared p))"
proof -
  obtain fd ss m w where n: "new_main_epoll fd True s ws (emit ss fresh_world) = Inr (m, w)"
    and p: "p = server_main m w"
    using assms by (auto simp: start_server_def Let_def split: prod.splits sum.splits if_splits)
  then obtain m1 w1 where n1: "new_epoll fd True True s (emit ss fresh_world) = Inr (m1, w1)"
    and st: "start_workers ws m1 w1 = Inr (m, w)"
    by (auto simp: new_main_epoll_def then_do_def split: sum.splits)
  have "subepolls w1 = []"
    using n1 by (auto simp: new_epoll_def setup_epoll_def Let_def create_timer_def setup_add_def split: if_splits)
  with start_workers_open [OF st] new_epoll_state(1) [OF n1]
  show "main_at p = At_test" "outcome p = Running" "\<not> stdin_closed (main_loop p)"
    "\<not> socket_closed (main_loop p)"
    "worker_at p = replicate (length (subepolls (shared p))) At_test"
    "list_all (\<lambda>e. \<not> stdin_closed e \<and> \<not> socket_closed e) (subepolls (shared p))"
    by (simp_all add: p server_main_def)
qed

text \<open>A loop at its test that is not to stop comes back to it when nothing happens.\<close>

lemma idle_turn:
  assumes "outcome p = Running" "i < length (worker_at p)" "worker_at p ! i = At_test"
    and "\<not> stdin_closed (subepolls (shared p) ! i)" "\<not> socket_closed (subepolls (shared p) ! i)"
    and "\<not> g_should_stop (shared p)"
  shows "program_run f [Worker i (Ready []), Worker i (Ready [])] p = Some p"
proof -
  have "(worker_at p)[i := At_test] = worker_at p" using assms(3) by (metis list_update_id)
  then have "put_worker i At_test (subepolls (shared p) ! i) (shared p) p = p"
    by (simp add: put_worker_def)
  then show ?thesis
    using assms by (simp add: worker_thread_func_def Let_def loop_step_def put_worker_def)
qed

lemma run_repeat:
  "program_run f xs p = Some p \<Longrightarrow> program_run f (concat (replicate n xs)) p = Some p"
  by (induction n) (simp_all add: program_run_append)

definition stdin_ready :: epoll_event where
  "stdin_ready = \<lparr>ev_fd = STDIN_FILENO, evs = EPOLLIN\<rparr>"

lemma stdin_end:
  assumes "a_stdin a = Received []"
  shows "exec_event c f a stdin_ready e w =
    Inr (e\<lparr>stdin_closed := True\<rparr>, emit [Shut_write (sockfd e)] w)"
  using assms by (auto simp: exec_event_def stdin_ready_def epoll_flags STDIN_FILENO_def handle_stdin_def)

text \<open>C37: The end of the input, read by the accepting thread, hangs the server: the thread leaves
  its loop and waits in \<open>~MainEpoll\<close> for the workers, whom nobody has told to stop (the call of
  \<open>fullstop\<close> there is commented out); they go on for as long as they like, and meanwhile nobody
  accepts.\<close>

theorem server_hangs_after_input:
  assumes "start_server k s ws \<lparr>g_should_stop = False, calls = [], subepolls = []\<rparr> = Inr (Inr p0)"
    and "\<not> g_should_stop (shared p0)" "worker_at p0 \<noteq> []" "a_stdin a = Received []"
  shows "\<exists>p. program_run f (Main (Ready [(stdin_ready, a)]) # replicate 3 (Main (Ready []))) p0 = Some p \<and>
    outcome p = Running \<and> (\<forall>r. program_step f (Main r) p = None) \<and>
    (\<forall>n. program_run f (concat (replicate n [Worker 0 (Ready []), Worker 0 (Ready [])])) p = Some p)"
proof -
  note o = start_server_open [OF assms(1)]
  let ?p = "p0\<lparr>main_at := Behind_loop, main_loop := (main_loop p0)\<lparr>stdin_closed := True\<rparr>,
    shared := emit [Shut_write (sockfd (main_loop p0))] (shared p0)\<rparr>"
  have w0: "0 < length (worker_at p0)" "worker_at p0 ! 0 = At_test"
    "\<not> stdin_closed (subepolls (shared p0) ! 0)" "\<not> socket_closed (subepolls (shared p0) ! 0)"
    using assms(3) o(5,6) by (auto simp: list_all_length)
  have "\<not> follows_subepolls (main_loop p0) stdin_ready a"
    by (simp add: follows_subepolls_def stdin_ready_def)
  then have "program_run f (Main (Ready [(stdin_ready, a)]) # replicate 3 (Main (Ready []))) p0 = Some ?p"
    using o(1-4) assms(2)
    by (simp add: numeral_3_eq_3 main_step_def loop_step_def stdin_end [OF assms(4)])
  moreover have "program_step f (Main r) ?p = None" for r
    using o(2) w0(1,2) by (auto simp: main_step_def destroy_main_def list_all_length)
  moreover have "program_run f [Worker 0 (Ready []), Worker 0 (Ready [])] ?p = Some ?p"
    using o(2) w0 assms(2) by (intro idle_turn) simp_all
  ultimately show ?thesis
    using run_repeat [of f "[Worker 0 (Ready []), Worker 0 (Ready [])]" ?p] o(2)
    by (intro exI [of _ ?p]) simp
qed

lemma server_hangs_after_input_witness:
  "\<exists>p0 p. demo_start = Inr (Inr p0) \<and> outcome p = Running \<and>
    (\<forall>n. program_run demo_fp (concat (replicate n [Worker 0 (Ready []), Worker 0 (Ready [])])) p = Some p)"
proof -
  have "case demo_start of Inr (Inr p) \<Rightarrow> \<not> g_should_stop (shared p) \<and> worker_at p \<noteq> [] | _ \<Rightarrow> False"
    by code_simp
  then obtain p0 where p0: "demo_start = Inr (Inr p0)" "\<not> g_should_stop (shared p0)" "worker_at p0 \<noteq> []"
    by (auto split: sum.splits)
  from server_hangs_after_input [OF p0(1) [unfolded demo_start_def] p0(2,3), of demo_answers demo_fp] p0(1)
  show ?thesis by (auto simp: demo_answers_def)
qed

text \<open>C38: The accepting thread can use a loop its worker has deleted: a worker that reads the end
  of the input leaves its loop and deletes it, the pointer stays in \<open>subepolls_\<close>, and a connection
  the accepting thread already has in its hands is balanced over the loops, the deleted one
  included.\<close>

theorem server_uses_deleted_loop:
  assumes "start_server k s ws \<lparr>g_should_stop = False, calls = [], subepolls = []\<rparr> = Inr (Inr p0)"
    and "\<not> g_should_stop (shared p0)" "worker_at p0 \<noteq> []" "a_stdin a = Received []"
    and "follows_subepolls (main_loop p0) ev b"
  shows "\<exists>p. program_run f (Main (Ready [(ev, b)]) # Worker 0 (Ready [(stdin_ready, a)]) #
      replicate 4 (Worker 0 (Ready [])) @ [Main (Ready [])]) p0 = Some p \<and>
    outcome p = Faulted Use_after_free"
proof -
  note o = start_server_open [OF assms(1)]
  have w0: "0 < length (worker_at p0)" "worker_at p0 ! 0 = At_test" "0 < length (subepolls (shared p0))"
    "\<not> stdin_closed (subepolls (shared p0) ! 0)" "\<not> socket_closed (subepolls (shared p0) ! 0)"
    using assms(3) o(5,6) by (auto simp: list_all_length)
  have "Gone \<in> set ((worker_at p0)[0 := Gone])" using w0(1) by (simp add: set_update_memI)
  then show ?thesis
    using o(1-4) w0 assms(2,5)
    by (simp add: numeral_eq_Suc main_step_def loop_step_def worker_thread_func_def Let_def
        put_worker_def stdin_end [OF assms(4)] fullstop_eq)
qed

lemma server_uses_deleted_loop_witness:
  "\<exists>p0 p. demo_start = Inr (Inr p0) \<and> outcome p = Faulted Use_after_free \<and>
    program_run demo_fp (Main (Ready [(\<lparr>ev_fd = 3, evs = 1\<rparr>, demo_answers)]) #
      Worker 0 (Ready [(stdin_ready, demo_answers)]) #
      replicate 4 (Worker 0 (Ready [])) @ [Main (Ready [])]) p0 = Some p"
proof -
  have "case demo_start of
      Inr (Inr p) \<Rightarrow> \<not> g_should_stop (shared p) \<and> worker_at p \<noteq> [] \<and>
        follows_subepolls (main_loop p) \<lparr>ev_fd = 3, evs = 1\<rparr> demo_answers
    | _ \<Rightarrow> False"
    by code_simp
  then obtain p0 where p0: "demo_start = Inr (Inr p0)" "\<not> g_should_stop (shared p0)" "worker_at p0 \<noteq> []"
    "follows_subepolls (main_loop p0) \<lparr>ev_fd = 3, evs = 1\<rparr> demo_answers"
    by (auto split: sum.splits)
  have "a_stdin demo_answers = Received []" by (simp add: demo_answers_def)
  from server_uses_deleted_loop [OF p0(1) [unfolded demo_start_def] p0(2,3) this p0(4), of demo_fp] p0(1)
  show ?thesis by blast
qed


section \<open>The report of the main loop\<close>

text \<open>
  \<open>show_shared_stats\<close> and \<open>print_clients_stats\<close>: what the main loop prints every second. The
  lines and the sums are built from one reading of the clock; \<open>add\<close> is the addition on
  \<open>double\<close> that \<open>total_bps += current_bps\<close> goes through.
\<close>

definition print_clients_stats :: "fp \<Rightarrow> (double \<Rightarrow> double \<Rightarrow> double) \<Rightarrow> time \<Rightarrow> epoll \<Rightarrow> string \<times> u64" where
  "print_clients_stats f add now e =
     (concat (map (\<lambda>c. ''\<newline>'' @ get_stats f now (snd c)) (clients e)),
      foldl (\<lambda>total_bps c. d_to_u64 f (add (d_of_u64 f total_bps) (current_bps (snd c)))) 0 (clients e))"

fun show_counts :: "nat \<Rightarrow> epoll list \<Rightarrow> int \<Rightarrow> string \<times> int" where
  "show_counts c [] all_clients = ('''', all_clients)"
| "show_counts c (e # es) all_clients =
     (let cl = size_clients e
      in case show_counts (c + 1) es (all_clients + cl) of
        (out, n) \<Rightarrow> (to_string c @ ''-'' @ show_int cl @ '', '' @ out, n))"

definition show_shared_stats ::
  "fp \<Rightarrow> (double \<Rightarrow> double \<Rightarrow> double) \<Rightarrow> time \<Rightarrow> epoll \<Rightarrow> epoll list \<Rightarrow> string" where
  "show_shared_stats f add now m subs =
     (case show_counts 1 subs (size_clients m) of
        (out, all_clients) \<Rightarrow>
          let reports = map (print_clients_stats f add now) (m # subs);
              total_bps = sum_list (map snd reports)
          in ''main-'' @ show_int (size_clients m) @ '', '' @ out @ '' = '' @ show_int all_clients @
             ''\<newline>'' @ concat (map fst reports) @
             ''\<newline>'' @ [char_of (9 :: nat), char_of (9 :: nat)] @ ''total:'' @
             [char_of (9 :: nat), char_of (9 :: nat)] @ formatValue f (d_of_u64 f total_bps) ''bps'' @
             ''\<newline>'' @ ''\<newline>'')"

lemma show_counts_total: "snd (show_counts c es n) = n + sum_list (map size_clients es)"
proof (induction es arbitrary: c n)
  case (Cons e es)
  obtain out k where r: "show_counts (Suc c) es (n + size_clients e) = (out, k)" by fastforce
  with Cons.IH [of "Suc c" "n + size_clients e"] show ?case by (simp add: Let_def)
qed simp

text \<open>The report counts right: in every state the running server reaches, the number of
  clients it prints behind the counts of the single loops is the number of connections the
  server holds, those still waiting in a worker's queue included.\<close>

theorem server_report_counts:
  assumes "listen_mode_epoll f k s ws acts \<lparr>g_should_stop = False, calls = [], subepolls = []\<rparr> =
      Some (Inr (Inr p))"
    and "so_contract B k" "setup_fresh (insert (so_socket k) B) s"
    and "workers_fresh (insert (so_socket k) B \<union> set (setup_fds s)) ws"
    and "\<forall>p. start_server k s ws \<lparr>g_should_stop = False, calls = [], subepolls = []\<rparr> = Inr (Inr p) \<longrightarrow>
      run_contract B f acts p"
    and "outcome p = Running"
  shows "snd (show_counts 1 (subepolls (shared p)) (size_clients (main_loop p))) =
    int (length (concat (map (\<lambda>e. map fst (clients e) @ map fst (pending_new_socks e))
      (main_loop p # subepolls (shared p)))))"
proof -
  have "program_ok B B p" by (rule listen_mode_ok) fact+
  then have counts: "count_ok (main_loop p)" "list_all count_ok (subepolls (shared p))"
    using assms(6) by (simp_all add: program_ok_def server_ok_def holds_def)
  have "sum_list (map size_clients es) =
      int (length (concat (map (\<lambda>e. map fst (clients e) @ map fst (pending_new_socks e)) es)))"
    if "list_all count_ok es" for es
    using that by (induction es) (simp_all add: count_ok_def)
  from this [OF counts(2)] counts(1) show ?thesis
    by (simp add: show_counts_total count_ok_def)
qed

lemma server_report_counts_witness:
  "\<exists>p q. demo_start = Inr (Inr p) \<and> program_run demo_fp demo_steps p = Some q \<and>
    snd (show_counts 1 (subepolls (shared q)) (size_clients (main_loop q))) = 1"
proof -
  have "case demo_start of
     Inr (Inr p) \<Rightarrow> run_contract {0, 1, 2} demo_fp demo_steps p \<and>
       (case program_run demo_fp demo_steps p of
          Some q \<Rightarrow> outcome q = Running \<and> map fst (clients (main_loop q)) = [] \<and>
            map fst (pending_new_socks (main_loop q)) = [] \<and>
            map (\<lambda>e. map fst (clients e) @ map fst (pending_new_socks e)) (subepolls (shared q)) = [[10]]
        | None \<Rightarrow> False)
   | _ \<Rightarrow> False"
    by code_simp
  then obtain p q where d: "demo_start = Inr (Inr p)" "run_contract {0, 1, 2} demo_fp demo_steps p"
      "program_run demo_fp demo_steps p = Some q" "outcome q = Running"
      "map fst (clients (main_loop q)) = []" "map fst (pending_new_socks (main_loop q)) = []"
      "map (\<lambda>e. map fst (clients e) @ map fst (pending_new_socks e)) (subepolls (shared q)) = [[10]]"
    by (auto simp del: map_is_Nil_conv split: sum.splits option.splits)
  have r: "listen_mode_epoll demo_fp demo_socket (demo_setup 4) [(demo_setup 7, True)] demo_steps
      \<lparr>g_should_stop = False, calls = [], subepolls = []\<rparr> = Some (Inr (Inr q))"
    using d(1,3) by (simp add: listen_mode_epoll_def demo_start_def)
  have "\<forall>p. start_server demo_socket (demo_setup 4) [(demo_setup 7, True)]
      \<lparr>g_should_stop = False, calls = [], subepolls = []\<rparr> = Inr (Inr p) \<longrightarrow>
      run_contract {0, 1, 2} demo_fp demo_steps p"
    using d(1,2) by (simp add: demo_start_def)
  from server_report_counts [OF r demo_contract this d(4)] d(5-7)
  have "snd (show_counts 1 (subepolls (shared q)) (size_clients (main_loop q))) = 1" by simp
  with d(1,3) show ?thesis by blast
qed

end
