(* ===== verification/ServerStartup.thy ===== *)
theory ServerStartup
  imports ServerProgram
begin

text \<open>
  The server from its first thread on: the constructor of \<open>MainEpoll\<close> creates the workers one
  after the other, and those it has created already run while it goes on. A step of the program
  is now the creation of the next worker, a step of one of the threads, or the signal. The
  program of \<open>ServerProgram\<close> is the schedule in which all workers are created first.
\<close>


section \<open>The constructor and the threads it has started\<close>

record server_start =
  to_create :: "(setup_answers \<times> bool) list"   \<comment> \<open>the turns its loop has left\<close>
  server :: server_program

text \<open>One turn of the loop: a loop object, then its thread, or the destruction of the object.\<close>

definition create_worker :: "setup_answers \<times> bool \<Rightarrow> server_program \<Rightarrow> server_program" where
  "create_worker x p =
     (case new_epoll (-1) False False (fst x) (shared p) of
        Inl (e, _, w) \<Rightarrow> p\<lparr>shared := w, outcome := failed e\<rparr>
      | Inr (subepoll, w) \<Rightarrow>
          if snd x then p\<lparr>shared := w\<lparr>subepolls := subepolls w @ [subepoll]\<rparr>,
                         worker_at := worker_at p @ [At_test]\<rparr>
          else p\<lparr>shared := snd (fullstop subepoll w)\<rparr>)"

datatype start_act = Create | Runs step_of

text \<open>The main thread enters its loop behind the last turn.\<close>

fun start_step :: "fp \<Rightarrow> start_act \<Rightarrow> server_start \<Rightarrow> server_start option" where
  "start_step f Create s =
     (if outcome (server s) \<noteq> Running then None
      else case to_create s of
        [] \<Rightarrow> None
      | x # rest \<Rightarrow> Some \<lparr>to_create = rest, server = create_worker x (server s)\<rparr>)"
| "start_step f (Runs act) s =
     (case (act, to_create s) of
        (Main r, x # rest) \<Rightarrow> None
      | _ \<Rightarrow> map_option (\<lambda>p. s\<lparr>server := p\<rparr>) (program_step f act (server s)))"

fun start_run :: "fp \<Rightarrow> start_act list \<Rightarrow> server_start \<Rightarrow> server_start option" where
  "start_run f [] s = Some s"
| "start_run f (act # acts) s = Option.bind (start_step f act s) (start_run f acts)"

text \<open>\<open>listen_mode_epoll\<close> up to the loop of the constructor, and as a whole.\<close>

definition begin_server ::
  "so_answers \<Rightarrow> setup_answers \<Rightarrow> (setup_answers \<times> bool) list \<Rightarrow> world
    \<Rightarrow> (failure \<times> world) + (world + server_start)" where
  "begin_server k s ws w =
     (case create_socket k True of (listen_fd, _, ss) \<Rightarrow>
        let w = emit ss w
        in if listen_fd < 0 then Inr (Inl w)
           else case new_epoll listen_fd True True s w of
             Inl (x, _, w) \<Rightarrow> Inl (x, w)
           | Inr (m, w) \<Rightarrow> Inr (Inr \<lparr>to_create = ws, server = server_main m w\<rparr>))"

definition listen_mode_threads ::
  "fp \<Rightarrow> so_answers \<Rightarrow> setup_answers \<Rightarrow> (setup_answers \<times> bool) list \<Rightarrow> start_act list \<Rightarrow> world
    \<Rightarrow> ((failure \<times> world) + (world + server_program)) option" where
  "listen_mode_threads f k s ws acts w =
     (case begin_server k s ws w of
        Inl x \<Rightarrow> Some (Inl x)
      | Inr (Inl w) \<Rightarrow> Some (Inr (Inl w))
      | Inr (Inr p) \<Rightarrow> map_option (\<lambda>q. Inr (Inr (server q))) (start_run f acts p))"

lemma start_run_append:
  "start_run f (xs @ ys) s = Option.bind (start_run f xs s) (start_run f ys)"
  by (induction xs arbitrary: s) (auto split: bind_split)

lemma start_run_Cons:
  "start_run f (act # acts) s = Some s' \<longleftrightarrow>
   (\<exists>s1. start_step f act s = Some s1 \<and> start_run f acts s1 = Some s')"
  by (simp add: bind_eq_Some_conv)

lemma start_step_cases:
  assumes "start_step f act s = Some s'"
  obtains (creates) x rest where "act = Create" "to_create s = x # rest" "outcome (server s) = Running"
      "s' = \<lparr>to_create = rest, server = create_worker x (server s)\<rparr>"
  | (runs) a p where "act = Runs a" "program_step f a (server s) = Some p" "s' = s\<lparr>server := p\<rparr>"
      "to_create s \<noteq> [] \<Longrightarrow> \<forall>r. a \<noteq> Main r"
proof (cases act)
  case Create
  with assms creates show thesis by (auto split: if_splits list.splits)
next
  case (Runs a)
  with assms have "program_step f a (server s) \<noteq> None" "to_create s \<noteq> [] \<Longrightarrow> \<forall>r. a \<noteq> Main r"
    "s' = s\<lparr>server := the (program_step f a (server s))\<rparr>"
    by (cases a; cases "to_create s"; auto simp del: program_step.simps)+
  with Runs runs show thesis by auto
qed


section \<open>The schedule that creates first\<close>

text \<open>What \<open>ServerProgram\<close> calls the start of the server is the run of this program in which
  nobody else moves until the last worker is created.\<close>

lemma new_epoll_subepolls: "new_epoll sock listen show s w = Inr (e, w') \<Longrightarrow> subepolls w' = subepolls w"
  by (auto simp: new_epoll_def setup_epoll_def Let_def create_timer_def setup_add_def split: if_splits)

lemma create_all:
  assumes "start_workers ws m w = Inr (m', w')" "length (subepolls w) = n"
  shows "start_run f (replicate (length ws) Create)
      \<lparr>to_create = ws, server = \<lparr>main_loop = m, shared = w, main_at = At_test,
        worker_at = replicate n At_test, outcome = Running\<rparr>\<rparr> =
    Some \<lparr>to_create = [], server = server_main m' w'\<rparr>"
  using assms
proof (induction ws arbitrary: w n)
  case Nil
  then show ?case by (simp add: server_main_def)
next
  case (Cons x ws)
  obtain s created where x: "x = (s, created)" by (cases x)
  obtain sub w1 where e: "new_epoll (-1) False False s w = Inr (sub, w1)"
    using Cons.prems(1) by (auto simp: x split: sum.splits)
  note subs = new_epoll_subepolls [OF e]
  show ?case
  proof (cases created)
    case True
    then have "start_workers ws m (w1\<lparr>subepolls := subepolls w1 @ [sub]\<rparr>) = Inr (m', w')"
      using Cons.prems(1) e by (simp add: x)
    from Cons.IH [OF this, of "Suc n"] show ?thesis
      using True e Cons.prems(2) subs by (simp add: x create_worker_def replicate_append_same)
  next
    case False
    then have "start_workers ws m (snd (fullstop sub w1)) = Inr (m', w')"
      using Cons.prems(1) e by (simp add: x)
    from Cons.IH [OF this, of n] show ?thesis
      using False e Cons.prems(2) subs by (simp add: x create_worker_def fullstop_eq)
  qed
qed

lemma start_server_schedule:
  assumes "start_server k s ws fresh_world = Inr (Inr p)"
  shows "\<exists>p0. begin_server k s ws fresh_world = Inr (Inr p0) \<and>
    start_run f (replicate (length ws) Create) p0 = Some \<lparr>to_create = [], server = p\<rparr>"
proof -
  obtain fd err ss where k: "create_socket k True = (fd, err, ss)" by (cases "create_socket k True") auto
  obtain m w where n: "new_main_epoll fd True s ws (emit ss fresh_world) = Inr (m, w)"
    and p: "p = server_main m w" and fd: "\<not> fd < 0"
    using assms k by (auto simp: start_server_def Let_def split: sum.splits prod.splits if_splits)
  obtain m1 w1 where e: "new_epoll fd True True s (emit ss fresh_world) = Inr (m1, w1)"
    and st: "start_workers ws m1 w1 = Inr (m, w)"
    using n by (auto simp: new_main_epoll_def then_do_def split: sum.splits)
  have len: "length (subepolls w1) = 0" using new_epoll_subepolls [OF e] by simp
  from create_all [OF st len] show ?thesis
    using k fd e len p by (simp add: begin_server_def server_main_def)
qed


section \<open>What is open\<close>

text \<open>The kernel gives a new loop descriptors that are free at that moment.\<close>

fun start_contract :: "fd set \<Rightarrow> start_act \<Rightarrow> server_start \<Rightarrow> bool" where
  "start_contract B Create s =
     (case to_create s of
        [] \<Rightarrow> True
      | x # rest \<Rightarrow>
          setup_fresh (B \<union> set (owned (main_loop (server s))) \<union> set (worker_fds (shared (server s)))) (fst x))"
| "start_contract B (Runs act) s = step_contract B act (server s)"

fun start_run_contract :: "fd set \<Rightarrow> fp \<Rightarrow> start_act list \<Rightarrow> server_start \<Rightarrow> bool" where
  "start_run_contract B f [] s = True"
| "start_run_contract B f (act # acts) s =
     (start_contract B act s \<and>
      (case start_step f act s of None \<Rightarrow> True | Some s' \<Rightarrow> start_run_contract B f acts s'))"

text \<open>A property of the server that creations and steps keep holds at the end of a run.\<close>

lemma start_run_invariant:
  assumes "start_run f acts s = Some s'" "start_run_contract B f acts s" "P s"
    and "\<And>act s s'. P s \<Longrightarrow> start_step f act s = Some s' \<Longrightarrow> start_contract B act s \<Longrightarrow> P s'"
  shows "P s'"
  using assms
proof (induction acts arbitrary: s)
  case Nil
  then show ?case by simp
next
  case (Cons act acts)
  from Cons.prems(1) obtain s1 where s1: "start_step f act s = Some s1" "start_run f acts s1 = Some s'"
    by (auto simp only: start_run_Cons)
  with Cons.prems(2) have c: "start_contract B act s" "start_run_contract B f acts s1"
    by (simp_all del: start_step.simps start_contract.simps)
  from Cons.IH [OF s1(2) c(2) Cons.prems(4) [OF Cons.prems(3) s1(1) c(1)] Cons.prems(4)] show ?case .
qed

lemma create_worker_cases:
  obtains (throws) e w where "create_worker x p = p\<lparr>shared := w, outcome := failed e\<rparr>"
  | (creates) sub w where "new_epoll (-1) False False (fst x) (shared p) = Inr (sub, w)" "snd x"
      "create_worker x p = p\<lparr>shared := w\<lparr>subepolls := subepolls (shared p) @ [sub]\<rparr>,
        worker_at := worker_at p @ [At_test]\<rparr>"
  | (destroys) sub w where "new_epoll (-1) False False (fst x) (shared p) = Inr (sub, w)" "\<not> snd x"
      "create_worker x p = p\<lparr>shared := snd (fullstop sub w)\<rparr>"
proof (cases "new_epoll (-1) False False (fst x) (shared p)")
  case (Inl y)
  then show thesis using throws by (cases y) (auto simp: create_worker_def)
next
  case (Inr y)
  then obtain sub w where n: "new_epoll (-1) False False (fst x) (shared p) = Inr (sub, w)"
    by (cases y) auto
  with creates destroys new_epoll_subepolls [OF n] show thesis
    by (cases "snd x") (auto simp: create_worker_def)
qed

lemma program_ok_create:
  assumes ok: "program_ok S0 B p" "outcome p = Running"
    and fresh: "setup_fresh (B \<union> set (owned (main_loop p)) \<union> set (worker_fds (shared p))) (fst x)"
  shows "program_ok S0 B (create_worker x p)"
proof -
  obtain s created where x: "x = (s, created)" by (cases x)
  have inv: "server_ok S0 B (main_loop p) (shared p)" "gone_empty p" using ok by (simp_all add: program_ok_def)
  have fresh': "workers_fresh (B \<union> set (owned (main_loop p)) \<union> set (worker_fds (shared p))) [x]"
    using fresh by (simp add: x)
  show ?thesis
  proof (cases x p rule: create_worker_cases)
    case (throws e w)
    then show ?thesis by (simp add: program_ok_def)
  next
    case (creates sub w)
    have "start_workers [x] (main_loop p) (shared p) =
        Inr (main_loop p, w\<lparr>subepolls := subepolls (shared p) @ [sub]\<rparr>)"
      using creates(1,2) new_epoll_subepolls [OF creates(1)] by (simp add: x)
    from server_ok_start_workers [OF this inv(1) fresh'] inv(2) ok(2) creates(3) show ?thesis
      by (auto simp: program_ok_def gone_empty_def nth_append less_Suc_eq)
  next
    case (destroys sub w)
    have "start_workers [x] (main_loop p) (shared p) = Inr (main_loop p, snd (fullstop sub w))"
      using destroys(1,2) by (simp add: x)
    from server_ok_start_workers [OF this inv(1) fresh'] inv(2) ok(2) destroys(3)
      new_epoll_subepolls [OF destroys(1)] show ?thesis
      by (simp add: program_ok_def gone_empty_def fullstop_eq)
  qed
qed

lemma start_ok_step:
  assumes "program_ok S0 B (server s)" "start_step f act s = Some s'" "start_contract B act s"
  shows "program_ok S0 B (server s')"
  using assms(2)
proof (cases rule: start_step_cases)
  case (creates x rest)
  with assms(1,3) program_ok_create [of S0 B "server s" x] show ?thesis by simp
next
  case (runs a p)
  with assms(1,3) program_ok_step [of S0 B "server s" f a p] show ?thesis
    by (simp del: program_step.simps step_contract.simps)
qed

lemma begin_server_ok:
  assumes "begin_server k s ws fresh_world = Inr (Inr p)" "so_contract B k"
    and "setup_fresh (insert (so_socket k) B) s"
  shows "program_ok B B (server p) \<and> outcome (server p) = Running \<and> subepolls (shared (server p)) = [] \<and>
    main_at (server p) = At_test \<and> to_create p = ws"
proof -
  obtain fd err ss where k: "create_socket k True = (fd, err, ss)" by (cases "create_socket k True") auto
  obtain m w where e: "new_epoll fd True True s (emit ss fresh_world) = Inr (m, w)" and fd0: "\<not> fd < 0"
    and p: "p = \<lparr>to_create = ws, server = server_main m w\<rparr>"
    using assms(1) k by (auto simp: begin_server_def Let_def split: sum.splits prod.splits if_splits)
  from create_socket_sound [OF assms(2), of True] k have "sound_setup B k (fd, err, ss)" by simp
  with fd0 have fd: "fd = so_socket k" "fd \<notin> B" "replay ss B = Some (insert fd B)"
    by (auto simp: sound_setup_def split: if_splits)
  have subs: "subepolls w = []" using new_epoll_subepolls [OF e] by simp
  have n: "new_main_epoll fd True s [] (emit ss fresh_world) = Inr (m, w)"
    using e by (simp add: new_main_epoll_def then_do_def)
  have "server_ok B B m w"
    using assms(3) fd fd0 by (intro server_ok_start [OF n]) simp_all
  with subs show ?thesis by (simp add: p server_main_def program_ok_def gone_empty_def)
qed

lemma start_run_ok:
  assumes "begin_server k s ws fresh_world = Inr (Inr p)" "so_contract B k"
    and "setup_fresh (insert (so_socket k) B) s"
    and "start_run f acts p = Some q" "start_run_contract B f acts p"
  shows "program_ok B B (server q)"
proof (rule start_run_invariant [OF assms(4,5)])
  show "program_ok B B (server p)" using begin_server_ok [OF assms(1-3)] by simp
qed (rule start_ok_step)

lemma begin_server_no_socket:
  assumes "begin_server k s ws fresh_world = Inr (Inl w)" "so_contract B k"
  shows "replay (calls w) B = Some B \<and> fst (create_socket k True) < 0"
proof -
  obtain fd err ss where k: "create_socket k True = (fd, err, ss)" by (cases "create_socket k True") auto
  with assms(1) have fd: "fd < 0" "w = emit ss fresh_world"
    by (auto simp: begin_server_def Let_def split: sum.splits prod.splits if_splits)
  with k have "start_server k s ws fresh_world = Inr (Inl w)"
    by (simp add: start_server_def)
  then have "listen_mode_epoll f k s ws [] fresh_world = Some (Inr (Inl w))" for f :: fp
    by (simp add: listen_mode_epoll_def)
  from listen_mode_no_socket [OF this assms(2)] k fd show ?thesis by simp
qed


section \<open>After the signal\<close>

definition start_work :: "server_start \<Rightarrow> nat" where
  "start_work s = program_work (server s) + 3 * length (to_create s)"

lemma create_decreases:
  assumes "stopping p"
  shows "outcome (create_worker x p) = Running \<longrightarrow>
    stopping (create_worker x p) \<and> program_work (create_worker x p) \<le> program_work p + 2"
proof (cases x p rule: create_worker_cases)
  case (creates sub w)
  with assms new_epoll_flag [OF creates(1)] show ?thesis
    by (simp add: stopping_def program_work_def)
next
  case (destroys sub w)
  then show ?thesis by (simp add: stopping_def program_work_def fullstop_eq)
qed simp

lemma start_step_decreases:
  assumes "start_step f act s = Some s'" "stopping (server s)" "act \<noteq> Runs Signal"
  shows "0 < start_work s \<and> (outcome (server s') = Running \<longrightarrow>
    stopping (server s') \<and> start_work s' < start_work s)"
  using assms(1)
proof (cases rule: start_step_cases)
  case (creates x rest)
  with create_decreases [OF assms(2), of x] show ?thesis by (auto simp: start_work_def)
next
  case (runs a p)
  with step_decreases [OF runs(2) assms(2)] assms(3) show ?thesis by (auto simp: start_work_def)
qed

lemma start_run_work:
  assumes "start_run f acts s = Some s'" "stopping (server s)"
  shows "length (filter (\<lambda>act. act \<noteq> Runs Signal) acts) \<le> start_work s"
  using assms
proof (induction acts arbitrary: s)
  case Nil
  then show ?case by simp
next
  case (Cons act acts)
  from Cons.prems(1) obtain s1 where s1: "start_step f act s = Some s1" "start_run f acts s1 = Some s'"
    by (auto simp only: start_run_Cons)
  show ?case
  proof (cases "act = Runs Signal")
    case True
    with s1(1) have "s1 = s\<lparr>server := (server s)\<lparr>shared := stop_signal_handler (shared (server s))\<rparr>\<rparr>"
      by (auto split: if_splits list.splits)
    then have "stopping (server s1)" "start_work s1 = start_work s"
      by (simp_all add: stopping_def start_work_def program_work_def stop_signal_handler_def)
    with Cons.IH [OF s1(2)] True show ?thesis by simp
  next
    case False
    note d = start_step_decreases [OF s1(1) Cons.prems(2) False]
    show ?thesis
    proof (cases "outcome (server s1) = Running")
      case True
      with d Cons.IH [OF s1(2)] False show ?thesis by simp
    next
      case out: False
      have "acts = []"
      proof (rule ccontr)
        assume "acts \<noteq> []"
        then obtain b bs where "acts = b # bs" by (cases acts) auto
        with s1(2) obtain s2 where "start_step f b s1 = Some s2" by (auto simp only: start_run_Cons)
        then show False
          by (cases rule: start_step_cases) (use out in auto)
      qed
      with d show ?thesis by simp
    qed
  qed
qed

lemma start_not_stranded:
  assumes "start_run f acts s = Some s'" "not_stranded (server s)"
  shows "not_stranded (server s')"
  using assms
proof (induction acts arbitrary: s)
  case Nil
  then show ?case by simp
next
  case (Cons act acts)
  from Cons.prems(1) obtain s1 where s1: "start_step f act s = Some s1" "start_run f acts s1 = Some s'"
    by (auto simp only: start_run_Cons)
  from s1(1) have "not_stranded (server s1)"
  proof (cases rule: start_step_cases)
    case (creates x rest)
    with Cons.prems(2) show ?thesis
      by (cases x "server s" rule: create_worker_cases) (simp_all add: not_stranded_def)
  next
    case (runs a p)
    with not_stranded_step [OF Cons.prems(2) runs(2)] show ?thesis by simp
  qed
  with Cons.IH [OF s1(2)] show ?case .
qed

lemma start_can_go_on:
  assumes "not_stranded (server s)" "outcome (server s) = Running"
  shows "\<exists>act. act \<noteq> Runs Signal \<and> start_step f act s \<noteq> None"
proof (cases "to_create s")
  case Nil
  from can_go_on [OF assms] obtain act where "act \<noteq> Signal" "program_step f act (server s) \<noteq> None" by blast
  with Nil show ?thesis
    by (intro exI [of _ "Runs act"], cases act) (auto simp del: program_step.simps)
next
  case (Cons x rest)
  with assms(2) show ?thesis by (intro exI [of _ Create]) simp
qed


section \<open>Properties\<close>




section \<open>Witnesses\<close>

text \<open>
  Two workers, the first of which runs while the second is created; a connection is accepted,
  handed over and watched; then the signal comes, and everybody leaves.
\<close>

definition demo_workers :: "(setup_answers \<times> bool) list" where
  "demo_workers = [(demo_setup 7, True), (demo_setup 11, True)]"

definition demo_startup :: "start_act list" where
  "demo_startup = [Create, Runs (Worker 0 (Ready [])), Create, Runs (Worker 0 (Ready []))] @ map Runs demo_steps"

definition demo_leaving :: "start_act list" where
  "demo_leaving = map Runs [Main (Ready []), Worker 0 (Ready []), Worker 1 (Ready []), Main (Ready []),
     Worker 0 (Ready []), Worker 0 (Ready []), Worker 1 (Ready []), Main (Ready [])]"

lemma demo_threads:
  "case begin_server demo_socket (demo_setup 4) demo_workers fresh_world of
     Inr (Inr p) \<Rightarrow> start_run_contract {0, 1, 2} demo_fp (demo_startup @ demo_leaving) p \<and>
       (case start_run demo_fp (demo_startup @ demo_leaving) p of
          Some q \<Rightarrow> closed_fds (calls (shared (server q))) = [10, 7, 9, 8, 11, 13, 12, 3, 4, 6, 5] \<and>
            outcome (server q) = Returned
        | None \<Rightarrow> False) \<and>
       (case start_run demo_fp demo_startup p of
          Some q \<Rightarrow> g_should_stop (shared (server q)) \<and> program_work (server q) = 8 \<and>
            length (to_create q) = 0 \<and> outcome (server q) = Running
        | None \<Rightarrow> False)
   | _ \<Rightarrow> False"
  by code_simp

lemma demo_threads_parts:
  obtains p q q' where "begin_server demo_socket (demo_setup 4) demo_workers fresh_world = Inr (Inr p)"
    "start_run_contract {0, 1, 2} demo_fp (demo_startup @ demo_leaving) p"
    "start_run demo_fp (demo_startup @ demo_leaving) p = Some q"
    "closed_fds (calls (shared (server q))) = [10, 7, 9, 8, 11, 13, 12, 3, 4, 6, 5]"
    "outcome (server q) = Returned"
    "start_run demo_fp demo_startup p = Some q'" "start_run demo_fp demo_leaving q' = Some q"
    "g_should_stop (shared (server q'))" "program_work (server q') = 8" "to_create q' = []"
  using demo_threads by (auto simp: start_run_append split: sum.splits option.splits)



end
