(* ===== verification/MyncProgram.thy ===== *)
theory MyncProgram
  imports Programs ServerStartup
begin

text \<open>
  \<open>main\<close> of \<open>mync/main.cpp\<close>: the command line, then the server or the client. Shown is what an
  exit of the process leaves behind, over both modes and every command line.
\<close>


section \<open>The program\<close>

text \<open>
  What the kernel and the users do: the answers for the socket and the set-up of the loops, and
  what happens then, as the turns of the client's loop or the steps of the server's threads, the
  creation of each thread among them.
\<close>

record mync_input =
  m_socket :: so_answers
  m_setup :: setup_answers
  m_workers :: "(setup_answers \<times> bool) list"
  m_turns :: "turn list"
  m_steps :: "start_act list"

text \<open>How the process ends: with a status, by an exception nobody catches, or in undefined behaviour.\<close>

datatype ending =
    Exits int world
  | Aborts exn
  | Goes_wrong fault

fun died :: "failure \<Rightarrow> ending" where
  "died (Thrown x) = Aborts x"
| "died (Undefined x) = Goes_wrong x"

definition server_ending :: "server_program \<Rightarrow> ending option" where
  "server_ending p =
     (case outcome p of
        Running \<Rightarrow> None
      | Returned \<Rightarrow> Some (Exits 0 (shared p))
      | Terminated x \<Rightarrow> Some (Aborts x)
      | Faulted x \<Rightarrow> Some (Goes_wrong x))"

text \<open>\<open>None\<close>: the process still runs when the turns or steps are used up.\<close>

definition mync_main :: "fp \<Rightarrow> string list \<Rightarrow> mync_input \<Rightarrow> world \<Rightarrow> ending option" where
  "mync_main f args a w =
     (case mync_args args of
        Inl e \<Rightarrow> Some (Exits 1 w)
      | Inr Print_usage \<Rightarrow> Some (Exits 0 w)
      | Inr (Listen_mode port) \<Rightarrow>
          (case listen_mode_threads f (m_socket a) (m_setup a) (m_workers a) (m_steps a) w of
             None \<Rightarrow> None
           | Some (Inl (x, w)) \<Rightarrow> Some (died x)
           | Some (Inr (Inl w)) \<Rightarrow> Some (Exits 0 w)
           | Some (Inr (Inr p)) \<Rightarrow> server_ending p)
      | Inr (Client_mode host port) \<Rightarrow>
          (case client_mode_epoll f (m_socket a) (m_setup a) (m_turns a) w of
             None \<Rightarrow> None
           | Some (Inl (x, w)) \<Rightarrow> Some (died x)
           | Some (Inr w) \<Rightarrow> Some (Exits 0 w)))"


section \<open>What is left behind\<close>

text \<open>The kernel's part of a run, for both modes.\<close>

definition mync_kernel :: "fd set \<Rightarrow> fp \<Rightarrow> mync_input \<Rightarrow> bool" where
  "mync_kernel B f a \<longleftrightarrow>
     so_contract B (m_socket a) \<and>
     setup_fresh (insert (so_socket (m_socket a)) B) (m_setup a) \<and>
     list_all (client_turn (so_socket (m_socket a))) (m_turns a) \<and>
     (\<forall>p. begin_server (m_socket a) (m_setup a) (m_workers a) fresh_world = Inr (Inr p) \<longrightarrow>
        start_run_contract B f (m_steps a) p)"

lemma died_no_exit [simp]: "died x \<noteq> Exits status w"
  by (cases x) simp_all

lemma server_exits:
  "server_ending p = Some (Exits status w) \<longleftrightarrow> outcome p = Returned \<and> status = 0 \<and> w = shared p"
  by (auto simp: server_ending_def split: outcome.splits)

lemma listen_mode_exits:
  assumes "mync_main f args a fresh_world = Some (Exits status w)" "mync_args args = Inr (Listen_mode port)"
    and "mync_kernel B f a"
  shows "status = 0 \<and> replay (calls w) B = Some B \<and> (g_should_stop w \<or> fst (create_socket (m_socket a) True) < 0)"
proof -
  note contract = assms(3) [unfolded mync_kernel_def]
  obtain y where y: "begin_server (m_socket a) (m_setup a) (m_workers a) fresh_world = Inr y"
    using assms(1,2) by (auto simp: mync_main_def listen_mode_threads_def split: option.splits sum.splits)
  show ?thesis
  proof (cases y)
    case (Inl w')
    with y assms(1,2) have "status = 0" "w = w'" by (simp_all add: mync_main_def listen_mode_threads_def)
    with begin_server_no_socket [of "m_socket a" "m_setup a" "m_workers a" w' B] y Inl contract
    show ?thesis by simp
  next
    case (Inr p)
    with y assms(1,2) obtain q where q: "start_run f (m_steps a) p = Some q"
      "outcome (server q) = Returned" "status = 0" "w = shared (server q)"
      by (auto simp: mync_main_def listen_mode_threads_def server_exits split: option.splits)
    have "program_ok B B (server q)"
      using start_run_ok [of "m_socket a" "m_setup a" "m_workers a" p B f "m_steps a" q] y Inr q(1) contract
      by simp
    with q(2-4) show ?thesis by (simp add: program_ok_def stopping_def)
  qed
qed

lemma client_mode_exits:
  assumes "mync_main f args a fresh_world = Some (Exits status w)" "mync_args args = Inr (Client_mode host port)"
    and "mync_kernel B f a"
  shows "status = 0 \<and> replay (calls w) B = Some B"
proof -
  have "client_mode_epoll f (m_socket a) (m_setup a) (m_turns a) fresh_world = Some (Inr w)" "status = 0"
    using assms(1,2) by (auto simp: mync_main_def split: option.splits sum.splits)
  with client_mode_closes [of B "m_socket a" "m_setup a" "m_turns a" fresh_world f w] assms(3)
  show ?thesis by (simp add: mync_kernel_def)
qed


definition demo_mync :: mync_input where
  "demo_mync = \<lparr>m_socket = demo_socket, m_setup = demo_setup 4, m_workers = demo_workers,
     m_turns = [], m_steps = demo_startup @ demo_leaving\<rparr>"


text \<open>A mistyped command line opens nothing.\<close>

lemma mync_bad_arguments:
  "mync_main f [''-l'', ''http''] a w = Some (Exits 1 w)" "mync_main f [''-h''] a w = Some (Exits 0 w)"
proof -
  have "case mync_args [''-l'', ''http''] of Inl e \<Rightarrow> True | Inr m \<Rightarrow> False" by code_simp
  then show "mync_main f [''-l'', ''http''] a w = Some (Exits 1 w)" by (simp add: mync_main_def split: sum.splits)
  show "mync_main f [''-h''] a w = Some (Exits 0 w)" by (simp add: mync_main_def mync_args_def)
qed

end
