(* ===== verification/NetLoop.thy ===== *)
theory NetLoop
  imports Kernel
begin

text \<open>
  \<open>class IEpoll\<close> of \<open>netlib/epoll.cpp\<close>: the loop that every end point of \<open>netlib\<close> runs in
  a thread of its own, over the state of the class derived from it. The derived class gives
  the test and the setting of \<open>need_stop_\<close> and the handler of one event; the interface is
  the locale \<open>event_loop\<close>, interpreted by each of them.
\<close>

text \<open>What a loop tells the client or server that owns it.\<close>

datatype event_type = Disconnected | Reconnected | Waiting | ClientDisconnect

text \<open>
  One turn: whether another thread has asked the loop to stop before its test, and what
  \<open>epoll_wait\<close> returned, each event with the kernel's answers to its handler.
\<close>

datatype 'a polled = Poll_failed errno | Polled "(epoll_event \<times> 'a) list"

record 'a net_turn =
  asked_to_stop :: bool
  polled :: "'a polled"

type_synonym 's net_run = "(failure \<times> 's) + 's"

fun ie_events :: "(epoll_event \<Rightarrow> 'a \<Rightarrow> 's \<Rightarrow> 's net_run) \<Rightarrow> (epoll_event \<times> 'a) list \<Rightarrow> 's \<Rightarrow> 's net_run" where
  "ie_events handler [] s = Inr s"
| "ie_events handler ((ev, a) # rest) s =
     (case handler ev a s of Inl x \<Rightarrow> Inl x | Inr s1 \<Rightarrow> ie_events handler rest s1)"

fun ie_exec :: "('s \<Rightarrow> bool) \<Rightarrow> ('s \<Rightarrow> 's) \<Rightarrow> (epoll_event \<Rightarrow> 'a \<Rightarrow> 's \<Rightarrow> 's net_run)
    \<Rightarrow> 'a net_turn list \<Rightarrow> 's \<Rightarrow> 's net_run option" where
  "ie_exec halted halt handler [] s = (if halted s then Some (Inr s) else None)"
| "ie_exec halted halt handler (t # ts) s =
     (let s = (if asked_to_stop t then halt s else s)
      in if halted s then Some (Inr s)
         else case polled t of
           Poll_failed errn \<Rightarrow>
             if errn = EINTR then ie_exec halted halt handler ts s
             else Some (Inl (Thrown (Runtime_error ''epoll_wait''), s))
         | Polled batch \<Rightarrow>
             (case ie_events handler batch s of
                Inl x \<Rightarrow> Some (Inl x)
              | Inr s1 \<Rightarrow> ie_exec halted halt handler ts s1))"

text \<open>\<open>IEpoll\<close>'s constructor and destructor.\<close>

definition IEpoll_new :: "fd \<Rightarrow> failure + fd \<times> sys list" where
  "IEpoll_new created =
     (if created = -1 then Inl (Thrown (Runtime_error ''epoll_create1''))
      else Inr (created, [Opened created]))"

definition IEpoll_destroy :: "fd \<Rightarrow> sys list" where
  "IEpoll_destroy epfd = (if 0 \<le> epfd then [Closed epfd] else [])"

definition IEpoll_add_fd :: "fd \<Rightarrow> fd \<Rightarrow> bool \<Rightarrow> bool \<times> sys list" where
  "IEpoll_add_fd epfd fd ok = (ok, [Ctl_add epfd fd ok])"

definition IEpoll_remove_fd :: "fd \<Rightarrow> fd \<Rightarrow> sys list" where
  "IEpoll_remove_fd epfd fd = [Ctl_del epfd fd]"

text \<open>
  What the loop relies on: asking it to stop sets the flag, and no handler takes the request
  back.
\<close>

locale event_loop =
  fixes halted :: "'s \<Rightarrow> bool"
    and halt :: "'s \<Rightarrow> 's"
    and handler :: "epoll_event \<Rightarrow> 'a \<Rightarrow> 's \<Rightarrow> 's net_run"
  assumes halted_halt [simp]: "halted (halt s)"
    and handler_keeps: "halted s \<Longrightarrow> handler ev a s = Inr s' \<Longrightarrow> halted s'"
begin

lemma exec_returns:
  "\<exists>t\<in>set ts. asked_to_stop t \<Longrightarrow> \<exists>r. ie_exec halted halt handler ts s = Some r"
proof (induction ts arbitrary: s)
  case Nil
  then show ?case by simp
next
  case (Cons t ts)
  show ?case
  proof (cases "asked_to_stop t")
    case True
    then show ?thesis by simp
  next
    case False
    with Cons have "\<exists>r. ie_exec halted halt handler ts s' = Some r" for s' by auto
    with False show ?thesis
      by (auto simp: Let_def split: polled.splits sum.splits)
  qed
qed

lemma exec_halted: "halted s \<Longrightarrow> (\<And>s. halted s \<Longrightarrow> halt s = s) \<Longrightarrow> ie_exec halted halt handler ts s = Some (Inr s)"
  by (cases ts) simp_all

lemma events_keep: "halted s \<Longrightarrow> ie_events handler batch s = Inr s' \<Longrightarrow> halted s'"
proof (induction batch arbitrary: s)
  case Nil
  then show ?case by simp
next
  case (Cons x batch)
  obtain ev a where x: "x = (ev, a)" by (cases x)
  with Cons show ?case by (auto dest: handler_keeps split: sum.splits)
qed

text \<open>A loop that returns without an exception returns because it was told to.\<close>

lemma exec_ends_halted:
  "ie_exec halted halt handler ts s = Some (Inr s') \<Longrightarrow> halted s'"
proof (induction ts arbitrary: s)
  case Nil
  then show ?case by (auto split: if_splits)
next
  case (Cons t ts)
  then show ?case
    by (auto simp: Let_def split: if_splits polled.splits sum.splits)
qed

end

end
