(* ===== verification/NetServer.thy ===== *)
theory NetServer
  imports NetLoop SocketSetup Stats
begin

text \<open>
  The server side of \<open>netlib\<close>: \<open>ServerLightEpoll\<close>, \<open>ServerSubEpoll\<close> and
  \<open>ServerMultithEpoll\<close> of \<open>epoll.cpp\<close>, \<open>SinglethreadServer\<close> and \<open>MultithreadServer\<close>
  of \<open>server.cpp\<close>. The calls of a loop are in its own log.
\<close>

text \<open>The kernel's answers to one event, and what the memory of a new \<open>Stats\<close> holds.\<close>

record net_answers =
  n_recv :: recv_result
  n_accepts :: "accept_result list"
  n_garbage :: u64

definition peer_stats :: "net_answers \<Rightarrow> string \<Rightarrow> net_stats" where
  "peer_stats a addr = (new_net_stats (n_garbage a))\<lparr>net_ip := addr\<rparr>"


section \<open>\<open>ServerLightEpoll\<close>\<close>

record light_server =
  lepfd :: fd
  lsock :: fd
  lneed_stop :: bool
  lhandleth :: bool
  lrunning :: nat
  lclients :: "(fd, net_stats) umap"
  llog :: "sys list"

definition server_new :: "fd \<Rightarrow> light_server" where
  "server_new created =
     \<lparr>lepfd = created, lsock = -1, lneed_stop = False, lhandleth = False, lrunning = 0,
      lclients = [], llog = []\<rparr>"

definition llog_add :: "sys list \<Rightarrow> light_server \<Rightarrow> light_server" where
  "llog_add ss s = s\<lparr>llog := llog s @ ss\<rparr>"

definition server_count :: "light_server \<Rightarrow> nat" where
  "server_count s = length (lclients s)"

definition server_start_handle :: "fd \<Rightarrow> bool \<Rightarrow> light_server \<Rightarrow> light_server net_run" where
  "server_start_handle sock ok s =
     (if 0 < lsock s then Inl (Thrown (Runtime_error ''srv wrong use start_handle ''), s)
      else let s = (if 0 < sock then llog_add [Ctl_add (lepfd s) sock ok] s else s)
        in if 0 < sock \<and> \<not> ok then Inr s
           else Inr (s\<lparr>lsock := sock, lhandleth := True, lrunning := lrunning s + 1\<rparr>))"

definition server_remove_client :: "fd \<Rightarrow> light_server \<Rightarrow> light_server" where
  "server_remove_client fd s =
     (let s = llog_add (IEpoll_remove_fd (lepfd s) fd) s;
          s = s\<lparr>lclients := umap_erase fd (lclients s)\<rparr>
      in llog_add [Closed fd] s)"

lemma length_erase_first: "m \<noteq> [] \<Longrightarrow> length (umap_erase (fst (hd m)) m) < length m"
  by (cases m) (auto simp: umap_erase_def less_Suc_eq_le)

text \<open>\<open>while(!clients.empty()) remove_client(clients.begin()->first)\<close>\<close>

function server_remove_all :: "light_server \<Rightarrow> light_server" where
  "server_remove_all s =
     (if lclients s = [] then s
      else server_remove_all (server_remove_client (fst (hd (lclients s))) s))"
  by pat_completeness auto
termination
  by (relation "measure (\<lambda>s. length (lclients s))")
    (simp_all add: server_remove_client_def llog_add_def Let_def length_erase_first)

declare server_remove_all.simps [simp del]

definition server_stop :: "light_server \<Rightarrow> light_server" where
  "server_stop s =
     (let s = s\<lparr>lneed_stop := True\<rparr>;
          s = (if lhandleth s then s\<lparr>lrunning := lrunning s - 1, lhandleth := False\<rparr> else s);
          s = (if 0 < lsock s then llog_add [Closed (lsock s)] s else s)
      in server_remove_all s)"

definition server_handle_client_data :: "fd \<Rightarrow> net_answers \<Rightarrow> light_server \<Rightarrow> light_server" where
  "server_handle_client_data fd a s =
     (case n_recv a of
        Received (b # bs) \<Rightarrow>
          s\<lparr>lclients := umap_modify fd (new_net_stats (n_garbage a))
              (net_addBytes (length (b # bs))) (lclients s)\<rparr>
      | _ \<Rightarrow> server_remove_client fd s)"

fun server_handle_accept :: "net_answers \<Rightarrow> accept_result list \<Rightarrow> light_server \<Rightarrow> light_server net_run" where
  "server_handle_accept a [] s = Inr s"
| "server_handle_accept a (Accept_failed errn # rest) s =
     (if errn = EAGAIN \<or> errn = EWOULDBLOCK then Inr s
      else Inl (Thrown (Runtime_error ''accept4: ''), s))"
| "server_handle_accept a (Accepted client_fd addr # rest) s =
     server_handle_accept a rest
       ((llog_add [Opened client_fd] s)
          \<lparr>lclients := umap_emplace client_fd (peer_stats a addr) (lclients s)\<rparr>)"

definition server_on_epoll_event :: "epoll_event \<Rightarrow> net_answers \<Rightarrow> light_server
    \<Rightarrow> (light_server \<times> event_type option) net_run" where
  "server_on_epoll_event ev a s =
     (let fd = ev_fd ev
      in if hangs_up ev then
           (if fd = lsock s then Inr (s\<lparr>lneed_stop := True\<rparr>, None)
            else Inr (server_remove_client fd s, Some ClientDisconnect))
         else if evs ev AND EPOLLIN \<noteq> 0 then
           (if 0 < lsock s \<and> fd = lsock s then
              (case server_handle_accept a (n_accepts a) s of
                 Inl (x, s1) \<Rightarrow> Inl (x, s1, None) | Inr s1 \<Rightarrow> Inr (s1, None))
            else if umap_count fd (lclients s) then Inr (server_handle_client_data fd a s, None)
            else Inr (s, None))
         else Inr (s, None))"


section \<open>\<open>ServerSubEpoll\<close>\<close>

record sub_server =
  uepfd :: fd
  usock :: fd
  uneed_stop :: bool
  uhandleth :: bool
  uclients :: "(fd, net_stats) umap"
  upending :: "(fd \<times> net_stats) list"
  ulog :: "sys list"

definition sub_new :: "fd \<Rightarrow> sub_server" where
  "sub_new created =
     \<lparr>uepfd = created, usock = -1, uneed_stop = False, uhandleth = False, uclients = [],
      upending = [], ulog = []\<rparr>"

definition ulog_add :: "sys list \<Rightarrow> sub_server \<Rightarrow> sub_server" where
  "ulog_add ss u = u\<lparr>ulog := ulog u @ ss\<rparr>"

definition sub_count :: "sub_server \<Rightarrow> nat" where
  "sub_count u = length (uclients u)"

definition sub_start_handle :: "fd \<Rightarrow> bool \<Rightarrow> sub_server \<Rightarrow> sub_server net_run" where
  "sub_start_handle sock ok u =
     (if 0 < usock u then Inl (Thrown (Runtime_error ''srv wrong use start_handle ''), u)
      else let u = (if 0 < sock then ulog_add [Ctl_add (uepfd u) sock ok] u else u)
        in if 0 < sock \<and> \<not> ok then Inr u else Inr (u\<lparr>usock := sock, uhandleth := True\<rparr>))"

definition sub_push_external_socket :: "fd \<Rightarrow> net_stats \<Rightarrow> sub_server \<Rightarrow> sub_server" where
  "sub_push_external_socket client_fd st u = u\<lparr>upending := upending u @ [(client_fd, st)]\<rparr>"

definition sub_remove_client :: "fd \<Rightarrow> sub_server \<Rightarrow> sub_server" where
  "sub_remove_client fd u =
     (let u = ulog_add (IEpoll_remove_fd (uepfd u) fd) u;
          u = u\<lparr>uclients := umap_erase fd (uclients u)\<rparr>
      in ulog_add [Closed fd] u)"

function sub_remove_all :: "sub_server \<Rightarrow> sub_server" where
  "sub_remove_all u =
     (if uclients u = [] then u else sub_remove_all (sub_remove_client (fst (hd (uclients u))) u))"
  by pat_completeness auto
termination
  by (relation "measure (\<lambda>u. length (uclients u))")
    (simp_all add: sub_remove_client_def ulog_add_def Let_def length_erase_first)

declare sub_remove_all.simps [simp del]

definition sub_stop :: "sub_server \<Rightarrow> sub_server" where
  "sub_stop u =
     (let u = u\<lparr>uneed_stop := True\<rparr>;
          u = (if uhandleth u then u\<lparr>uhandleth := False\<rparr> else u);
          u = (if 0 < usock u then ulog_add [Closed (usock u)] u else u)
      in sub_remove_all u)"

definition sub_handle_client_data :: "fd \<Rightarrow> net_answers \<Rightarrow> sub_server \<Rightarrow> sub_server" where
  "sub_handle_client_data fd a u =
     (case n_recv a of
        Received (b # bs) \<Rightarrow>
          u\<lparr>uclients := umap_modify fd (new_net_stats (n_garbage a))
              (net_addBytes (length (b # bs))) (uclients u)\<rparr>
      | _ \<Rightarrow> sub_remove_client fd u)"

definition sub_on_epoll_event :: "epoll_event \<Rightarrow> net_answers \<Rightarrow> sub_server \<Rightarrow> sub_server" where
  "sub_on_epoll_event ev a u =
     (let fd = ev_fd ev
      in if hangs_up ev then
           (if fd = usock u then u\<lparr>uneed_stop := True\<rparr> else sub_remove_client fd u)
         else if evs ev AND EPOLLIN \<noteq> 0 then sub_handle_client_data fd a u
         else u)"


section \<open>\<open>ServerMultithEpoll\<close>\<close>

text \<open>\<open>orphans\<close> are the loops \<open>start_handle\<close> creates and keeps no pointer to.\<close>

record multith_server =
  mepfd :: fd
  msock :: fd
  mneed_stop :: bool
  mhandleth :: bool
  subepolls_list :: "sub_server list"
  orphans :: "sub_server list"
  mlog :: "sys list"

definition multith_server_new :: "fd \<Rightarrow> multith_server" where
  "multith_server_new created =
     \<lparr>mepfd = created, msock = -1, mneed_stop = False, mhandleth = False, subepolls_list = [],
      orphans = [], mlog = []\<rparr>"

definition mlog_add :: "sys list \<Rightarrow> multith_server \<Rightarrow> multith_server" where
  "mlog_add ss m = m\<lparr>mlog := mlog m @ ss\<rparr>"

fun start_subs :: "fd list \<Rightarrow> multith_server \<Rightarrow> multith_server net_run" where
  "start_subs [] m = Inr m"
| "start_subs (created # rest) m =
     (case IEpoll_new created of
        Inl x \<Rightarrow> Inl (x, m)
      | Inr (epfd, ss) \<Rightarrow>
          (case sub_start_handle (-1) True (sub_new epfd) of
             Inl (x, _) \<Rightarrow> Inl (x, m)
           | Inr u \<Rightarrow> start_subs rest ((mlog_add ss m)\<lparr>orphans := orphans m @ [u]\<rparr>)))"

text \<open>\<open>workers\<close> are the descriptors \<open>epoll_create1\<close> gives the \<open>count_workers\<close> loops.\<close>

definition multith_server_start_handle :: "fd \<Rightarrow> bool \<Rightarrow> fd list \<Rightarrow> multith_server
    \<Rightarrow> multith_server net_run" where
  "multith_server_start_handle sock ok workers m =
     (if 0 < msock m then Inl (Thrown (Runtime_error ''srv wrong use start_handle ''), m)
      else let m = (if 0 < sock then mlog_add [Ctl_add (mepfd m) sock ok] m else m)
        in if 0 < sock \<and> \<not> ok then Inr m
           else start_subs workers (m\<lparr>msock := sock, mhandleth := True\<rparr>))"

definition multith_server_stop :: "multith_server \<Rightarrow> multith_server" where
  "multith_server_stop m =
     (let m = m\<lparr>mneed_stop := True\<rparr>;
          m = (if mhandleth m then m\<lparr>mhandleth := False\<rparr> else m)
      in if 0 < msock m then mlog_add [Closed (msock m)] m else m)"

definition multith_server_destroy :: "multith_server \<Rightarrow> multith_server" where
  "multith_server_destroy m =
     (let m = m\<lparr>subepolls_list := map sub_stop (subepolls_list m)\<rparr>
      in m\<lparr>subepolls_list := []\<rparr>)"

definition multith_server_count :: "multith_server \<Rightarrow> nat" where
  "multith_server_count m = sum_list (map sub_count (subepolls_list m))"

fun multith_handle_accept :: "net_answers \<Rightarrow> accept_result list \<Rightarrow> multith_server
    \<Rightarrow> multith_server net_run" where
  "multith_handle_accept a [] m = Inr m"
| "multith_handle_accept a (Accept_failed errn # rest) m =
     (if errn = EAGAIN \<or> errn = EWOULDBLOCK then Inr m
      else Inl (Thrown (Runtime_error ''accept4: ''), m))"
| "multith_handle_accept a (Accepted client_fd addr # rest) m =
     (let m = mlog_add [Opened client_fd] m
      in case min_element (\<lambda>u. int (sub_count u)) (subepolls_list m) of
           None \<Rightarrow> Inl (Undefined Out_of_bounds, m)
         | Some i \<Rightarrow>
             multith_handle_accept a rest
               (m\<lparr>subepolls_list := (subepolls_list m)
                   [i := sub_push_external_socket client_fd (peer_stats a addr) (subepolls_list m ! i)]\<rparr>))"

definition multith_server_on_epoll_event :: "epoll_event \<Rightarrow> net_answers \<Rightarrow> multith_server
    \<Rightarrow> multith_server net_run" where
  "multith_server_on_epoll_event ev a m =
     (if hangs_up ev then Inr (if ev_fd ev = msock m then m\<lparr>mneed_stop := True\<rparr> else m)
      else if evs ev AND EPOLLIN \<noteq> 0 then multith_handle_accept a (n_accepts a) m
      else Inr m)"


section \<open>\<open>SinglethreadServer\<close> and \<open>MultithreadServer\<close>\<close>

datatype server_state = STOPPED | SERVER_WAITING | SERVER_ERROR

record 'e net_server =
  s_host :: string
  s_port :: int
  max_connections :: int
  s_last_error :: string
  s_state :: server_state
  engine :: 'e

definition getServerState :: "'e net_server \<Rightarrow> string" where
  "getServerState sv =
     (case s_state sv of
        STOPPED \<Rightarrow> ''STOPPED''
      | SERVER_WAITING \<Rightarrow> ''WAITING''
      | SERVER_ERROR \<Rightarrow> ''ERROR: '' @ s_last_error sv)"

definition single_server_start :: "so_answers \<Rightarrow> bool \<Rightarrow> light_server net_server
    \<Rightarrow> (failure + bool) \<times> light_server net_server" where
  "single_server_start k ok sv =
     (case create_listen_socket k (s_host sv) of (sock, msg, ss) \<Rightarrow>
        let sv = (if msg = '''' then sv else sv\<lparr>s_last_error := msg\<rparr>);
            sv = sv\<lparr>engine := llog_add ss (engine sv)\<rparr>
        in if sock < 0 then (Inr False, sv\<lparr>s_state := SERVER_ERROR\<rparr>)
           else let sv = sv\<lparr>s_state := SERVER_WAITING\<rparr>
             in (case server_start_handle sock ok (engine sv) of
                   Inl (x, s) \<Rightarrow> (Inl x, sv\<lparr>engine := s\<rparr>)
                 | Inr s \<Rightarrow> (Inr True, sv\<lparr>engine := s\<rparr>)))"

definition single_server_stop :: "light_server net_server \<Rightarrow> light_server net_server" where
  "single_server_stop sv =
     (let sv = sv\<lparr>s_state := STOPPED\<rparr> in sv\<lparr>engine := server_stop (engine sv)\<rparr>)"

definition multi_server_start :: "so_answers \<Rightarrow> bool \<Rightarrow> fd list \<Rightarrow> multith_server net_server
    \<Rightarrow> (failure + bool) \<times> multith_server net_server" where
  "multi_server_start k ok workers sv =
     (case create_listen_socket k (s_host sv) of (sock, msg, ss) \<Rightarrow>
        let sv = (if msg = '''' then sv else sv\<lparr>s_last_error := msg\<rparr>);
            sv = sv\<lparr>engine := mlog_add ss (engine sv)\<rparr>
        in if sock < 0 then (Inr False, sv\<lparr>s_state := SERVER_ERROR\<rparr>)
           else let sv = sv\<lparr>s_state := SERVER_WAITING\<rparr>
             in (case multith_server_start_handle sock ok workers (engine sv) of
                   Inl (x, m) \<Rightarrow> (Inl x, sv\<lparr>engine := m\<rparr>)
                 | Inr m \<Rightarrow> (Inr True, sv\<lparr>engine := m\<rparr>)))"

definition multi_server_stop :: "multith_server net_server \<Rightarrow> multith_server net_server" where
  "multi_server_stop sv =
     (let sv = sv\<lparr>s_state := STOPPED\<rparr> in sv\<lparr>engine := multith_server_stop (engine sv)\<rparr>)"

text \<open>\<open>countClients\<close> of the two servers.\<close>

definition single_server_count :: "light_server net_server \<Rightarrow> nat" where
  "single_server_count sv = server_count (engine sv)"

definition multi_server_count :: "multith_server net_server \<Rightarrow> nat" where
  "multi_server_count sv = multith_server_count (engine sv)"



section \<open>The interfaces\<close>

definition halt_server :: "light_server \<Rightarrow> light_server" where
  "halt_server s = s\<lparr>lneed_stop := True\<rparr>"

definition server_handler :: "epoll_event \<Rightarrow> net_answers \<Rightarrow> light_server \<Rightarrow> light_server net_run" where
  "server_handler ev a s =
     (case server_on_epoll_event ev a s of Inl (x, s1, _) \<Rightarrow> Inl (x, s1) | Inr (s1, _) \<Rightarrow> Inr s1)"

lemma server_remove_client_sel [simp]:
  "lneed_stop (server_remove_client fd s) = lneed_stop s" "lsock (server_remove_client fd s) = lsock s"
  "lclients (server_remove_client fd s) = umap_erase fd (lclients s)"
  "llog (server_remove_client fd s) = llog s @ [Ctl_del (lepfd s) fd, Closed fd]"
  "lepfd (server_remove_client fd s) = lepfd s" "lhandleth (server_remove_client fd s) = lhandleth s"
  by (simp_all add: server_remove_client_def llog_add_def Let_def IEpoll_remove_fd_def)

lemma server_handle_accept_eq:
  assumes "server_handle_accept a rs s = Inr s'"
  shows "lneed_stop s' = lneed_stop s \<and> lsock s' = lsock s \<and> lepfd s' = lepfd s \<and>
    lhandleth s' = lhandleth s \<and>
    (\<exists>new. llog s' = llog s @ map (Opened \<circ> fst) new \<and>
       lclients s' = fold (\<lambda>(fd, addr). umap_emplace fd (peer_stats a addr)) new (lclients s))"
  using assms
proof (induction rs arbitrary: s)
  case Nil
  then show ?case by (auto intro!: exI [of _ "[]"])
next
  case (Cons r rs)
  show ?case
  proof (cases r)
    case (Accept_failed errn)
    with Cons.prems show ?thesis by (auto split: if_splits intro!: exI [of _ "[]"])
  next
    case (Accepted fd addr)
    with Cons.IH Cons.prems obtain new where
      "llog s' = llog s @ [Opened fd] @ map (Opened \<circ> fst) new"
      "lclients s' = fold (\<lambda>(fd, addr). umap_emplace fd (peer_stats a addr)) new
        (umap_emplace fd (peer_stats a addr) (lclients s))"
      "lneed_stop s' = lneed_stop s \<and> lsock s' = lsock s \<and> lepfd s' = lepfd s \<and>
        lhandleth s' = lhandleth s"
      by (fastforce simp: llog_add_def)
    then show ?thesis by (intro conjI exI [of _ "(fd, addr) # new"]) simp_all
  qed
qed

interpretation server_thread: event_loop lneed_stop halt_server server_handler
proof
  show "lneed_stop (halt_server s)" for s by (simp add: halt_server_def)
  show "lneed_stop s'" if "lneed_stop s" "server_handler ev a s = Inr s'" for s ev a s'
    using that server_handle_accept_eq [of a "n_accepts a" s s']
    by (auto simp: server_handler_def server_on_epoll_event_def server_handle_client_data_def Let_def
        split: if_splits sum.splits recv_result.splits list.splits)
qed

definition halt_sub :: "sub_server \<Rightarrow> sub_server" where
  "halt_sub u = u\<lparr>uneed_stop := True\<rparr>"

interpretation sub_thread: event_loop uneed_stop halt_sub "\<lambda>ev a u. Inr (sub_on_epoll_event ev a u)"
  by unfold_locales
    (auto simp: halt_sub_def sub_on_epoll_event_def sub_handle_client_data_def sub_remove_client_def
      ulog_add_def Let_def split: if_splits recv_result.splits list.splits)

text \<open>The thread of the single-threaded server ends after \<open>stop\<close> has raised its flag, whatever
  is polled before and after, and when it ends without an exception the flag is up.\<close>

theorem server_thread_stops:
  assumes "asked_to_stop t"
  shows "\<exists>r. ie_exec lneed_stop halt_server server_handler (ts @ t # us) s = Some r \<and>
    (case r of Inl _ \<Rightarrow> True | Inr s' \<Rightarrow> lneed_stop s')"
proof -
  obtain r where r: "ie_exec lneed_stop halt_server server_handler (ts @ t # us) s = Some r"
    using server_thread.exec_returns [of "ts @ t # us" s] assms by auto
  with server_thread.exec_ends_halted [of "ts @ t # us" s] show ?thesis
    by (cases r) auto
qed

lemma server_thread_stops_witness:
  "\<exists>r. ie_exec lneed_stop halt_server server_handler
      ([\<lparr>asked_to_stop = False, polled = Poll_failed EINTR\<rparr>] @
       \<lparr>asked_to_stop = True, polled = Polled []\<rparr> # []) (server_new 3) = Some r \<and>
    (case r of Inl _ \<Rightarrow> True | Inr s' \<Rightarrow> lneed_stop s')"
  by (rule server_thread_stops) simp


section \<open>Stopping\<close>

lemma server_remove_all_eq:
  assumes "umap_wf (lclients s)"
  shows "lclients (server_remove_all s) = [] \<and>
    closed_fds (llog (server_remove_all s)) = closed_fds (llog s) @ map fst (lclients s) \<and>
    lsock (server_remove_all s) = lsock s \<and> lneed_stop (server_remove_all s) = lneed_stop s \<and>
    lhandleth (server_remove_all s) = lhandleth s"
  using assms
proof (induction s rule: server_remove_all.induct)
  case (1 s)
  show ?case
  proof (cases "lclients s")
    case Nil
    then show ?thesis by (simp add: server_remove_all.simps [of s])
  next
    case (Cons e m)
    let ?s = "server_remove_client (fst e) s"
    have "umap_erase (fst e) (lclients s) = m"
      using 1(2) by (auto simp: Cons umap_erase_def umap_wf_def image_iff intro!: filter_True)
    moreover have "umap_wf m" using 1(2) by (simp add: Cons umap_wf_def)
    moreover have "server_remove_all s = server_remove_all ?s"
      using Cons by (simp add: server_remove_all.simps [of s])
    ultimately show ?thesis
      using 1(1) Cons by simp
  qed
qed

text \<open>Stopping the single-threaded server ends, closes its listening socket and every client
  once, in the order of the map, and leaves it without clients and with its flag up.\<close>

theorem server_stop_closes_all:
  assumes "umap_wf (lclients s)"
  shows "let s' = server_stop s
    in lclients s' = [] \<and> lneed_stop s' \<and> \<not> lhandleth s' \<and>
       closed_fds (llog s') = closed_fds (llog s) @
         (if 0 < lsock s then [lsock s] else []) @ map fst (lclients s)"
  using assms server_remove_all_eq [of "s\<lparr>lneed_stop := True, lrunning := n, lhandleth := False,
      llog := l\<rparr>" for n l] server_remove_all_eq [of "s\<lparr>lneed_stop := True, llog := l\<rparr>" for l]
    server_remove_all_eq [of "s\<lparr>lneed_stop := True\<rparr>"]
    server_remove_all_eq [of "s\<lparr>lneed_stop := True, lrunning := n, lhandleth := False\<rparr>" for n]
  by (auto simp: server_stop_def llog_add_def Let_def)

definition busy_server :: light_server where
  "busy_server = \<lparr>lepfd = 3, lsock = 4, lneed_stop = False, lhandleth = True, lrunning = 1,
     lclients = [(7, new_net_stats 0), (5, new_net_stats 9)], llog = []\<rparr>"

lemma server_stop_closes_all_witness:
  "closed_fds (llog (server_stop busy_server)) = [4, 7, 5]"
proof -
  have "umap_wf (lclients busy_server)" by (simp add: busy_server_def umap_wf_def)
  from server_stop_closes_all [OF this] show ?thesis
    by (simp add: busy_server_def Let_def)
qed



section \<open>Accepted clients are never watched\<close>

fun opened_fds :: "sys list \<Rightarrow> fd list" where
  "opened_fds [] = []"
| "opened_fds (Opened fd # ss) = fd # opened_fds ss"
| "opened_fds (s # ss) = opened_fds ss"

lemma opened_fds_append [simp]: "opened_fds (xs @ ys) = opened_fds xs @ opened_fds ys"
  by (induction xs rule: opened_fds.induct) simp_all

lemma opened_fds_map [simp]: "opened_fds (map (Opened \<circ> fst) new) = map fst new"
  by (induction new) simp_all

lemma closed_fds_opened [simp]: "closed_fds (map (Opened \<circ> fst) new) = []"
  by (induction new) simp_all

text \<open>
  The kernel reports events for descriptors the loop has registered, and accepts descriptors
  that are not in use.
\<close>

definition watched :: "light_server \<Rightarrow> fd \<Rightarrow> bool" where
  "watched s fd \<longleftrightarrow> Ctl_add (lepfd s) fd True \<in> set (llog s)"

inductive server_runs :: "fd \<Rightarrow> fd \<Rightarrow> light_server \<Rightarrow> bool" for created sock where
  started: "server_start_handle sock True (server_new created) = Inr s \<Longrightarrow>
     server_runs created sock s"
| event: "server_runs created sock s \<Longrightarrow> watched s (ev_fd ev) \<Longrightarrow>
     accepts_fresh (\<lambda>_. True) (insert sock (fst ` set (lclients s))) (n_accepts a) \<Longrightarrow>
     server_handler ev a s = Inr s' \<Longrightarrow> server_runs created sock s'"

definition untouched :: "fd \<times> net_stats \<Rightarrow> bool" where
  "untouched p \<longleftrightarrow> snd p = (new_net_stats (net_total_bytes (snd p)))\<lparr>net_ip := net_ip (snd p)\<rparr>"

definition server_idle :: "fd \<Rightarrow> light_server \<Rightarrow> bool" where
  "server_idle sock s \<longleftrightarrow> lsock s = sock \<and> (\<forall>fd. watched s fd \<longrightarrow> fd = sock) \<and>
     sock \<notin> fst ` set (lclients s) \<and> closed_fds (llog s) = [] \<and>
     opened_fds (llog s) = map fst (lclients s) \<and> list_all untouched (lclients s)"

lemma server_handle_accept_idle:
  assumes "server_handle_accept a rs s = Inr s'" "server_idle sock s"
    "accepts_fresh (\<lambda>_. True) (insert sock (fst ` set (lclients s))) rs"
  shows "server_idle sock s'"
  using assms
proof (induction rs arbitrary: s)
  case Nil
  then show ?case by simp
next
  case (Cons r rs)
  show ?case
  proof (cases r)
    case (Accept_failed errn)
    with Cons.prems show ?thesis by (auto split: if_splits)
  next
    case (Accepted fd addr)
    let ?s = "(llog_add [Opened fd] s)\<lparr>lclients := umap_emplace fd (peer_stats a addr) (lclients s)\<rparr>"
    have fd: "fd \<noteq> sock" "fd \<notin> fst ` set (lclients s)" using Cons.prems(3) by (simp_all add: Accepted)
    then have new: "lclients ?s = lclients s @ [(fd, peer_stats a addr)]"
      by (simp add: umap_emplace_def umap_count_def)
    have "untouched (fd, peer_stats a addr)"
      by (simp add: untouched_def peer_stats_def new_net_stats_def)
    with Cons.prems(2) fd have "server_idle sock ?s"
      using new by (auto simp: server_idle_def watched_def llog_add_def simp del: umap_emplace_def)
    moreover have "server_handle_accept a rs ?s = Inr s'" using Cons.prems(1) by (simp add: Accepted)
    moreover have "accepts_fresh (\<lambda>_. True) (insert sock (fst ` set (lclients ?s))) rs"
      using Cons.prems(3) by (simp add: Accepted umap_simps insert_commute)
    ultimately show ?thesis using Cons.IH [of ?s] by blast
  qed
qed

lemma server_idle_runs:
  assumes "server_runs created sock s" "0 < sock"
  shows "server_idle sock s"
  using assms(1)
proof induction
  case (started s)
  with assms(2) show ?case
    by (auto simp: server_start_handle_def server_new_def llog_add_def server_idle_def watched_def)
next
  case (event s ev a s')
  have fd: "ev_fd ev = sock" "lsock s = sock" using event(2,5) by (simp_all add: server_idle_def)
  consider (up) "hangs_up ev" | (acc) "\<not> hangs_up ev" "evs ev AND EPOLLIN \<noteq> 0"
    | (none) "\<not> hangs_up ev" "evs ev AND EPOLLIN = 0" by blast
  then show ?case
  proof cases
    case up
    with event(4) fd have "s' = s\<lparr>lneed_stop := True\<rparr>"
      by (simp add: server_handler_def server_on_epoll_event_def Let_def)
    with event(5) show ?thesis by (simp add: server_idle_def watched_def)
  next
    case acc
    with event(4) fd assms(2) have "server_handle_accept a (n_accepts a) s = Inr s'"
      by (auto simp: server_handler_def server_on_epoll_event_def Let_def split: sum.splits)
    from server_handle_accept_idle [OF this event(5,3)] show ?thesis .
  next
    case none
    with event(4,5) show ?thesis by (simp add: server_handler_def server_on_epoll_event_def Let_def)
  qed
qed

text \<open>The single-threaded server of \<open>netlib\<close> accepts clients and then never hears of them: as
  long as it runs it registers none with its \<open>epoll\<close>, so no client is read from, counted a byte,
  or removed and closed, whatever the clients send and however they leave.\<close>

theorem accepted_clients_never_served:
  assumes "server_runs created sock s" "0 < sock"
  shows "closed_fds (llog s) = [] \<and> opened_fds (llog s) = map fst (lclients s) \<and>
    list_all untouched (lclients s)"
  using server_idle_runs [OF assms] by (simp add: server_idle_def)

lemma accepted_clients_never_served_witness:
  "\<exists>s. server_runs 3 4 s \<and> map fst (lclients s) = [7] \<and>
    closed_fds (llog s) = [] \<and> opened_fds (llog s) = map fst (lclients s) \<and>
    list_all untouched (lclients s)"
proof -
  let ?s0 = "\<lparr>lepfd = 3, lsock = 4, lneed_stop = False, lhandleth = True, lrunning = Suc 0,
      lclients = [], llog = [Ctl_add 3 4 True]\<rparr>"
  let ?a = "\<lparr>n_recv = Received [], n_accepts = [Accepted 7 ''x''], n_garbage = 5\<rparr>"
  let ?s1 = "?s0\<lparr>lclients := [(7, peer_stats ?a ''x'')], llog := [Ctl_add 3 4 True, Opened 7]\<rparr>"
  have "server_runs 3 4 ?s0"
    by (rule server_runs.started) (simp add: server_start_handle_def server_new_def llog_add_def Let_def)
  then have "server_runs 3 4 ?s1"
  proof (rule server_runs.event)
    show "watched ?s0 (ev_fd \<lparr>ev_fd = 4, evs = EPOLLIN\<rparr>)" by (simp add: watched_def)
    show "accepts_fresh (\<lambda>_. True) (insert 4 (fst ` set (lclients ?s0))) (n_accepts ?a)" by simp
    show "server_handler \<lparr>ev_fd = 4, evs = EPOLLIN\<rparr> ?a ?s0 = Inr ?s1"
      by (simp add: server_handler_def server_on_epoll_event_def hangs_up_def epoll_flags
          llog_add_def umap_emplace_def umap_count_def Let_def)
  qed
  from accepted_clients_never_served [OF this] this show ?thesis
    by (intro exI [of _ ?s1]) simp
qed


section \<open>The multi-threaded server has no workers\<close>

lemma start_subs_list: "start_subs workers m = Inr m' \<Longrightarrow> subepolls_list m' = subepolls_list m"
  by (induction workers m rule: start_subs.induct)
    (auto simp: mlog_add_def split: sum.splits)

text \<open>The loops the multi-threaded server starts are never put into the list it balances over,
  so the first connection it accepts makes it dereference the end of an empty list.\<close>

theorem multith_accept_undefined:
  assumes "multith_server_start_handle sock ok workers (multith_server_new created) = Inr m"
    and "\<not> hangs_up ev" "evs ev AND EPOLLIN \<noteq> 0" "n_accepts a = Accepted fd addr # rest"
  shows "\<exists>m'. multith_server_on_epoll_event ev a m = Inl (Undefined Out_of_bounds, m') \<and>
    multith_server_count m = 0"
proof -
  have "subepolls_list m = []"
    using assms(1) start_subs_list
    by (fastforce simp: multith_server_start_handle_def multith_server_new_def mlog_add_def Let_def
        split: if_splits)
  with assms(2-) show ?thesis
    by (simp add: multith_server_on_epoll_event_def mlog_add_def multith_server_count_def)
qed

lemma multith_accept_undefined_witness:
  "\<exists>m m'. multith_server_start_handle 4 True [5, 6] (multith_server_new 3) = Inr m \<and>
    length (orphans m) = 2 \<and>
    multith_server_on_epoll_event \<lparr>ev_fd = 4, evs = EPOLLIN\<rparr>
      \<lparr>n_recv = Received [], n_accepts = [Accepted 7 ''x''], n_garbage = 0\<rparr> m =
    Inl (Undefined Out_of_bounds, m') \<and> multith_server_count m = 0"
proof -
  have "\<exists>m. multith_server_start_handle 4 True [5, 6] (multith_server_new 3) = Inr m \<and>
      length (orphans m) = 2"
    by (simp add: multith_server_start_handle_def multith_server_new_def mlog_add_def
        IEpoll_new_def sub_start_handle_def sub_new_def Let_def)
  then obtain m where m: "multith_server_start_handle 4 True [5, 6] (multith_server_new 3) = Inr m"
    "length (orphans m) = 2" by blast
  have "\<exists>m'. multith_server_on_epoll_event \<lparr>ev_fd = 4, evs = EPOLLIN\<rparr>
      \<lparr>n_recv = Received [], n_accepts = [Accepted 7 ''x''], n_garbage = 0\<rparr> m =
    Inl (Undefined Out_of_bounds, m') \<and> multith_server_count m = 0"
    by (rule multith_accept_undefined [OF m(1)]) (simp_all add: hangs_up_def epoll_flags)
  with m show ?thesis by blast
qed

text \<open>
  Even with workers the balancing would not spread: the load a worker reports does not see
  its queue.
\<close>

lemma min_element_update:
  assumes "min_element key xs = Some i" "key y = key (xs ! i)"
  shows "min_element key (xs[i := y]) = Some i"
proof -
  have "map key (xs[i := y]) = map key xs"
    using assms(2) by (metis list_update_id map_update)
  moreover have "min_element key zs = min_element id (map key zs)" for zs
  proof -
    have "min_scan key ws j b l = min_scan id (map key ws) j b l" for ws j b l
      by (induction ws arbitrary: j b l) simp_all
    then show ?thesis by (cases zs) simp_all
  qed
  ultimately show ?thesis using assms(1) by metis
qed

text \<open>However many connections the multi-threaded server accepts at once, it queues all of them
  at the same worker: a push does not change the load the workers are compared by.\<close>

theorem multith_balance_starves:
  assumes "min_element (\<lambda>u. int (sub_count u)) (subepolls_list m) = Some i"
    and "multith_handle_accept a rs m = Inr m'" "j < length (subepolls_list m)" "j \<noteq> i"
  shows "subepolls_list m' ! j = subepolls_list m ! j"
  using assms
proof (induction rs arbitrary: m)
  case Nil
  then show ?case by simp
next
  case (Cons r rs)
  show ?case
  proof (cases r)
    case (Accept_failed errn)
    with Cons.prems show ?thesis by (auto split: if_splits)
  next
    case (Accepted fd addr)
    let ?u = "sub_push_external_socket fd (peer_stats a addr) (subepolls_list m ! i)"
    let ?m = "(mlog_add [Opened fd] m)\<lparr>subepolls_list := (subepolls_list m)[i := ?u]\<rparr>"
    have "int (sub_count ?u) = int (sub_count (subepolls_list m ! i))"
      by (simp add: sub_count_def sub_push_external_socket_def)
    from min_element_update [OF Cons.prems(1) this]
    have "min_element (\<lambda>u. int (sub_count u)) (subepolls_list ?m) = Some i"
      by simp
    moreover have "multith_handle_accept a rs ?m = Inr m'"
      using Cons.prems(1,2) by (simp add: Accepted mlog_add_def)
    ultimately have "subepolls_list m' ! j = subepolls_list ?m ! j"
      using Cons.prems(3,4) by (intro Cons.IH) simp_all
    with Cons.prems(4) show ?thesis by simp
  qed
qed

lemma multith_balance_starves_witness:
  "\<exists>m'. multith_handle_accept \<lparr>n_recv = Received [], n_accepts = [], n_garbage = 0\<rparr>
      [Accepted 7 ''x'', Accepted 8 ''y'']
      ((multith_server_new 3)\<lparr>subepolls_list := [sub_new 5, sub_new 6]\<rparr>) = Inr m' \<and>
    length (upending (subepolls_list m' ! 0)) = 2 \<and> subepolls_list m' ! 1 = sub_new 6"
proof -
  let ?m = "(multith_server_new 3)\<lparr>subepolls_list := [sub_new 5, sub_new 6]\<rparr>"
  obtain m' where m': "multith_handle_accept \<lparr>n_recv = Received [], n_accepts = [], n_garbage = 0\<rparr>
      [Accepted 7 ''x'', Accepted 8 ''y''] ?m = Inr m'" "length (upending (subepolls_list m' ! 0)) = 2"
    by (simp add: sub_count_def sub_new_def mlog_add_def sub_push_external_socket_def Let_def)
  have "subepolls_list m' ! 1 = subepolls_list ?m ! 1"
    by (rule multith_balance_starves [OF _ m'(1), where i = 0]) (simp_all add: sub_count_def sub_new_def)
  with m' show ?thesis by simp
qed


section \<open>Starting and stopping\<close>

text \<open>A server that was stopped cannot be started again: the stop leaves the old number in
  \<open>socket_\<close>, so \<open>start\<close> makes a new listening socket and throws, leaving it open.\<close>

theorem restart_throws:
  assumes "0 < lsock (engine sv)" "umap_wf (lclients (engine sv))"
    and "so_contract S k" "fst (create_listen_socket k (s_host sv)) = so_socket k" "0 < so_socket k"
    and "replay (llog (engine (single_server_stop sv))) B = Some S"
  shows "\<exists>sv'. single_server_start k ok (single_server_stop sv) =
      (Inl (Thrown (Runtime_error ''srv wrong use start_handle '')), sv') \<and>
    replay (llog (engine sv')) B = Some (insert (so_socket k) S)"
proof -
  have lsock: "lsock (server_stop s) = lsock s" if "umap_wf (lclients s)" for s
    using that server_remove_all_eq [of "s\<lparr>lneed_stop := True, lrunning := n, lhandleth := False, llog := l\<rparr>" for n l]
      server_remove_all_eq [of "s\<lparr>lneed_stop := True, llog := l\<rparr>" for l]
      server_remove_all_eq [of "s\<lparr>lneed_stop := True\<rparr>"]
      server_remove_all_eq [of "s\<lparr>lneed_stop := True, lrunning := n, lhandleth := False\<rparr>" for n]
    by (auto simp: server_stop_def llog_add_def Let_def)
  obtain msg ss where c: "create_listen_socket k (s_host sv) = (so_socket k, msg, ss)"
    using assms(4) by (metis prod.collapse)
  have "0 \<le> so_listen k"
  proof (rule ccontr)
    assume "\<not> 0 \<le> so_listen k"
    with c assms(5) show False
      by (auto simp: create_listen_socket_def setup_fail_def split: if_splits)
  qed
  from create_listen_socket_other_errors [OF assms(3) this, of "s_host sv"] c assms(5)
  have "replay ss S = Some (insert (so_socket k) S)" by (auto simp: sound_setup_def)
  with assms(1,2,5,6) c lsock [of "engine sv"] show ?thesis
    by (simp add: single_server_start_def single_server_stop_def server_start_handle_def llog_add_def Let_def)
qed

definition demo_so :: "fd \<Rightarrow> int \<Rightarrow> so_answers" where
  "demo_so n lst = \<lparr>so_socket = n, so_rcvbuf = 0, so_sndbuf = 0, so_rcvtimeo = 0, so_reuse = 0,
     so_own_addr = 1, so_peer_addr = 1, so_addrinfo = 0, so_bind = 0, so_listen = lst, so_connect = 0\<rparr>"

definition demo_server :: "light_server net_server" where
  "demo_server = \<lparr>s_host = ''0.0.0.0'', s_port = 12345, max_connections = 10, s_last_error = '''',
     s_state = STOPPED, engine = server_new 3\<rparr>"

lemma restart_throws_witness:
  "\<exists>sv'. single_server_start (demo_so 5 0) True (single_server_stop
      (demo_server\<lparr>engine := busy_server\<lparr>lclients := []\<rparr>\<rparr>)) =
      (Inl (Thrown (Runtime_error ''srv wrong use start_handle '')), sv') \<and>
    replay (llog (engine sv')) {0, 1, 2, 3, 4} = Some (insert (so_socket (demo_so 5 0)) {0, 1, 2, 3})"
proof (rule restart_throws)
  show "replay (llog (engine (single_server_stop (demo_server\<lparr>engine := busy_server\<lparr>lclients := []\<rparr>\<rparr>))))
      {0, 1, 2, 3, 4} = Some {0, 1, 2, 3}"
    by (auto simp: single_server_stop_def server_stop_def busy_server_def demo_server_def
        server_remove_all.simps llog_add_def Let_def)
qed (simp_all add: demo_server_def busy_server_def demo_so_def so_contract_def create_listen_socket_def)

text \<open>When \<open>listen\<close> fails, \<open>create_listen_socket\<close> returns 0 instead of -1: \<open>start\<close> reports
  success and the server waits for clients on a socket it has already closed.\<close>

theorem failed_listen_reported_as_started:
  assumes "so_contract S k" "so_socket k \<noteq> -1" "so_reuse k = 0" "0 < so_own_addr k" "0 \<le> so_bind k"
    and "so_listen k < 0" "lsock (engine sv) \<le> 0" "replay (llog (engine sv)) B = Some S"
  shows "\<exists>sv'. single_server_start k ok sv = (Inr True, sv') \<and>
    getServerState sv' = ''WAITING'' \<and> replay (llog (engine sv')) B = Some S"
  using assms
  by (simp add: single_server_start_def create_listen_socket_def setup_fail_def so_contract_def
      opened_def server_start_handle_def llog_add_def getServerState_def Let_def)

lemma failed_listen_reported_as_started_witness:
  "\<exists>sv'. single_server_start (demo_so 5 (-1)) True demo_server = (Inr True, sv') \<and>
    getServerState sv' = ''WAITING'' \<and> replay (llog (engine sv')) {0, 1, 2, 3} = Some {0, 1, 2, 3}"
  by (rule failed_listen_reported_as_started)
    (simp_all add: demo_so_def demo_server_def server_new_def so_contract_def)

text \<open>Apart from that, \<open>create_listen_socket\<close> either returns the new socket, the only descriptor
  it leaves open, or returns -1 and leaves none open, on every error path.\<close>

theorem create_listen_socket_sound:
  assumes "so_contract S k" "0 \<le> so_listen k"
  shows "sound_setup S k (create_listen_socket k host)"
  using assms by (rule create_listen_socket_other_errors)

lemma create_listen_socket_sound_witness:
  "sound_setup {0, 1, 2} (demo_so 3 0) (create_listen_socket (demo_so 3 0) ''0.0.0.0'')"
  by (rule create_listen_socket_sound) (simp_all add: demo_so_def so_contract_def)

end
