(* ===== verification/NetClient.thy ===== *)
theory NetClient
  imports NetLoop SocketSetup Stats
begin

text \<open>
  The client side of \<open>netlib\<close>: \<open>ClientLightEpoll\<close> and \<open>ClientMultithEpoll\<close>
  (\<open>epoll.cpp\<close>), \<open>SinglethreadClient\<close> and \<open>MultithreadClient\<close> (\<open>client.cpp\<close>). The
  two loops have the same text, with a mutex around the second one's queue; each is
  translated, and they are proved equal.
\<close>


section \<open>State\<close>

text \<open>
  \<open>handleth_\<close> says whether the pointer is set, \<open>running\<close> counts the threads that execute
  the loop; starting again overwrites the pointer of a thread that still runs.
\<close>

record client_loop =
  cepfd :: fd
  csock :: fd
  need_stop :: bool
  need_reconnect :: bool
  handleth :: bool
  running :: nat
  queue :: "u8 list list"
  made :: "sys list"

datatype client_state = DISCONNECTED | RECONNECTED | HANDSHAKE | WAITING | SENDING | ERROR

record net_client =
  host :: string
  server_ip :: string
  server_port :: u16
  last_error :: string
  cstate :: client_state
  auto_send :: bool
  loop :: client_loop

definition make_calls :: "sys list \<Rightarrow> client_loop \<Rightarrow> client_loop" where
  "make_calls ss c = c\<lparr>made := made c @ ss\<rparr>"


section \<open>\<open>ClientLightEpoll\<close>\<close>

definition light_new :: "fd \<Rightarrow> client_loop" where
  "light_new epfd =
     \<lparr>cepfd = epfd, csock = -1, need_stop = False, need_reconnect = False, handleth = False,
      running = 0, queue = [], made = []\<rparr>"

definition light_start_handle :: "fd \<Rightarrow> bool \<Rightarrow> client_loop \<Rightarrow> client_loop net_run" where
  "light_start_handle sock ok c =
     (if 0 < csock c then Inl (Thrown (Runtime_error ''cli wrong use start_handle ''), c)
      else let c = make_calls [Ctl_add (cepfd c) sock ok] c
        in if \<not> ok then Inr c
           else Inr (c\<lparr>csock := sock, handleth := True, running := running c + 1\<rparr>))"

definition light_stop :: "client_loop \<Rightarrow> client_loop" where
  "light_stop c =
     (let c = c\<lparr>need_stop := True\<rparr>;
          c = (if handleth c then c\<lparr>running := running c - 1, handleth := False\<rparr> else c);
          c = make_calls [Closed (csock c)] c
      in c\<lparr>csock := -1\<rparr>)"

definition light_send :: "u8 list \<Rightarrow> client_loop \<Rightarrow> client_loop" where
  "light_send d c = make_calls [Sent (csock c) d] c"

definition light_queue_add :: "u8 list \<Rightarrow> client_loop \<Rightarrow> client_loop" where
  "light_queue_add d c = c\<lparr>queue := queue c @ [d]\<rparr>"

fun light_queue_loop :: "u8 list list \<Rightarrow> client_loop \<Rightarrow> client_loop" where
  "light_queue_loop [] c = c"
| "light_queue_loop (el # rest) c = light_queue_loop rest (light_send el (c\<lparr>queue := rest\<rparr>))"

definition light_queue_send :: "client_loop \<Rightarrow> client_loop" where
  "light_queue_send c = light_queue_loop (queue c) c"

definition light_handle_socket_data :: "recv_result \<Rightarrow> client_loop \<Rightarrow> client_loop net_run" where
  "light_handle_socket_data received c =
     (case received of
        Received (b # bs) \<Rightarrow> Inr c
      | Received [] \<Rightarrow> Inr ((make_calls [Closed (csock c)] c)\<lparr>csock := -1\<rparr>)
      | Recv_failed errn \<Rightarrow> Inl (Thrown (Runtime_error ''recv from socket''), c))"

text \<open>The event handler, and the notification it passes to the client that owns the loop.\<close>

definition light_on_epoll_event :: "epoll_event \<Rightarrow> recv_result \<Rightarrow> client_loop
    \<Rightarrow> (client_loop \<times> event_type option) net_run" where
  "light_on_epoll_event ev received c =
     (if need_stop c then Inr (c, None)
      else if hangs_up ev then
        (let c = (make_calls [Closed (csock c)] c)\<lparr>csock := -1\<rparr>
         in Inr (c, Some (if need_reconnect c then Reconnected else Disconnected)))
      else case light_handle_socket_data received c of
        Inl (x, c1) \<Rightarrow> Inl (x, c1, None) | Inr c1 \<Rightarrow> Inr (c1, None))"


section \<open>\<open>ClientMultithEpoll\<close>\<close>

definition multith_new :: "fd \<Rightarrow> client_loop" where
  "multith_new epfd =
     \<lparr>cepfd = epfd, csock = -1, need_stop = False, need_reconnect = False, handleth = False,
      running = 0, queue = [], made = []\<rparr>"

definition multith_start_handle :: "fd \<Rightarrow> bool \<Rightarrow> client_loop \<Rightarrow> client_loop net_run" where
  "multith_start_handle sock ok c =
     (if 0 < csock c then Inl (Thrown (Runtime_error ''cli wrong use start_handle ''), c)
      else let c = make_calls [Ctl_add (cepfd c) sock ok] c
        in if \<not> ok then Inr c
           else Inr (c\<lparr>csock := sock, handleth := True, running := running c + 1\<rparr>))"

definition multith_stop :: "client_loop \<Rightarrow> client_loop" where
  "multith_stop c =
     (let c = c\<lparr>need_stop := True\<rparr>;
          c = (if handleth c then c\<lparr>running := running c - 1, handleth := False\<rparr> else c);
          c = make_calls [Closed (csock c)] c
      in c\<lparr>csock := -1\<rparr>)"

definition multith_send :: "u8 list \<Rightarrow> client_loop \<Rightarrow> client_loop" where
  "multith_send d c = make_calls [Sent (csock c) d] c"

text \<open>The queue operations hold \<open>mtx_queue_\<close> throughout, so each is one step.\<close>

definition multith_queue_add :: "u8 list \<Rightarrow> client_loop \<Rightarrow> client_loop" where
  "multith_queue_add d c = c\<lparr>queue := queue c @ [d]\<rparr>"

fun multith_queue_loop :: "u8 list list \<Rightarrow> client_loop \<Rightarrow> client_loop" where
  "multith_queue_loop [] c = c"
| "multith_queue_loop (el # rest) c = multith_queue_loop rest (multith_send el (c\<lparr>queue := rest\<rparr>))"

definition multith_queue_send :: "client_loop \<Rightarrow> client_loop" where
  "multith_queue_send c = multith_queue_loop (queue c) c"

definition multith_handle_socket_data :: "recv_result \<Rightarrow> client_loop \<Rightarrow> client_loop net_run" where
  "multith_handle_socket_data received c =
     (case received of
        Received (b # bs) \<Rightarrow> Inr c
      | Received [] \<Rightarrow> Inr ((make_calls [Closed (csock c)] c)\<lparr>csock := -1\<rparr>)
      | Recv_failed errn \<Rightarrow> Inl (Thrown (Runtime_error ''recv from socket''), c))"

definition multith_on_epoll_event :: "epoll_event \<Rightarrow> recv_result \<Rightarrow> client_loop
    \<Rightarrow> (client_loop \<times> event_type option) net_run" where
  "multith_on_epoll_event ev received c =
     (if need_stop c then Inr (c, None)
      else if hangs_up ev then
        (let c = (make_calls [Closed (csock c)] c)\<lparr>csock := -1\<rparr>
         in Inr (c, Some (if need_reconnect c then Reconnected else Disconnected)))
      else case multith_handle_socket_data received c of
        Inl (x, c1) \<Rightarrow> Inl (x, c1, None) | Inr c1 \<Rightarrow> Inr (c1, None))"

text \<open>
  The thread of \<open>start_queue\<close>: each element of the list is one pass of its loop, given what
  the other threads appended since and whether one asked to stop. \<open>None\<close>: still running.
\<close>

fun queue_thread :: "(u8 list list \<times> bool) list \<Rightarrow> client_loop \<Rightarrow> client_loop option" where
  "queue_thread [] c = (if need_stop c then Some c else None)"
| "queue_thread ((fresh, stop) # rest) c =
     (if need_stop c then Some c
      else queue_thread rest
        (multith_queue_send (c\<lparr>queue := queue c @ fresh, need_stop := stop\<rparr>)))"


section \<open>\<open>SinglethreadClient\<close> and \<open>MultithreadClient\<close>\<close>

definition onEvent :: "event_type \<Rightarrow> net_client \<Rightarrow> net_client" where
  "onEvent e cl =
     (case e of
        Disconnected \<Rightarrow> cl\<lparr>cstate := DISCONNECTED\<rparr>
      | Reconnected \<Rightarrow> cl\<lparr>cstate := RECONNECTED\<rparr>
      | Waiting \<Rightarrow> cl\<lparr>cstate := WAITING\<rparr>
      | ClientDisconnect \<Rightarrow> cl)"

definition getClientState :: "net_client \<Rightarrow> string" where
  "getClientState cl =
     (case cstate cl of
        DISCONNECTED \<Rightarrow> ''DISCONNECTED''
      | HANDSHAKE \<Rightarrow> ''HANDSHAKE''
      | WAITING \<Rightarrow> ''WAITING''
      | SENDING \<Rightarrow> ''SENDING''
      | ERROR \<Rightarrow> ''ERROR: '' @ last_error cl
      | _ \<Rightarrow> ''UNKNOWN'')"

text \<open>What the kernel answers to \<open>connect\<close>.\<close>

record connect_answers =
  c_setup :: so_answers
  c_added :: bool

definition set_error :: "string \<Rightarrow> net_client \<Rightarrow> net_client" where
  "set_error msg cl = (if msg = '''' then cl else cl\<lparr>last_error := msg\<rparr>)"

definition single_connect :: "connect_answers \<Rightarrow> net_client \<Rightarrow> net_client net_run" where
  "single_connect a cl =
     (case create_socket_connect (c_setup a) (host cl) (server_ip cl) of (sock, msg, ss) \<Rightarrow>
        let cl = set_error msg cl\<lparr>loop := make_calls ss (loop cl)\<rparr>
        in if sock < 0 then Inr (cl\<lparr>cstate := ERROR\<rparr>)
           else let cl = cl\<lparr>cstate := HANDSHAKE\<rparr>; cl = cl\<lparr>cstate := WAITING\<rparr>
             in (case light_start_handle sock (c_added a) (loop cl) of
                   Inl (x, c) \<Rightarrow> Inl (x, cl\<lparr>loop := c\<rparr>)
                 | Inr c \<Rightarrow> Inr (cl\<lparr>loop := c\<rparr>)))"

definition single_disconnect :: "net_client \<Rightarrow> net_client" where
  "single_disconnect cl =
     (let cl = cl\<lparr>cstate := DISCONNECTED\<rparr> in cl\<lparr>loop := light_stop (loop cl)\<rparr>)"

definition multi_connect :: "connect_answers \<Rightarrow> net_client \<Rightarrow> net_client net_run" where
  "multi_connect a cl =
     (case create_socket_connect (c_setup a) (host cl) (server_ip cl) of (sock, msg, ss) \<Rightarrow>
        let cl = set_error msg cl\<lparr>loop := make_calls ss (loop cl)\<rparr>
        in if sock < 0 then Inr (cl\<lparr>cstate := ERROR\<rparr>)
           else let cl = cl\<lparr>cstate := HANDSHAKE\<rparr>; cl = cl\<lparr>cstate := WAITING\<rparr>
             in (case multith_start_handle sock (c_added a) (loop cl) of
                   Inl (x, c) \<Rightarrow> Inl (x, cl\<lparr>loop := c\<rparr>)
                 | Inr c \<Rightarrow> Inr (cl\<lparr>loop := c\<rparr>)))"

definition multi_disconnect :: "net_client \<Rightarrow> net_client" where
  "multi_disconnect cl =
     (let cl = cl\<lparr>cstate := DISCONNECTED\<rparr> in cl\<lparr>loop := multith_stop (loop cl)\<rparr>)"

text \<open>
  An event in the loop's thread, with the notification delivered. \<open>MultithreadClient\<close> does
  not override \<open>onEvent\<close>; the class is abstract, and only the single-threaded one is notified.
\<close>

definition single_event :: "epoll_event \<Rightarrow> recv_result \<Rightarrow> net_client \<Rightarrow> net_client net_run" where
  "single_event ev received cl =
     (case light_on_epoll_event ev received (loop cl) of
        Inl (x, c, _) \<Rightarrow> Inl (x, cl\<lparr>loop := c\<rparr>)
      | Inr (c, None) \<Rightarrow> Inr (cl\<lparr>loop := c\<rparr>)
      | Inr (c, Some e) \<Rightarrow> Inr (onEvent e (cl\<lparr>loop := c\<rparr>)))"

definition single_send :: "u8 list \<Rightarrow> net_client \<Rightarrow> net_client" where
  "single_send d cl = cl\<lparr>loop := light_send d (loop cl)\<rparr>"

definition single_queue_add :: "u8 list \<Rightarrow> net_client \<Rightarrow> net_client" where
  "single_queue_add d cl = cl\<lparr>loop := light_queue_add d (loop cl)\<rparr>"

definition single_queue_send :: "net_client \<Rightarrow> net_client" where
  "single_queue_send cl = cl\<lparr>loop := light_queue_send (loop cl)\<rparr>"

definition multi_send :: "u8 list \<Rightarrow> net_client \<Rightarrow> net_client" where
  "multi_send d cl = cl\<lparr>loop := multith_send d (loop cl)\<rparr>"

definition multi_queue_add :: "u8 list \<Rightarrow> net_client \<Rightarrow> net_client" where
  "multi_queue_add d cl = cl\<lparr>loop := multith_queue_add d (loop cl)\<rparr>"

definition multi_queue_send :: "net_client \<Rightarrow> net_client" where
  "multi_queue_send cl = cl\<lparr>loop := multith_queue_send (loop cl)\<rparr>"

definition new_client :: "string \<Rightarrow> string \<Rightarrow> u16 \<Rightarrow> fd \<Rightarrow> net_client" where
  "new_client h server port epfd =
     \<lparr>host = h, server_ip = server, server_port = port, last_error = '''', cstate = DISCONNECTED,
      auto_send = True, loop = light_new epfd\<rparr>"

definition halt_client :: "net_client \<Rightarrow> net_client" where
  "halt_client cl = cl\<lparr>loop := (loop cl)\<lparr>need_stop := True\<rparr>\<rparr>"

interpretation client_thread: event_loop "\<lambda>cl. need_stop (loop cl)" halt_client single_event
  by unfold_locales
    (auto simp: halt_client_def single_event_def light_on_epoll_event_def split: sum.splits option.splits)



section \<open>The life of a client\<close>

text \<open>
  The steps of a client whose sockets the kernel agrees to watch: the calls of its owner and
  the events its thread handles. \<open>B\<close> are the descriptors of the rest of the process.
\<close>

definition client_fds :: "net_client \<Rightarrow> fd set" where
  "client_fds cl = (if 0 < csock (loop cl) then {csock (loop cl)} else {})"

inductive client_step :: "fd set \<Rightarrow> net_client \<Rightarrow> net_client \<Rightarrow> bool" for B where
  connect: "so_contract (B \<union> client_fds cl) (c_setup a) \<Longrightarrow> c_added a \<Longrightarrow>
     single_connect a cl = Inr cl' \<Longrightarrow> client_step B cl cl'"
| disconnect: "client_step B cl (single_disconnect cl)"
| event: "single_event ev received cl = Inr cl' \<Longrightarrow> client_step B cl cl'"
| send: "client_step B cl (single_send d cl)"
| queue_add: "client_step B cl (single_queue_add d cl)"
| queue_send: "client_step B cl (single_queue_send cl)"

definition client_inv :: "fd set \<Rightarrow> net_client \<Rightarrow> bool" where
  "client_inv B cl \<longleftrightarrow>
     replay (made (loop cl)) B = Some (B \<union> client_fds cl) \<and>
     (csock (loop cl) = -1 \<or> 0 < csock (loop cl) \<and> csock (loop cl) \<notin> B)"

lemma queue_loop_calls [simp]:
  "light_queue_loop q c = c\<lparr>queue := (if q = [] then queue c else []),
     made := made c @ map (Sent (csock c)) q\<rparr>"
  by (induction q c rule: light_queue_loop.induct)
    (simp_all add: light_send_def make_calls_def)

lemma replay_sent [simp]: "replay (map (Sent s) ds) S = Some S"
  by (rule replay_quiet) auto

lemma close_own:
  assumes "client_inv B cl" "-1 \<notin> B"
  shows "replay (made (loop cl) @ [Closed (csock (loop cl))]) B = Some B"
  using assms by (auto simp: client_inv_def client_fds_def)

lemma client_inv_step:
  assumes "client_step B cl cl'" "client_inv B cl" "-1 \<notin> B"
  shows "client_inv B cl'"
  using assms(1)
proof cases
  case (connect a)
  obtain sock msg ss where s: "create_socket_connect (c_setup a) (host cl) (server_ip cl) = (sock, msg, ss)"
    by (metis prod_cases3)
  have sound: "sound_setup (B \<union> client_fds cl) (c_setup a) (sock, msg, ss)"
    using create_socket_connect_ok [OF connect(1), of "host cl" "server_ip cl"] s by simp
  show ?thesis
  proof (cases "sock < 0")
    case True
    with sound connect(1) have "replay ss (B \<union> client_fds cl) = Some (B \<union> client_fds cl)"
      by (auto simp: sound_setup_def so_contract_def split: if_splits)
    moreover from True connect(3) s have "loop cl' = make_calls ss (loop cl)"
      by (auto simp: single_connect_def Let_def)
    ultimately show ?thesis
      using assms(2) by (simp add: client_inv_def client_fds_def make_calls_def)
  next
    case False
    then have sock: "sock = so_socket (c_setup a)" "sock \<notin> B \<union> client_fds cl" "0 < sock"
      "replay ss (B \<union> client_fds cl) = Some (insert sock (B \<union> client_fds cl))"
      using sound connect(1) by (auto simp: sound_setup_def so_contract_def split: if_splits)
    from False connect(2,3) s have idle: "csock (loop cl) \<le> 0"
      and l: "loop cl' = (make_calls (ss @ [Ctl_add (cepfd (loop cl)) sock True]) (loop cl))
        \<lparr>csock := sock, handleth := True, running := running (loop cl) + 1\<rparr>"
      by (auto simp: single_connect_def Let_def light_start_handle_def make_calls_def set_error_def
          split: if_splits)
    have "client_fds cl = {}" using idle by (simp add: client_fds_def)
    with sock assms(2) show ?thesis
      by (simp add: client_inv_def l make_calls_def client_fds_def)
  qed
next
  case disconnect
  with close_own [OF assms(2,3)] show ?thesis
    by (auto simp: client_inv_def client_fds_def single_disconnect_def light_stop_def make_calls_def Let_def)
next
  case (event ev received)
  have closed: ?thesis if "loop cl' = (make_calls [Closed (csock (loop cl))] (loop cl))\<lparr>csock := -1\<rparr>"
    using close_own [OF assms(2,3)] by (simp add: that client_inv_def client_fds_def make_calls_def)
  have same: ?thesis if "loop cl' = loop cl"
    using that assms(2) by (simp add: client_inv_def client_fds_def)
  have "loop (onEvent e cl1) = loop cl1" for e cl1 by (cases e) (simp_all add: onEvent_def)
  with event same closed show ?thesis
    by (auto simp: single_event_def light_on_epoll_event_def light_handle_socket_data_def Let_def
        split: if_splits recv_result.splits list.splits)
next
  case (send d)
  with assms(2) show ?thesis
    by (simp add: client_inv_def client_fds_def single_send_def light_send_def make_calls_def)
next
  case (queue_add d)
  with assms(2) show ?thesis
    by (simp add: client_inv_def client_fds_def single_queue_add_def light_queue_add_def)
next
  case queue_send
  with assms(2) show ?thesis
    by (simp add: client_inv_def client_fds_def single_queue_send_def light_queue_send_def)
qed

lemma client_inv_reachable:
  assumes "(client_step B)\<^sup>*\<^sup>* (new_client h server port epfd) cl" "-1 \<notin> B"
  shows "client_inv B cl"
  using assms(1)
proof (induction rule: rtranclp_induct)
  case base
  then show ?case by (simp add: client_inv_def client_fds_def new_client_def light_new_def)
next
  case (step y z)
  then show ?case using client_inv_step assms(2) by blast
qed


definition demo_connect :: "fd \<Rightarrow> connect_answers" where
  "demo_connect n =
     \<lparr>c_setup = \<lparr>so_socket = n, so_rcvbuf = 0, so_sndbuf = 0, so_rcvtimeo = 0, so_reuse = 0,
        so_own_addr = 1, so_peer_addr = 1, so_addrinfo = 0, so_bind = 0, so_listen = 0,
        so_connect = 0\<rparr>, c_added = True\<rparr>"

definition fresh_client :: net_client where
  "fresh_client = new_client '''' ''127.0.0.1'' 12345 3"

lemma demo_connected:
  "\<exists>cl. single_connect (demo_connect 4) fresh_client = Inr cl \<and> csock (loop cl) = 4 \<and>
     made (loop cl) = [Opened 4, Ctl_add 3 4 True] \<and> cstate cl = WAITING \<and> \<not> need_stop (loop cl)"
  by (simp add: single_connect_def demo_connect_def fresh_client_def new_client_def light_new_def
      create_socket_connect_def opened_def light_start_handle_def make_calls_def set_error_def Let_def)



text \<open>Connecting a client that is connected already throws after the new connection is made:
  its descriptor stays open with nobody to close it.\<close>

theorem second_connect_leaks:
  assumes "0 < csock (loop cl)" "replay (made (loop cl)) B = Some S" "so_contract S (c_setup a)"
    and "fst (create_socket_connect (c_setup a) (host cl) (server_ip cl)) \<noteq> -1"
  shows "\<exists>cl'. single_connect a cl = Inl (Thrown (Runtime_error ''cli wrong use start_handle ''), cl') \<and>
    csock (loop cl') = csock (loop cl) \<and>
    replay (made (loop cl')) B = Some (insert (so_socket (c_setup a)) S)"
proof -
  obtain sock msg ss where s: "create_socket_connect (c_setup a) (host cl) (server_ip cl) = (sock, msg, ss)"
    by (metis prod_cases3)
  with create_socket_connect_ok [OF assms(3), of "host cl" "server_ip cl"] assms(3,4)
  have "sock = so_socket (c_setup a)" "0 < sock" "replay ss S = Some (insert sock S)"
    by (auto simp: sound_setup_def so_contract_def split: if_splits)
  with s assms(1,2) show ?thesis
    by (auto simp: single_connect_def Let_def light_start_handle_def make_calls_def set_error_def)
qed

lemma second_connect_leaks_witness:
  "\<exists>cl cl'. csock (loop cl) = 4 \<and>
    single_connect (demo_connect 5) cl = Inl (Thrown (Runtime_error ''cli wrong use start_handle ''), cl') \<and>
    csock (loop cl') = csock (loop cl) \<and>
    replay (made (loop cl')) {0, 1, 2, 3} = Some (insert (so_socket (c_setup (demo_connect 5))) {4, 0, 1, 2, 3})"
proof -
  obtain cl where cl: "csock (loop cl) = 4" "made (loop cl) = [Opened 4, Ctl_add 3 4 True]"
    "single_connect (demo_connect 4) fresh_client = Inr cl"
    using demo_connected by blast
  then have "host cl = ''''"
    by (auto simp: single_connect_def demo_connect_def fresh_client_def new_client_def light_new_def
      create_socket_connect_def opened_def light_start_handle_def make_calls_def set_error_def Let_def)
  then have "\<exists>cl'. single_connect (demo_connect 5) cl =
      Inl (Thrown (Runtime_error ''cli wrong use start_handle ''), cl') \<and>
      csock (loop cl') = csock (loop cl) \<and>
      replay (made (loop cl')) {0, 1, 2, 3} = Some (insert (so_socket (c_setup (demo_connect 5))) {4, 0, 1, 2, 3})"
    using cl by (intro second_connect_leaks)
      (auto simp: demo_connect_def so_contract_def create_socket_connect_def)
  with cl(1) show ?thesis by blast
qed

text \<open>A client that was disconnected once is deaf when it connects again: its thread's loop
  returns at once, because nothing takes the stop request back, while the client reports that it
  is waiting.\<close>

theorem reconnected_client_is_deaf:
  assumes "single_connect a (single_disconnect cl) = Inr cl'"
  shows "ie_exec (\<lambda>cl. need_stop (loop cl)) halt_client single_event ts cl' = Some (Inr cl') \<and>
    (cstate cl' = WAITING \<or> cstate cl' = ERROR)"
proof
  have stop: "need_stop (loop cl')"
    using assms by (auto simp: single_connect_def single_disconnect_def light_stop_def Let_def
        light_start_handle_def make_calls_def set_error_def split: prod.splits if_splits)
  moreover have "halt_client s = s" if "need_stop (loop s)" for s
    using that by (cases s; cases "loop s") (simp add: halt_client_def)
  ultimately show "ie_exec (\<lambda>cl. need_stop (loop cl)) halt_client single_event ts cl' = Some (Inr cl')"
    by (rule client_thread.exec_halted)
  show "cstate cl' = WAITING \<or> cstate cl' = ERROR"
    using assms by (auto simp: single_connect_def Let_def split: prod.splits if_splits sum.splits)
qed

lemma reconnected_client_is_deaf_witness:
  "\<exists>cl'. single_connect (demo_connect 5) (single_disconnect fresh_client) = Inr cl' \<and>
    ie_exec (\<lambda>cl. need_stop (loop cl)) halt_client single_event
      [\<lparr>asked_to_stop = False, polled = Polled [(\<lparr>ev_fd = 5, evs = EPOLLRDHUP\<rparr>, Received [])]\<rparr>] cl' =
      Some (Inr cl') \<and> (cstate cl' = WAITING \<or> cstate cl' = ERROR)"
proof -
  have "\<exists>cl'. single_connect (demo_connect 5) (single_disconnect fresh_client) = Inr cl'"
    by (simp add: single_connect_def demo_connect_def fresh_client_def new_client_def light_new_def
      create_socket_connect_def light_start_handle_def make_calls_def set_error_def Let_def
      single_disconnect_def light_stop_def)
  then obtain cl' where c: "single_connect (demo_connect 5) (single_disconnect fresh_client) = Inr cl'"
    by blast
  from reconnected_client_is_deaf [OF c] c show ?thesis by blast
qed

text \<open>The thread of a client ends after \<open>disconnect\<close> has raised its flag, whatever is polled
  before and after, and when it ends without an exception the flag is up.\<close>

theorem client_thread_stops:
  assumes "asked_to_stop t"
  shows "\<exists>r. ie_exec (\<lambda>cl. need_stop (loop cl)) halt_client single_event (ts @ t # us) cl = Some r \<and>
    (case r of Inl _ \<Rightarrow> True | Inr cl' \<Rightarrow> need_stop (loop cl'))"
proof -
  obtain r where r: "ie_exec (\<lambda>cl. need_stop (loop cl)) halt_client single_event (ts @ t # us) cl = Some r"
    using client_thread.exec_returns [of "ts @ t # us" cl] assms by auto
  with client_thread.exec_ends_halted [of "ts @ t # us" cl] show ?thesis
    by (cases r) auto
qed

lemma client_thread_stops_witness:
  "\<exists>r. ie_exec (\<lambda>cl. need_stop (loop cl)) halt_client single_event
      ([\<lparr>asked_to_stop = False, polled = Poll_failed EINTR\<rparr>] @
       \<lparr>asked_to_stop = True, polled = Polled []\<rparr> # []) fresh_client = Some r \<and>
    (case r of Inl _ \<Rightarrow> True | Inr cl' \<Rightarrow> need_stop (loop cl'))"
  by (rule client_thread_stops) simp

text \<open>When the peer hangs up, a client that has not been stopped closes its socket, forgets it
  and is reported as disconnected.\<close>

theorem hangup_disconnects:
  assumes "hangs_up ev" "\<not> need_stop (loop cl)" "\<not> need_reconnect (loop cl)"
  shows "\<exists>cl'. single_event ev received cl = Inr cl' \<and> getClientState cl' = ''DISCONNECTED'' \<and>
    csock (loop cl') = -1 \<and> made (loop cl') = made (loop cl) @ [Closed (csock (loop cl))]"
  using assms by (simp add: single_event_def light_on_epoll_event_def onEvent_def getClientState_def
      make_calls_def Let_def)

lemma hangup_disconnects_witness:
  "\<exists>cl'. single_event \<lparr>ev_fd = 4, evs = EPOLLRDHUP\<rparr> (Received []) fresh_client = Inr cl' \<and>
    getClientState cl' = ''DISCONNECTED'' \<and> csock (loop cl') = -1 \<and>
    made (loop cl') = made (loop fresh_client) @ [Closed (csock (loop fresh_client))]"
  by (rule hangup_disconnects)
    (simp_all add: hangs_up_def epoll_flags fresh_client_def new_client_def light_new_def)


section \<open>The packet queue\<close>

lemma multith_queue_loop_calls [simp]:
  "multith_queue_loop q c = c\<lparr>queue := (if q = [] then queue c else []),
     made := made c @ map (Sent (csock c)) q\<rparr>"
  by (induction q c rule: multith_queue_loop.induct)
    (simp_all add: multith_send_def make_calls_def)

text \<open>What was queued is sent in the order it was queued, each buffer by one \<open>send\<close>, and the
  queue is empty afterwards; the client with threads does the same as the one without.\<close>

theorem queue_sent_in_order:
  "let cl' = single_queue_send (fold single_queue_add ds cl)
   in queue (loop cl') = [] \<and>
      made (loop cl') = made (loop cl) @ map (Sent (csock (loop cl))) (queue (loop cl) @ ds) \<and>
      multi_queue_send (fold multi_queue_add ds cl) = cl'"
proof -
  have s: "fold single_queue_add ds cl = cl\<lparr>loop := (loop cl)\<lparr>queue := queue (loop cl) @ ds\<rparr>\<rparr>"
    by (induction ds arbitrary: cl) (simp_all add: single_queue_add_def light_queue_add_def)
  have m: "fold multi_queue_add ds cl = cl\<lparr>loop := (loop cl)\<lparr>queue := queue (loop cl) @ ds\<rparr>\<rparr>"
    by (induction ds arbitrary: cl) (simp_all add: multi_queue_add_def multith_queue_add_def)
  show ?thesis
    by (auto simp: s m single_queue_send_def light_queue_send_def multi_queue_send_def multith_queue_send_def Let_def)
qed

text \<open>The queue thread, were it started, loses nothing when it is stopped: all that was queued
  up to and including the pass in which the request to stop came has been sent, in order.\<close>

theorem queue_thread_drains:
  assumes "\<not> need_stop c" "queue c = []" "list_all (\<lambda>p. \<not> snd p) passes"
  shows "\<exists>c'. queue_thread (passes @ (ds, True) # rest) c = Some c' \<and> queue c' = [] \<and>
    made c' = made c @ map (Sent (csock c)) (concat (map fst passes) @ ds)"
  using assms
proof (induction passes arbitrary: c)
  case Nil
  then show ?case
    by (cases rest) (auto simp: multith_queue_send_def)
next
  case (Cons p passes)
  obtain d where p: "p = (d, False)" using Cons.prems(3) by (cases p) simp
  let ?c = "multith_queue_send (c\<lparr>queue := queue c @ d, need_stop := False\<rparr>)"
  have "\<not> need_stop ?c" "queue ?c = []" "csock ?c = csock c"
    "made ?c = made c @ map (Sent (csock c)) d"
    using Cons.prems(2) by (simp_all add: multith_queue_send_def)
  with Cons.IH [of ?c] Cons.prems show ?case by (simp add: p)
qed

lemma queue_thread_drains_witness:
  "\<exists>c'. queue_thread ([([[1]], False), ([], False)] @ ([[2, 3]], True) # []) (multith_new 3) = Some c' \<and>
    queue c' = [] \<and> made c' = made (multith_new 3) @
      map (Sent (csock (multith_new 3))) (concat (map fst [([[1 :: u8]], False), ([], False)]) @ [[2, 3]])"
  by (rule queue_thread_drains) (simp_all add: multith_new_def)


section \<open>The two loops are the same\<close>

datatype loop_op =
    Start fd bool
  | Stop
  | Send_now "u8 list"
  | Enqueue "u8 list"
  | Flush
  | Event epoll_event recv_result

type_synonym op_result = "failure option \<times> event_type option \<times> client_loop"

fun op_start :: "client_loop net_run \<Rightarrow> op_result" where
  "op_start (Inl (x, c)) = (Some x, None, c)"
| "op_start (Inr c) = (None, None, c)"

fun op_event :: "(client_loop \<times> event_type option) net_run \<Rightarrow> op_result" where
  "op_event (Inl (x, c, n)) = (Some x, n, c)"
| "op_event (Inr (c, n)) = (None, n, c)"

fun light_op :: "loop_op \<Rightarrow> client_loop \<Rightarrow> op_result" where
  "light_op (Start sock ok) c = op_start (light_start_handle sock ok c)"
| "light_op Stop c = (None, None, light_stop c)"
| "light_op (Send_now d) c = (None, None, light_send d c)"
| "light_op (Enqueue d) c = (None, None, light_queue_add d c)"
| "light_op Flush c = (None, None, light_queue_send c)"
| "light_op (Event ev received) c = op_event (light_on_epoll_event ev received c)"

fun multith_op :: "loop_op \<Rightarrow> client_loop \<Rightarrow> op_result" where
  "multith_op (Start sock ok) c = op_start (multith_start_handle sock ok c)"
| "multith_op Stop c = (None, None, multith_stop c)"
| "multith_op (Send_now d) c = (None, None, multith_send d c)"
| "multith_op (Enqueue d) c = (None, None, multith_queue_add d c)"
| "multith_op Flush c = (None, None, multith_queue_send c)"
| "multith_op (Event ev received) c = op_event (multith_on_epoll_event ev received c)"

fun run_ops :: "(loop_op \<Rightarrow> client_loop \<Rightarrow> op_result) \<Rightarrow> loop_op list \<Rightarrow> client_loop
    \<Rightarrow> (failure option \<times> event_type option) list \<times> client_loop" where
  "run_ops step [] c = ([], c)"
| "run_ops step (x # xs) c =
     (case step x c of (e, n, c1) \<Rightarrow> (case run_ops step xs c1 of (out, c2) \<Rightarrow> ((e, n) # out, c2)))"

text \<open>The loop of the multi-threaded client is the single-threaded one: for every sequence of
  calls and events both throw, notify, send, open and close the same.\<close>

theorem multith_loop_equals_light:
  "run_ops multith_op xs (multith_new epfd) = run_ops light_op xs (light_new epfd)"
proof -
  have "multith_op x c = light_op x c" for x c
    by (cases x) (simp_all add: multith_start_handle_def light_start_handle_def multith_stop_def
        light_stop_def multith_send_def light_send_def multith_queue_add_def light_queue_add_def
        multith_queue_send_def light_queue_send_def multith_on_epoll_event_def
        light_on_epoll_event_def multith_handle_socket_data_def light_handle_socket_data_def)
  then have "multith_op = light_op" by blast
  then show ?thesis by (simp add: multith_new_def light_new_def)
qed

end
