(* ===== verification/NetScenario.thy ===== *)
theory NetScenario
  imports Programs NetServer NetClient
begin

text \<open>
  Server and clients of \<open>netlib\<close> together: the factory of \<open>netlib/netlib.h\<close> and the program
  \<open>usingnetlib-tests/main.cpp\<close>, which connects, disconnects, connects again and stops, printing
  the states on the way. What each thread does in a pause of \<open>main\<close> (\<open>usleep\<close>) is the list of
  events its loop handles then. Shown is the exact output, and where it differs from what happened.
\<close>


section \<open>The factory\<close>

definition bind_sum :: "'a + 'b \<Rightarrow> ('b \<Rightarrow> 'a + 'c) \<Rightarrow> 'a + 'c" where
  "bind_sum x f = (case x of Inl e \<Rightarrow> Inl e | Inr y \<Rightarrow> f y)"

lemma bind_sum_simps [simp]: "bind_sum (Inl e) f = Inl e" "bind_sum (Inr y) f = f y"
  by (simp_all add: bind_sum_def)

record server_config =
  sc_host :: string
  sc_port :: int
  sc_max_connections :: int

definition createServer :: "server_config \<Rightarrow> fd \<Rightarrow> failure + light_server net_server" where
  "createServer conf created =
     bind_sum (IEpoll_new created) (\<lambda>(epfd, ss).
       Inr \<lparr>s_host = sc_host conf, s_port = sc_port conf, max_connections = sc_max_connections conf,
            s_last_error = '''', s_state = STOPPED, engine = llog_add ss (server_new epfd)\<rparr>)"

definition createClient :: "client_config \<Rightarrow> fd \<Rightarrow> failure + net_client" where
  "createClient conf created =
     bind_sum (IEpoll_new created) (\<lambda>(epfd, ss).
       let cl = new_client (cc_host conf) (cc_server_ip conf) (cc_server_port conf) epfd
       in Inr (cl\<lparr>loop := make_calls ss (loop cl)\<rparr>))"


section \<open>The threads in a pause\<close>

text \<open>A loop that is not running, or has been asked to stop, handles nothing.\<close>

definition server_pause :: "(epoll_event \<times> net_answers) list \<Rightarrow> light_server net_server
    \<Rightarrow> failure + light_server net_server" where
  "server_pause batch sv =
     (if lneed_stop (engine sv) \<or> \<not> lhandleth (engine sv) then Inr sv
      else case ie_events server_handler batch (engine sv) of
        Inl (x, _) \<Rightarrow> Inl x
      | Inr s \<Rightarrow> Inr (sv\<lparr>engine := s\<rparr>))"

definition client_pause :: "(epoll_event \<times> recv_result) list \<Rightarrow> net_client \<Rightarrow> failure + net_client" where
  "client_pause batch cl =
     (if need_stop (loop cl) \<or> \<not> handleth (loop cl) then Inr cl
      else map_sum fst id (ie_events single_event batch cl))"


section \<open>The test\<close>

text \<open>What the kernel answers in the course of the test.\<close>

record test1_answers =
  t_epolls :: "fd \<times> fd \<times> fd"      \<comment> \<open>\<open>epoll_create1\<close> of the server and the two clients\<close>
  t_listen :: so_answers
  t_watched :: bool                \<comment> \<open>\<open>epoll_ctl\<close> for the listening socket\<close>
  t_connect :: connect_answers
  t_connect2 :: connect_answers    \<comment> \<open>of the second client\<close>
  t_reconnect :: connect_answers   \<comment> \<open>of the first client again\<close>
  t_srv :: "nat \<Rightarrow> (epoll_event \<times> net_answers) list"    \<comment> \<open>handled in the pause with this number\<close>
  t_cli :: "nat \<Rightarrow> (epoll_event \<times> recv_result) list"
  t_cli2 :: "nat \<Rightarrow> (epoll_event \<times> recv_result) list"

definition srv_conf :: server_config where
  "srv_conf = \<lparr>sc_host = ''0.0.0.0'', sc_port = 5202, sc_max_connections = 10\<rparr>"

definition cli_conf :: client_config where
  "cli_conf = default_client_config\<lparr>cc_server_ip := ''127.0.0.1'', cc_server_port := 5202\<rparr>"

definition connect_client :: "connect_answers \<Rightarrow> net_client \<Rightarrow> failure + net_client" where
  "connect_client a cl = map_sum fst id (single_connect a cl)"

text \<open>
  \<open>test1_connection_state\<close>, with the lines it prints to standard output; the lines of the
  macro \<open>d\<close> are left out. The result are the server, the two clients and the lines.
\<close>

datatype stopped_by = In_main failure | In_thread failure

type_synonym test1_state = "light_server net_server \<times> net_client \<times> net_client \<times> string list"

definition test1_connection_state :: "test1_answers \<Rightarrow> stopped_by + test1_state" where
  "test1_connection_state a =
     (case t_epolls a of (e1, e2, e3) \<Rightarrow>
      bind_sum (map_sum In_main id (createServer srv_conf e1)) (\<lambda>srv.
      bind_sum (map_sum In_main id (createClient cli_conf e2)) (\<lambda>cli.
      let line1 = ''srv:'' @ getServerState srv @ '' cli:'' @ getClientState cli
      in case single_server_start (t_listen a) (t_watched a) srv of
        (Inl x, _) \<Rightarrow> Inl (In_main x)
      | (Inr isstart, srv) \<Rightarrow>
      bind_sum (map_sum In_main id (connect_client (t_connect a) cli)) (\<lambda>cli.
      bind_sum (map_sum In_thread id (server_pause (t_srv a 1) srv)) (\<lambda>srv.
      bind_sum (map_sum In_thread id (client_pause (t_cli a 1) cli)) (\<lambda>cli.
      let line2 = ''[after connect] srv:'' @ getServerState srv @ '' ('' @
            to_string (single_server_count srv) @ '' clis) cli:'' @ getClientState cli;
          cli = single_disconnect cli
      in
      bind_sum (map_sum In_thread id (server_pause (t_srv a 2) srv)) (\<lambda>srv.
      let line3 = ''[after disconnect] srv:'' @ getServerState srv @ '' ('' @
            to_string (single_server_count srv) @ '' clis) cli:'' @ getClientState cli
      in
      bind_sum (map_sum In_main id (createClient cli_conf e3)) (\<lambda>cli2.
      bind_sum (map_sum In_main id (connect_client (t_connect2 a) cli2)) (\<lambda>cli2.
      bind_sum (map_sum In_main id (connect_client (t_reconnect a) cli)) (\<lambda>cli.
      bind_sum (map_sum In_thread id (server_pause (t_srv a 3) srv)) (\<lambda>srv.
      bind_sum (map_sum In_thread id (client_pause (t_cli a 3) cli)) (\<lambda>cli.
      bind_sum (map_sum In_thread id (client_pause (t_cli2 a 3) cli2)) (\<lambda>cli2.
      let line4 = ''[2connect] srv:'' @ getServerState srv @ '' cli1:'' @ getClientState cli @
            '' cli2:'' @ getClientState cli;
          srv = single_server_stop srv
      in
      bind_sum (map_sum In_thread id (client_pause (t_cli a 4) cli)) (\<lambda>cli.
      bind_sum (map_sum In_thread id (client_pause (t_cli2 a 4) cli2)) (\<lambda>cli2.
      let line5 = ''[srv stop] srv:'' @ getServerState srv @ '' cli1:'' @ getClientState cli @
            '' cli2:'' @ getClientState cli
      in Inr (srv, cli, cli2, [line1, line2, line3, line4, line5]))))))))))))))))"

text \<open>
  \<open>main\<close>: an exception it throws itself is reported and the program ends with status 1; one that
  leaves the thread of a loop ends the process (\<open>None\<close>).
\<close>

definition test_main :: "test1_answers \<Rightarrow> int option" where
  "test_main a =
     (case test1_connection_state a of
        Inr _ \<Rightarrow> Some 0
      | Inl (In_main (Thrown _)) \<Rightarrow> Some 1
      | Inl _ \<Rightarrow> None)"


section \<open>What it prints\<close>

fun accepted_fds :: "accept_result list \<Rightarrow> fd list" where
  "accepted_fds [] = []"
| "accepted_fds (Accepted fd addr # rest) = fd # accepted_fds rest"
| "accepted_fds (Accept_failed errn # rest) = []"

fun would_block :: "accept_result \<Rightarrow> bool" where
  "would_block (Accepted fd addr) = True"
| "would_block (Accept_failed errn) \<longleftrightarrow> errn = EAGAIN \<or> errn = EWOULDBLOCK"

text \<open>What a pause brings a server that watches only its listening socket.\<close>

definition listener_events :: "fd \<Rightarrow> (epoll_event \<times> net_answers) list \<Rightarrow> bool" where
  "listener_events sock batch \<longleftrightarrow>
     list_all (\<lambda>(ev, x). ev_fd ev = sock \<and> readable ev \<and> list_all would_block (n_accepts x)) batch"

definition accepted_in :: "(epoll_event \<times> net_answers) list \<Rightarrow> fd list" where
  "accepted_in batch = concat (map (\<lambda>(ev, x). accepted_fds (n_accepts x)) batch)"

text \<open>The part of the server's state the pauses keep.\<close>

definition same_server :: "light_server \<Rightarrow> light_server \<Rightarrow> bool" where
  "same_server s s' \<longleftrightarrow> lneed_stop s' = lneed_stop s \<and> lsock s' = lsock s \<and> lhandleth s' = lhandleth s \<and>
     closed_fds (llog s') = closed_fds (llog s)"

lemma accept_all:
  assumes "list_all would_block rs" "distinct (map fst (lclients s) @ accepted_fds rs)"
  shows "\<exists>s'. server_handle_accept x rs s = Inr s' \<and> same_server s s' \<and>
    map fst (lclients s') = map fst (lclients s) @ accepted_fds rs"
  using assms
proof (induction rs arbitrary: s)
  case Nil
  then show ?case by (simp add: same_server_def)
next
  case (Cons r rs)
  show ?case
  proof (cases r)
    case (Accept_failed errn)
    with Cons.prems show ?thesis by (auto simp: same_server_def)
  next
    case (Accepted fd addr)
    let ?s = "(llog_add [Opened fd] s)\<lparr>lclients := umap_emplace fd (peer_stats x addr) (lclients s)\<rparr>"
    have new: "lclients ?s = lclients s @ [(fd, peer_stats x addr)]"
      using Cons.prems(2) by (auto simp: Accepted umap_emplace_def umap_count_def)
    have "list_all would_block rs" "distinct (map fst (lclients ?s) @ accepted_fds rs)"
      using Cons.prems unfolding new by (auto simp: Accepted)
    from Cons.IH [OF this] obtain s' where "server_handle_accept x rs ?s = Inr s'" "same_server ?s s'"
      "map fst (lclients s') = map fst (lclients ?s) @ accepted_fds rs" by blast
    then show ?thesis
      unfolding new by (auto simp: Accepted same_server_def llog_add_def)
  qed
qed

lemma pause_accepts:
  assumes "listener_events (lsock s) batch" "0 < lsock s"
    and "distinct (map fst (lclients s) @ accepted_in batch)"
  shows "\<exists>s'. ie_events server_handler batch s = Inr s' \<and> same_server s s' \<and>
    map fst (lclients s') = map fst (lclients s) @ accepted_in batch"
  using assms
proof (induction batch arbitrary: s)
  case Nil
  then show ?case by (simp add: accepted_in_def same_server_def)
next
  case (Cons e batch)
  obtain ev x where e: "e = (ev, x)" by (cases e)
  have acc: "accepted_in ((ev, x) # batch) = accepted_fds (n_accepts x) @ accepted_in batch"
    by (simp add: accepted_in_def e)
  obtain s1 where s1: "server_handle_accept x (n_accepts x) s = Inr s1" "same_server s s1"
      "map fst (lclients s1) = map fst (lclients s) @ accepted_fds (n_accepts x)"
    using accept_all [of "n_accepts x" s x] Cons.prems(1,3) unfolding e acc
    by (auto simp: listener_events_def)
  have h: "server_handler ev x s = Inr s1"
    using Cons.prems(1,2) s1(1)
    by (simp add: listener_events_def e server_handler_def server_on_epoll_event_def readable_def Let_def)
  have "listener_events (lsock s1) batch" "0 < lsock s1"
    "distinct (map fst (lclients s1) @ accepted_in batch)"
    using Cons.prems s1(2,3) unfolding e acc by (auto simp: same_server_def listener_events_def)
  from Cons.IH [OF this] h s1(2,3) show ?case
    unfolding e acc by (auto simp: same_server_def)
qed

lemma server_pause_accepts:
  assumes "listener_events (lsock (engine sv)) batch" "0 < lsock (engine sv)"
    and "distinct (map fst (lclients (engine sv)) @ accepted_in batch)"
    and "\<not> lneed_stop (engine sv)" "lhandleth (engine sv)"
  obtains s where "server_pause batch sv = Inr (sv\<lparr>engine := s\<rparr>)" "same_server (engine sv) s"
    "map fst (lclients s) = map fst (lclients (engine sv)) @ accepted_in batch"
  using pause_accepts [OF assms(1-3)] assms(4,5) that by (auto simp: server_pause_def)

lemma create_listen_socket_opens:
  "create_listen_socket k h = (sock, msg, ss) \<Longrightarrow> 0 < sock \<Longrightarrow> closed_fds ss = []"
  by (auto simp: create_listen_socket_def setup_fail_def opened_def split: if_splits)

lemma connect_succeeds:
  assumes "create_socket_connect (c_setup x) (host cl) (server_ip cl) = (sock, '''', ss)" "0 < sock"
    and "c_added x" "csock (loop cl) \<le> 0"
  shows "connect_client x cl = Inr (cl\<lparr>cstate := WAITING,
    loop := (make_calls (ss @ [Ctl_add (cepfd (loop cl)) sock True]) (loop cl))
      \<lparr>csock := sock, handleth := True, running := running (loop cl) + 1\<rparr>\<rparr>)"
  using assms
  by (simp add: connect_client_def single_connect_def light_start_handle_def set_error_def make_calls_def Let_def)

lemma client_pause_deaf: "need_stop (loop cl) \<Longrightarrow> client_pause batch cl = Inr cl"
  by (simp add: client_pause_def)

lemma client_pause_hangup:
  assumes "\<not> need_stop (loop cl)" "handleth (loop cl)" "hangs_up ev" "\<not> need_reconnect (loop cl)"
  shows "client_pause [(ev, r)] cl = Inr (cl\<lparr>cstate := DISCONNECTED,
    loop := (make_calls [Closed (csock (loop cl))] (loop cl))\<lparr>csock := -1\<rparr>\<rparr>)"
  using assms
  by (simp add: client_pause_def single_event_def light_on_epoll_event_def onEvent_def Let_def make_calls_def)

lemma client_pause_empty [simp]: "client_pause [] cl = Inr cl"
  by (simp add: client_pause_def)

lemma char_one: "char_of (49 :: nat) = CHR ''1''"
  by code_simp


definition demo_connect :: "fd \<Rightarrow> connect_answers" where
  "demo_connect n = \<lparr>c_setup = demo_so n 0, c_added = True\<rparr>"

definition demo_accepts :: "fd list \<Rightarrow> (epoll_event \<times> net_answers) list" where
  "demo_accepts fds = [(\<lparr>ev_fd = 6, evs = EPOLLIN\<rparr>,
     \<lparr>n_recv = Received [], n_accepts = map (\<lambda>fd. Accepted fd ''127.0.0.1:99'') fds @ [Accept_failed EAGAIN],
      n_garbage = 77\<rparr>)]"

definition demo_test1 :: test1_answers where
  "demo_test1 = \<lparr>t_epolls = (3, 4, 9), t_listen = demo_so 6 0, t_watched = True, t_connect = demo_connect 7,
     t_connect2 = demo_connect 10, t_reconnect = demo_connect 11,
     t_srv = (\<lambda>n. if n = 1 then demo_accepts [8] else if n = 3 then demo_accepts [12, 13] else []),
     t_cli = (\<lambda>n. []), t_cli2 = (\<lambda>n. if n = 4 then [(\<lparr>ev_fd = 10, evs = EPOLLRDHUP\<rparr>, Received [])] else [])\<rparr>"


section \<open>The handshake test\<close>

text \<open>
  \<open>test3_handshake\<close>, which \<open>main\<close> does not call: the client sends a line to the server. The
  result carries the states printed.
\<close>

definition test3_handshake :: "test1_answers \<Rightarrow> stopped_by + (light_server net_server \<times> net_client \<times> string)" where
  "test3_handshake a =
     (case t_epolls a of (e1, e2, _) \<Rightarrow>
      bind_sum (map_sum In_main id (createServer srv_conf e1)) (\<lambda>srv.
      bind_sum (map_sum In_main id (createClient cli_conf e2)) (\<lambda>cli.
      case single_server_start (t_listen a) (t_watched a) srv of
        (Inl x, _) \<Rightarrow> Inl (In_main x)
      | (Inr _, srv) \<Rightarrow>
      bind_sum (map_sum In_main id (connect_client (t_connect a) cli)) (\<lambda>cli.
      let line = ''srv:'' @ getServerState srv @ '' cli:'' @ getClientState cli
      in Inr (srv, single_send (map of_char ''i want check'') cli, line)))))"

lemma test3_sends:
  assumes "t_epolls a = (e1, e2, e3)" "e1 \<noteq> -1" "e2 \<noteq> -1"
    and "create_listen_socket (t_listen a) ''0.0.0.0'' = (sock, '''', ss)" "0 < sock" "t_watched a"
    and "create_socket_connect (c_setup (t_connect a)) '''' ''127.0.0.1'' = (c1, '''', ss1)" "0 < c1"
      "c_added (t_connect a)"
  shows "\<exists>srv cli. test3_handshake a = Inr (srv, cli, ''srv:WAITING cli:WAITING'') \<and>
    last (made (loop cli)) = Sent c1 (map of_char ''i want check'')"
  using assms
  by (simp add: test3_handshake_def createServer_def createClient_def IEpoll_new_def srv_conf_def cli_conf_def default_client_config_def
      single_server_start_def server_start_handle_def server_new_def llog_add_def connect_succeeds new_client_def
      light_new_def make_calls_def getServerState_def getClientState_def single_send_def light_send_def Let_def)

end
