(* ===== verification/KeyedStore.thy ===== *)
theory KeyedStore
  imports Prelude
begin

text \<open>
  The interface the socket containers of the repository share: an \<open>insert\<close> of a key that is
  not stored yet and a \<open>find\<close> that may reorganise the container. Both return an option,
  \<open>None\<close> where the code would not return. \<open>load_store\<close> and \<open>lookup_all\<close> are the two
  loops the container benchmarks run over any of them, and the lemmas of the locale say
  what they compute.
\<close>

text \<open>The loading loop \<open>for (id : ids) store.insert(id, value)\<close>.\<close>

fun load_store :: "('k \<Rightarrow> 'v \<Rightarrow> 'm \<Rightarrow> 'm option) \<Rightarrow> ('k \<times> 'v) list \<Rightarrow> 'm \<Rightarrow> 'm option" where
  "load_store ins [] m = Some m"
| "load_store ins ((k, v) # kvs) m =
     (case ins k v m of None \<Rightarrow> None | Some m' \<Rightarrow> load_store ins kvs m')"

text \<open>The lookup loop: the result of every \<open>find\<close>, in order.\<close>

fun lookup_all ::
  "('k \<Rightarrow> 'm \<Rightarrow> ('v option \<times> 'm) option) \<Rightarrow> 'k list \<Rightarrow> 'm \<Rightarrow> 'v option list option" where
  "lookup_all fnd [] m = Some []"
| "lookup_all fnd (k # ks) m =
     (case fnd k m of None \<Rightarrow> None
      | Some (r, m') \<Rightarrow> map_option (Cons r) (lookup_all fnd ks m'))"

text \<open>
  The contract. \<open>lookup\<close> is the map a container stands for, \<open>inv\<close> its invariant, and
  \<open>fits n m\<close> says that \<open>n\<close> more keys have a place.
\<close>

locale keyed_store =
  fixes insert :: "'k \<Rightarrow> 'v \<Rightarrow> 'm \<Rightarrow> 'm option"
    and find :: "'k \<Rightarrow> 'm \<Rightarrow> ('v option \<times> 'm) option"
    and lookup :: "'m \<Rightarrow> 'k \<Rightarrow> 'v option"
    and inv :: "'m \<Rightarrow> bool"
    and fits :: "nat \<Rightarrow> 'm \<Rightarrow> bool"
  assumes insert_new: "inv m \<Longrightarrow> fits (Suc n) m \<Longrightarrow> lookup m k = None \<Longrightarrow>
      \<exists>m'. insert k v m = Some m' \<and> inv m' \<and> fits n m' \<and> lookup m' = (lookup m)(k \<mapsto> v)"
    and find_lookup: "inv m \<Longrightarrow> \<exists>m'. find k m = Some (lookup m k, m') \<and> inv m' \<and> lookup m' = lookup m"
begin

lemma load_lookup:
  assumes "inv m" "fits (length kvs) m" "distinct (map fst kvs)"
    and "\<And>k. k \<in> fst ` set kvs \<Longrightarrow> lookup m k = None"
  shows "\<exists>m'. load_store insert kvs m = Some m' \<and> inv m' \<and> lookup m' = lookup m ++ map_of kvs"
  using assms
proof (induction kvs arbitrary: m)
  case Nil
  then show ?case by simp
next
  case (Cons kv kvs)
  obtain k v where kv: "kv = (k, v)" by (cases kv)
  from Cons.prems kv obtain m' where m': "insert k v m = Some m'" "inv m'"
      "fits (length kvs) m'" "lookup m' = (lookup m)(k \<mapsto> v)"
    using insert_new [of m "length kvs" k v] by auto
  have "lookup m' k' = None" if "k' \<in> fst ` set kvs" for k'
    using that Cons.prems(3,4) kv m'(4) by auto
  with Cons.IH [OF m'(2,3)] Cons.prems(3) obtain m'' where
    m'': "load_store insert kvs m' = Some m''" "inv m''" "lookup m'' = lookup m' ++ map_of kvs"
    by force
  have "lookup m' ++ map_of kvs = lookup m ++ map_of (kv # kvs)"
    using Cons.prems(3) kv m'(4) by (simp add: map_add_upd_left dom_map_of_conv_image_fst)
  then have "lookup m'' = lookup m ++ map_of (kv # kvs)"
    by (simp only: m'')
  moreover have "load_store insert (kv # kvs) m = Some m''"
    using m'(1) m''(1) kv by simp
  ultimately show ?case using m''(2) by blast
qed

lemma lookup_all_lookup: "inv m \<Longrightarrow> lookup_all find ks m = Some (map (lookup m) ks)"
proof (induction ks arbitrary: m)
  case Nil
  then show ?case by simp
next
  case (Cons k ks)
  from find_lookup [OF Cons.prems] obtain m' where
    "find k m = Some (lookup m k, m')" "inv m'" "lookup m' = lookup m" by blast
  with Cons.IH [of m'] show ?case by simp
qed

text \<open>Loading new keys and looking keys up gives the answers of the finite map.\<close>

lemma load_then_lookup:
  assumes "inv m" "fits (length kvs) m" "distinct (map fst kvs)" "\<And>k. lookup m k = None"
  shows "Option.bind (load_store insert kvs m) (lookup_all find ks) = Some (map (map_of kvs) ks)"
proof -
  from load_lookup [OF assms] obtain m' where
    m': "load_store insert kvs m = Some m'" "inv m'" "lookup m' = lookup m ++ map_of kvs"
    by blast
  from assms(4) have "lookup m = Map.empty" ..
  with m' show ?thesis by (simp add: lookup_all_lookup)
qed

end

end
