(* ===== verification/SocketStores.thy ===== *)
theory SocketStores
  imports KeyedStore "HOL-Library.Multiset"
begin

text \<open>
  The socket containers of \<open>testcontainer/main.cpp\<close> that the benchmarks compare with the
  hash table: the vector with linear search, the vector that is sorted on demand and
  searched by bisection, and the use of \<open>std::unordered_map\<close>. Each is an instance of
  \<open>keyed_store\<close>. \<open>std::sort\<close> is a parameter \<open>srt\<close> constrained by what the standard
  promises (a sorted permutation, in no particular order among equal keys), collected in the
  locale \<open>std_sort\<close>; \<open>std::lower_bound\<close> is the bisection loop.
\<close>


section \<open>Containers\<close>

record socket_data =
  timestamp :: nat
  data1 :: int
  data2 :: int
  data3 :: int
  data4 :: int

definition SocketData :: socket_data where
  "SocketData = \<lparr>timestamp = 0, data1 = 0, data2 = 0, data3 = 0, data4 = 0\<rparr>"

text \<open>\<open>VectorSocketStore\<close>: entries in the order they were inserted.\<close>

type_synonym 'd vector_store = "(fd \<times> 'd) list"

definition vec_insert :: "fd \<Rightarrow> 'd \<Rightarrow> 'd vector_store \<Rightarrow> 'd vector_store" where
  "vec_insert fd sd data = data @ [(fd, sd)]"

fun vec_find :: "fd \<Rightarrow> 'd vector_store \<Rightarrow> 'd option" where
  "vec_find fd [] = None"
| "vec_find fd (p # ps) = (if fst p = fd then Some (snd p) else vec_find fd ps)"

text \<open>\<open>SortedVectorSocketStore\<close>: an insertion only clears the flag, a lookup sorts.\<close>

record 'd sorted_store =
  data :: "(fd \<times> 'd) list"
  sorted_flag :: bool

definition sorted_empty :: "'d sorted_store" where
  "sorted_empty = \<lparr>data = [], sorted_flag = True\<rparr>"

definition sorted_insert :: "fd \<Rightarrow> 'd \<Rightarrow> 'd sorted_store \<Rightarrow> 'd sorted_store" where
  "sorted_insert fd sd s = s\<lparr>data := data s @ [(fd, sd)], sorted_flag := False\<rparr>"

function lower_bound_loop :: "(fd \<times> 'd) list \<Rightarrow> fd \<Rightarrow> nat \<Rightarrow> nat \<Rightarrow> nat" where
  "lower_bound_loop xs fd first len =
     (if len > 0
      then (let half = len div 2; mid = first + half
            in if fst (xs ! mid) < fd then lower_bound_loop xs fd (mid + 1) (len - half - 1)
               else lower_bound_loop xs fd first half)
      else first)"
  by pat_completeness auto
termination
  by (relation "measure (\<lambda>(xs, fd, first, len). len)") auto

declare lower_bound_loop.simps [simp del]

definition lower_bound :: "(fd \<times> 'd) list \<Rightarrow> fd \<Rightarrow> nat" where
  "lower_bound xs fd = lower_bound_loop xs fd 0 (length xs)"

definition sorted_find ::
  "((fd \<times> 'd) list \<Rightarrow> (fd \<times> 'd) list) \<Rightarrow> fd \<Rightarrow> 'd sorted_store \<Rightarrow> 'd option \<times> 'd sorted_store" where
  "sorted_find srt fd s =
     (let s' = (if \<not> sorted_flag s then s\<lparr>data := srt (data s), sorted_flag := True\<rparr> else s);
          it = lower_bound (data s') fd
      in (if it \<noteq> length (data s') \<and> fst (data s' ! it) = fd
          then Some (snd (data s' ! it)) else None, s'))"

text \<open>\<open>std::unordered_map<int, SocketData>\<close>: \<open>m[fd] = value\<close> and \<open>m.find(fd)\<close>.\<close>

definition umap_store_insert :: "fd \<Rightarrow> 'd \<Rightarrow> (fd, 'd) umap \<Rightarrow> (fd, 'd) umap option" where
  "umap_store_insert fd sd m = Some (umap_set fd sd m)"

definition umap_store_find :: "fd \<Rightarrow> (fd, 'd) umap \<Rightarrow> ('d option \<times> (fd, 'd) umap) option" where
  "umap_store_find fd m = Some (umap_find fd m, m)"


section \<open>The bisection\<close>

text \<open>
  On a list sorted by key the loop keeps the classical invariant: smaller keys before
  \<open>first\<close>, no smaller key from \<open>first + len\<close> on.
\<close>

definition splits_at :: "(fd \<times> 'd) list \<Rightarrow> fd \<Rightarrow> nat \<Rightarrow> nat \<Rightarrow> bool" where
  "splits_at xs fd lo hi \<longleftrightarrow>
     (\<forall>i < lo. fst (xs ! i) < fd) \<and> (\<forall>i. hi \<le> i \<and> i < length xs \<longrightarrow> fd \<le> fst (xs ! i))"

lemma splits_at_above:
  assumes "sorted (map fst xs)" "splits_at xs fd lo hi" "mid < hi" "hi \<le> length xs"
    and "fst (xs ! mid) < fd"
  shows "splits_at xs fd (Suc mid) hi"
proof -
  have "fst (xs ! i) < fd" if "i < Suc mid" for i
  proof -
    from that assms(3,4) have "i \<le> mid" "mid < length (map fst xs)" by auto
    with sorted_nth_mono [OF assms(1)] have "map fst xs ! i \<le> map fst xs ! mid" by blast
    with that assms show ?thesis by simp
  qed
  with assms(2) show ?thesis by (simp add: splits_at_def)
qed

lemma splits_at_below:
  assumes "sorted (map fst xs)" "splits_at xs fd lo hi" "\<not> fst (xs ! mid) < fd"
  shows "splits_at xs fd lo mid"
proof -
  have "fd \<le> fst (xs ! i)" if "mid \<le> i" "i < length xs" for i
  proof -
    from that have "mid \<le> i" "i < length (map fst xs)" by auto
    with sorted_nth_mono [OF assms(1)] have "map fst xs ! mid \<le> map fst xs ! i" by blast
    with that assms(3) show ?thesis by simp
  qed
  with assms(2) show ?thesis by (simp add: splits_at_def)
qed

lemma lower_bound_loop_spec:
  assumes "sorted (map fst xs)" "first + len \<le> length xs" "splits_at xs fd first (first + len)"
  shows "lower_bound_loop xs fd first len \<le> length xs \<and>
    splits_at xs fd (lower_bound_loop xs fd first len) (lower_bound_loop xs fd first len)"
  using assms
proof (induction xs fd first len rule: lower_bound_loop.induct)
  case (1 xs fd first len)
  let ?mid = "first + len div 2"
  show ?case
  proof (cases "len > 0")
    case False
    with "1.prems" show ?thesis by (subst (1 2 3) lower_bound_loop.simps) simp
  next
    case len: True
    then have eq: "lower_bound_loop xs fd first len =
        (if fst (xs ! ?mid) < fd then lower_bound_loop xs fd (?mid + 1) (len - len div 2 - 1)
         else lower_bound_loop xs fd first (len div 2))"
      by (subst lower_bound_loop.simps) (simp add: Let_def)
    have bounds: "?mid < first + len" "?mid + 1 + (len - len div 2 - 1) = first + len"
      using len by auto
    show ?thesis
    proof (cases "fst (xs ! ?mid) < fd")
      case True
      with "1.prems" bounds have "splits_at xs fd (?mid + 1) (?mid + 1 + (len - len div 2 - 1))"
        using splits_at_above [of xs fd first "first + len" ?mid] by simp
      with "1.prems" bounds len True eq show ?thesis
        using "1.IH"(1) [OF len refl refl True] by simp
    next
      case False
      with "1.prems" have "splits_at xs fd first ?mid"
        by (rule_tac splits_at_below)
      with "1.prems" bounds len False eq show ?thesis
        using "1.IH"(2) [OF len refl refl False] by simp
    qed
  qed
qed

lemma lower_bound_spec:
  assumes "sorted (map fst xs)"
  shows "lower_bound xs fd \<le> length xs" "splits_at xs fd (lower_bound xs fd) (lower_bound xs fd)"
  using lower_bound_loop_spec [OF assms, of 0 "length xs" fd]
  by (simp_all add: lower_bound_def splits_at_def)

text \<open>Looking at the entry the bisection stops at is looking the key up.\<close>

lemma lower_bound_lookup:
  assumes "sorted (map fst xs)" "distinct (map fst xs)"
  shows "(let it = lower_bound xs fd
          in if it \<noteq> length xs \<and> fst (xs ! it) = fd then Some (snd (xs ! it)) else None) =
         map_of xs fd"
proof -
  let ?it = "lower_bound xs fd"
  note spec = lower_bound_spec [OF assms(1), of fd]
  show ?thesis
  proof (cases "?it \<noteq> length xs \<and> fst (xs ! ?it) = fd")
    case True
    with spec(1) have "(fd, snd (xs ! ?it)) \<in> set xs"
      by (metis le_neq_implies_less nth_mem prod.collapse)
    with True assms(2) show ?thesis by (simp add: Let_def)
  next
    case False
    have "fst (xs ! i) \<noteq> fd" if "i < length xs" for i
    proof
      assume eq: "fst (xs ! i) = fd"
      with spec(2) have "?it \<le> i" by (auto simp: splits_at_def not_less [symmetric])
      with that spec have "?it < length xs" "fd \<le> fst (xs ! ?it)"
        by (auto simp: splits_at_def)
      moreover have "fst (xs ! ?it) \<le> fst (xs ! i)"
        using sorted_nth_mono [OF assms(1) \<open>?it \<le> i\<close>] that calculation(1) by simp
      ultimately show False using False eq by simp
    qed
    then have "fd \<notin> fst ` set xs" by (metis imageE in_set_conv_nth)
    then have "map_of xs fd = None" by (simp add: map_of_eq_None_iff)
    with False show ?thesis by (simp add: Let_def)
  qed
qed


section \<open>The containers as keyed stores\<close>

text \<open>Every key is stored at most once; then the first match is the only one.\<close>

lemma vec_find_map_of: "vec_find fd m = map_of m fd"
  by (induction m) auto

lemma map_of_snoc:
  "map_of m fd = None \<Longrightarrow> map_of (m @ [(fd, sd)]) = (map_of m)(fd \<mapsto> sd)"
  by (auto simp: fun_eq_iff map_add_def split: option.split)

lemma distinct_keys_snoc:
  "distinct (map fst m) \<Longrightarrow> map_of m fd = None \<Longrightarrow> distinct (map fst (m @ [(fd, sd)]))"
  by (simp add: map_of_eq_None_iff)

definition vec_store_insert :: "fd \<Rightarrow> 'd \<Rightarrow> 'd vector_store \<Rightarrow> 'd vector_store option" where
  "vec_store_insert fd sd m = Some (vec_insert fd sd m)"

definition vec_store_find :: "fd \<Rightarrow> 'd vector_store \<Rightarrow> ('d option \<times> 'd vector_store) option" where
  "vec_store_find fd m = Some (vec_find fd m, m)"

interpretation vec: keyed_store vec_store_insert vec_store_find map_of
  "\<lambda>m. distinct (map fst m)" "\<lambda>n m. True"
  by unfold_locales
    (simp_all add: vec_store_insert_def vec_store_find_def vec_insert_def vec_find_map_of
      map_of_snoc distinct_keys_snoc del: map_of_append map_append)

interpretation um: keyed_store umap_store_insert umap_store_find "\<lambda>m k. umap_find k m"
  umap_wf "\<lambda>n m. True"
  by unfold_locales
    (auto simp: umap_store_insert_def umap_store_find_def umap_simps fun_eq_iff)

text \<open>
  The contract of \<open>std::sort\<close> with the comparison on keys, and the sorted vector over any
  function that meets it.
\<close>

definition sorted_inv :: "'d sorted_store \<Rightarrow> bool" where
  "sorted_inv s \<longleftrightarrow> distinct (map fst (data s)) \<and>
     (sorted_flag s \<longrightarrow> sorted (map fst (data s)))"

definition sorted_lookup :: "'d sorted_store \<Rightarrow> fd \<Rightarrow> 'd option" where
  "sorted_lookup s = map_of (data s)"

definition sorted_store_insert :: "fd \<Rightarrow> 'd \<Rightarrow> 'd sorted_store \<Rightarrow> 'd sorted_store option" where
  "sorted_store_insert fd sd s = Some (sorted_insert fd sd s)"

definition sorted_store_find ::
  "((fd \<times> 'd) list \<Rightarrow> (fd \<times> 'd) list) \<Rightarrow> fd \<Rightarrow> 'd sorted_store
     \<Rightarrow> ('d option \<times> 'd sorted_store) option" where
  "sorted_store_find srt fd s = Some (sorted_find srt fd s)"

locale std_sort =
  fixes srt :: "(fd \<times> 'd) list \<Rightarrow> (fd \<times> 'd) list"
  assumes srt_permutes: "mset (srt xs) = mset xs"
    and srt_sorts: "sorted (map fst (srt xs))"
begin

lemma srt_distinct: "distinct (map fst (srt xs)) = distinct (map fst xs)"
  by (metis mset_map mset_eq_imp_distinct_iff srt_permutes)

lemma srt_map_of: "distinct (map fst xs) \<Longrightarrow> map_of (srt xs) = map_of xs"
  using srt_distinct [of xs] srt_permutes [of xs]
  by (metis map_of_inject_set set_mset_mset)

lemma sorted_find_lookup:
  assumes "sorted_inv s"
  shows "fst (sorted_find srt fd s) = sorted_lookup s fd"
    and "sorted_inv (snd (sorted_find srt fd s))"
    and "sorted_lookup (snd (sorted_find srt fd s)) = sorted_lookup s"
  using assms lower_bound_lookup [of "data s" fd] lower_bound_lookup [of "srt (data s)" fd]
    srt_sorts [of "data s"] srt_distinct [of "data s"] srt_map_of [of "data s"]
  by (auto simp: sorted_find_def sorted_inv_def sorted_lookup_def Let_def)

end

sublocale std_sort \<subseteq> sorted_store: keyed_store
  sorted_store_insert "sorted_store_find srt" sorted_lookup sorted_inv "\<lambda>n m. True"
proof
  fix s :: "'d sorted_store" and n k and v :: 'd
  assume "sorted_inv s" "sorted_lookup s k = None"
  then show "\<exists>s'. sorted_store_insert k v s = Some s' \<and> sorted_inv s' \<and> True \<and>
      sorted_lookup s' = (sorted_lookup s)(k \<mapsto> v)"
    using map_of_snoc [of "data s" k v] distinct_keys_snoc [of "data s" k v]
    by (auto simp: sorted_store_insert_def sorted_insert_def sorted_inv_def sorted_lookup_def
        simp del: map_of_append map_append)
next
  fix s :: "'d sorted_store" and k
  assume "sorted_inv s"
  then show "\<exists>s'. sorted_store_find srt k s = Some (sorted_lookup s k, s') \<and> sorted_inv s' \<and>
      sorted_lookup s' = sorted_lookup s"
    using sorted_find_lookup [of s k]
    by (intro exI [of _ "snd (sorted_find srt k s)"])
      (simp add: sorted_store_find_def prod_eq_iff)
qed

interpretation by_key: std_sort "sort_key fst"
  by unfold_locales simp_all


section \<open>Properties\<close>

text \<open>Bisection on demand: in a store with distinct keys a lookup in the sorted vector
  returns the entry of the key, keeps the contents, and leaves the data sorted, whatever
  \<open>std::sort\<close> does with the rest of its freedom.\<close>

theorem sorted_find_correct:
  assumes "\<And>xs. mset (srt xs) = mset xs" "\<And>xs. sorted (map fst (srt xs))"
    and "sorted_inv s"
  shows "fst (sorted_find srt fd s) = map_of (data s) fd \<and>
    map_of (data (snd (sorted_find srt fd s))) = map_of (data s) \<and>
    sorted (map fst (data (snd (sorted_find srt fd s))))"
proof -
  have sort: "std_sort srt" using assms(1,2) by (rule std_sort.intro)
  have "sorted (map fst (data (snd (sorted_find srt fd s))))"
    using assms by (simp add: sorted_find_def sorted_inv_def Let_def)
  then show ?thesis
    using std_sort.sorted_find_lookup [OF sort assms(3), of fd] by (simp add: sorted_lookup_def)
qed

text \<open>C32: For distinct descriptors the linear-search vector, the sorted vector and the
  unordered map give the same answers to every sequence of lookups.\<close>

theorem stores_agree:
  assumes "distinct (map fst kvs)"
  shows "Option.bind (load_store vec_store_insert kvs []) (lookup_all vec_store_find ks) =
           Some (map (map_of kvs) ks) \<and>
         Option.bind (load_store sorted_store_insert kvs sorted_empty)
             (lookup_all (sorted_store_find (sort_key fst)) ks) = Some (map (map_of kvs) ks) \<and>
         Option.bind (load_store umap_store_insert kvs []) (lookup_all umap_store_find ks) =
           Some (map (map_of kvs) ks)"
proof (intro conjI)
  show "Option.bind (load_store vec_store_insert kvs []) (lookup_all vec_store_find ks) =
      Some (map (map_of kvs) ks)"
    using assms by (intro vec.load_then_lookup) simp_all
  show "Option.bind (load_store sorted_store_insert kvs sorted_empty)
      (lookup_all (sorted_store_find (sort_key fst)) ks) = Some (map (map_of kvs) ks)"
    using assms by (intro by_key.sorted_store.load_then_lookup)
      (simp_all add: sorted_empty_def sorted_inv_def sorted_lookup_def)
  show "Option.bind (load_store umap_store_insert kvs []) (lookup_all umap_store_find ks) =
      Some (map (map_of kvs) ks)"
    using assms by (intro um.load_then_lookup) simp_all
qed

section \<open>Witnesses\<close>

lemma sorted_find_correct_witness:
  "fst (sorted_find (sort_key fst) 7 \<lparr>data = [(9, 10 :: nat), (7, 20)], sorted_flag = False\<rparr>) =
     Some 20"
  using sorted_find_correct [of "sort_key fst" "\<lparr>data = [(9, 10 :: nat), (7, 20)], sorted_flag = False\<rparr>" 7]
  by (simp add: sorted_inv_def)

lemma stores_agree_witness:
  "Option.bind (load_store sorted_store_insert [(9, 10 :: nat), (7, 20)] sorted_empty)
     (lookup_all (sorted_store_find (sort_key fst)) [7, 8]) = Some [Some 20, None]"
  using stores_agree [of "[(9, 10 :: nat), (7, 20)]" "[7, 8]"] by simp

end
