(* ===== verification/FlatMap.thy ===== *)
theory FlatMap
  imports KeyedStore
begin

text \<open>
  The open-addressing hash table \<open>simple_flat_map\<close> (\<open>mync/simple_flat_map.h\<close> and its copy
  in \<open>testcontainer/main.cpp\<close>): entries, the two probe loops with their wrap-around, and
  the two operations. \<open>flat_insert\<close> and \<open>flat_find\<close> model the copy whose keys are
  \<open>uint64_t\<close> throughout; \<open>mync_insert\<close> the version whose \<open>insert\<close> takes an \<open>int\<close>.
  The invariant \<open>flat_wf\<close> says that probing for the key of an occupied slot ends in that
  slot. The table is one of the stores behind the interface \<open>keyed_store\<close>.
\<close>


section \<open>Entries and probe loops\<close>

record 'v entry =
  key :: u64
  occupied :: bool
  val :: 'v

text \<open>\<open>explicit simple_flat_map(size_t capacity)\<close>: \<open>key = -1\<close>, not occupied.\<close>

definition flat_new :: "'v \<Rightarrow> nat \<Rightarrow> 'v entry list" where
  "flat_new dflt capacity = replicate capacity \<lparr>key = - 1, occupied = False, val = dflt\<rparr>"

definition hash :: "'v entry list \<Rightarrow> u64 \<Rightarrow> nat" where
  "hash entries k = unat k mod length entries"

text \<open>
  The loop of \<open>insert\<close>: \<open>Some (Some i)\<close> leaves it at slot \<open>i\<close>, \<open>Some None\<close> is the
  return of a full table, \<open>None\<close> a loop that never ends.
\<close>

partial_function (option) insert_probe ::
  "'v entry list \<Rightarrow> u64 \<Rightarrow> nat \<Rightarrow> nat \<Rightarrow> nat option option" where
  "insert_probe entries k start index =
     (if occupied (entries ! index) \<and> key (entries ! index) \<noteq> k
      then (let index' = (index + 1) mod length entries
            in if index' = start then Some None
               else insert_probe entries k start index')
      else Some (Some index))"

text \<open>The \<open>do .. while\<close> loop of \<open>find\<close>: \<open>Some None\<close> is \<open>nullptr\<close>.\<close>

partial_function (option) find_probe ::
  "'v entry list \<Rightarrow> u64 \<Rightarrow> nat \<Rightarrow> nat \<Rightarrow> nat option option" where
  "find_probe entries k start index =
     (if \<not> occupied (entries ! index) then Some None
      else if key (entries ! index) = k \<and> occupied (entries ! index) then Some (Some index)
      else (let index' = (index + 1) mod length entries
            in if index' \<noteq> start then find_probe entries k start index' else Some None))"

text \<open>
  The operations. A table of capacity 0 makes \<open>hash\<close> divide by zero: \<open>None\<close>, as for a loop
  that never ends.
\<close>

definition flat_insert :: "u64 \<Rightarrow> 'v \<Rightarrow> 'v entry list \<Rightarrow> 'v entry list option" where
  "flat_insert k v entries =
     (if length entries = 0 then None
      else case insert_probe entries k (hash entries k) (hash entries k) of
          None \<Rightarrow> None
        | Some None \<Rightarrow> Some entries
        | Some (Some index) \<Rightarrow>
            Some (entries[index := \<lparr>key = k, occupied = True, val = v\<rparr>]))"

definition flat_find :: "u64 \<Rightarrow> 'v entry list \<Rightarrow> 'v option option" where
  "flat_find k entries =
     (if length entries = 0 then None
      else map_option (map_option (\<lambda>index. val (entries ! index)))
             (find_probe entries k (hash entries k) (hash entries k)))"

text \<open>
  \<open>insert(int key, Value val)\<close> of \<open>mync/simple_flat_map.h\<close>: the \<open>int\<close> is converted to
  \<open>uint64_t\<close> by sign extension for the hash, in the comparison and in the assignment.
\<close>

definition mync_insert :: "32 word \<Rightarrow> 'v \<Rightarrow> 'v entry list \<Rightarrow> 'v entry list option" where
  "mync_insert k v entries = flat_insert (scast k) v entries"

text \<open>The constructor with its default capacity, and \<open>find\<close>, the same as in the other copy.\<close>

definition mync_new :: "'v \<Rightarrow> 'v entry list" where
  "mync_new dflt = flat_new dflt 1024"

definition mync_find :: "u64 \<Rightarrow> 'v entry list \<Rightarrow> 'v option option" where
  "mync_find k entries = flat_find k entries"


section \<open>The probe sequence\<close>

text \<open>
  Both loops visit the same slots and stop at the first that is free or holds the key.
  \<open>probe\<close> names that slot.
\<close>

definition stops :: "'v entry list \<Rightarrow> u64 \<Rightarrow> nat \<Rightarrow> bool" where
  "stops entries k i \<longleftrightarrow> \<not> occupied (entries ! i) \<or> key (entries ! i) = k"

definition slots_from :: "nat \<Rightarrow> nat \<Rightarrow> nat \<Rightarrow> nat list" where
  "slots_from n start d = map (\<lambda>e. (start + e) mod n) [d..<n]"

definition probe :: "'v entry list \<Rightarrow> u64 \<Rightarrow> nat option" where
  "probe entries k = List.find (stops entries k) (slots_from (length entries) (hash entries k) 0)"

lemma slots_from_step:
  "d < n \<Longrightarrow> slots_from n start d = ((start + d) mod n) # slots_from n start (Suc d)"
  by (simp add: slots_from_def upt_conv_Cons)

lemma slots_from_end [simp]: "slots_from n start n = []"
  by (simp add: slots_from_def)

lemma next_slot_start:
  assumes "start < n" "d < n"
  shows "Suc (start + d) mod n = start \<longleftrightarrow> Suc d = n"
proof
  assume h: "Suc (start + d) mod n = start"
  show "Suc d = n"
  proof (rule ccontr)
    assume "Suc d \<noteq> n"
    with assms have "Suc d < n" by simp
    show False
    proof (cases "Suc (start + d) < n")
      case True
      with h show False by simp
    next
      case False
      with \<open>Suc d < n\<close> assms(1) have "Suc (start + d) mod n = Suc (start + d) - n"
        by (simp add: mod_if)
      with h \<open>Suc d < n\<close> False show False by simp
    qed
  qed
next
  assume "Suc d = n"
  then have "Suc (start + d) = start + n" by simp
  with assms(1) show "Suc (start + d) mod n = start" by (simp only: mod_add_self2 mod_less)
qed

lemma insert_probe_eq:
  assumes "start < length es" "d < length es"
  shows "insert_probe es k start ((start + d) mod length es) =
           Some (List.find (stops es k) (slots_from (length es) start d))"
  using assms(2)
proof (induction "length es - d" arbitrary: d)
  case 0
  then show ?case by simp
next
  case (Suc m)
  note step = slots_from_step [OF Suc.prems] mod_Suc_eq next_slot_start [OF assms(1) Suc.prems]
  have rest: "Suc d \<noteq> length es \<Longrightarrow> insert_probe es k start ((start + Suc d) mod length es) =
      Some (List.find (stops es k) (slots_from (length es) start (Suc d)))"
    using Suc by (intro Suc.hyps) auto
  show ?case
    by (subst insert_probe.simps) (use rest in \<open>auto simp: step stops_def Let_def\<close>)
qed

lemma find_probe_eq:
  assumes "start < length es" "d < length es"
  shows "find_probe es k start ((start + d) mod length es) =
           Some (Option.bind (List.find (stops es k) (slots_from (length es) start d))
                   (\<lambda>i. if occupied (es ! i) then Some i else None))"
  using assms(2)
proof (induction "length es - d" arbitrary: d)
  case 0
  then show ?case by simp
next
  case (Suc m)
  note step = slots_from_step [OF Suc.prems] mod_Suc_eq next_slot_start [OF assms(1) Suc.prems]
  have rest: "Suc d \<noteq> length es \<Longrightarrow> find_probe es k start ((start + Suc d) mod length es) =
      Some (Option.bind (List.find (stops es k) (slots_from (length es) start (Suc d)))
              (\<lambda>i. if occupied (es ! i) then Some i else None))"
    using Suc by (intro Suc.hyps) auto
  show ?case
    by (subst find_probe.simps) (use rest in \<open>auto simp: step stops_def Let_def\<close>)
qed

lemma hash_less [simp]: "es \<noteq> [] \<Longrightarrow> hash es k < length es"
  by (simp add: hash_def)

lemma hash_update [simp]: "hash (es[i := e]) k = hash es k"
  by (simp add: hash_def)

lemma flat_insert_probe:
  "es \<noteq> [] \<Longrightarrow> flat_insert k v es =
     Some (case probe es k of None \<Rightarrow> es | Some i \<Rightarrow> es[i := \<lparr>key = k, occupied = True, val = v\<rparr>])"
  using insert_probe_eq [of "hash es k" es 0 k]
  by (simp add: flat_insert_def probe_def split: option.split)

lemma flat_find_probe:
  "es \<noteq> [] \<Longrightarrow> flat_find k es =
     Some (case probe es k of None \<Rightarrow> None
           | Some i \<Rightarrow> if occupied (es ! i) then Some (val (es ! i)) else None)"
  using find_probe_eq [of "hash es k" es 0 k]
  by (simp add: flat_find_def probe_def split: option.split)

lemma probe_Some:
  "probe es k = Some i \<Longrightarrow> i < length es \<and> stops es k i"
  by (cases "es = []") (auto simp: probe_def slots_from_def dest!: find_Some_in)

text \<open>The probe sequence visits every slot.\<close>

lemma set_slots: "es \<noteq> [] \<Longrightarrow> set (slots_from (length es) start 0) = {..<length es}"
proof -
  assume "es \<noteq> []"
  let ?n = "length es"
  have "i \<in> set (slots_from ?n start 0)" if "i < ?n" for i
  proof -
    have "(start + (i + (?n - start mod ?n)) mod ?n) mod ?n = i"
    proof -
      have "(start + (i + (?n - start mod ?n)) mod ?n) mod ?n
          = (start mod ?n + (i + (?n - start mod ?n))) mod ?n"
        by (simp add: mod_simps)
      also have "start mod ?n + (i + (?n - start mod ?n)) = i + ?n"
        using mod_less_divisor [of ?n start] \<open>es \<noteq> []\<close>
        by (simp add: less_imp_le del: mod_less_divisor)
      finally show ?thesis using that by simp
    qed
    moreover have "(i + (?n - start mod ?n)) mod ?n < ?n"
      using \<open>es \<noteq> []\<close> by simp
    ultimately show ?thesis
      unfolding slots_from_def by (metis (no_types, lifting) atLeast0LessThan atLeast_upt
          image_eqI lessThan_iff list.set_map)
  qed
  then show ?thesis
    using \<open>es \<noteq> []\<close> by (auto simp: slots_from_def)
qed

lemma probe_None:
  "es \<noteq> [] \<Longrightarrow> probe es k = None \<longleftrightarrow> (\<forall>i < length es. \<not> stops es k i)"
  by (auto simp: probe_def find_None_iff set_slots)


section \<open>The table invariant\<close>

text \<open>
  Probing for the key of an occupied slot ends in that slot. Two slots with one key are
  impossible under it, and a lookup never stops early.
\<close>

definition flat_wf :: "'v entry list \<Rightarrow> bool" where
  "flat_wf es \<longleftrightarrow> es \<noteq> [] \<and>
     (\<forall>i < length es. occupied (es ! i) \<longrightarrow> probe es (key (es ! i)) = Some i)"

text \<open>The map a table stands for: what a lookup of each key returns.\<close>

definition flat_map_of :: "'v entry list \<Rightarrow> u64 \<Rightarrow> 'v option" where
  "flat_map_of es k =
     (case probe es k of None \<Rightarrow> None
      | Some i \<Rightarrow> if occupied (es ! i) then Some (val (es ! i)) else None)"

text \<open>There is room for a key: it is in the table, or a slot is free.\<close>

definition flat_room :: "u64 \<Rightarrow> 'v entry list \<Rightarrow> bool" where
  "flat_room k es \<longleftrightarrow> (\<exists>e \<in> set es. \<not> occupied e \<or> key e = k)"

lemma flat_wf_nonempty: "flat_wf es \<Longrightarrow> es \<noteq> []"
  by (simp add: flat_wf_def)

lemma flat_find_map_of: "es \<noteq> [] \<Longrightarrow> flat_find k es = Some (flat_map_of es k)"
  by (simp add: flat_find_probe flat_map_of_def)

lemma flat_room_probe: "es \<noteq> [] \<Longrightarrow> flat_room k es \<longleftrightarrow> probe es k \<noteq> None"
  by (auto simp: probe_None flat_room_def stops_def Bex_def in_set_conv_nth)

lemma flat_wf_new: "0 < n \<Longrightarrow> flat_wf (flat_new d n)"
  by (auto simp: flat_wf_def flat_new_def)

lemma flat_map_of_new: "0 < n \<Longrightarrow> flat_map_of (flat_new d n) k = None"
  by (auto simp: flat_map_of_def flat_new_def dest!: probe_Some split: option.splits)

lemma flat_map_of_iff:
  assumes "flat_wf es"
  shows "flat_map_of es k = Some v \<longleftrightarrow>
           (\<exists>i < length es. occupied (es ! i) \<and> key (es ! i) = k \<and> val (es ! i) = v)"
proof
  assume "flat_map_of es k = Some v"
  then show "\<exists>i < length es. occupied (es ! i) \<and> key (es ! i) = k \<and> val (es ! i) = v"
    by (auto simp: flat_map_of_def stops_def dest!: probe_Some split: option.splits if_splits)
next
  assume "\<exists>i < length es. occupied (es ! i) \<and> key (es ! i) = k \<and> val (es ! i) = v"
  with assms show "flat_map_of es k = Some v"
    by (auto simp: flat_map_of_def flat_wf_def)
qed

text \<open>Writing the slot the probe found moves no other key's probe to another entry.\<close>

lemma probe_update_same:
  assumes "probe es k = Some i"
  shows "probe (es[i := \<lparr>key = k, occupied = True, val = v\<rparr>]) k = Some i"
proof -
  let ?e = "\<lparr>key = k, occupied = True, val = v\<rparr>"
  from assms have i: "i < length es" "stops es k i" by (auto dest: probe_Some)
  then have "stops (es[i := ?e]) k j = stops es k j" for j
    by (cases "j = i") (auto simp: stops_def nth_list_update)
  then have "stops (es[i := ?e]) k = stops es k" ..
  with assms show ?thesis by (simp add: probe_def)
qed

lemma probe_update_other:
  assumes "probe es k = Some i" "probe es k' = Some j" "k' \<noteq> k" "j \<noteq> i"
  shows "probe (es[i := \<lparr>key = k, occupied = True, val = v\<rparr>]) k' = Some j"
proof -
  let ?e = "\<lparr>key = k, occupied = True, val = v\<rparr>"
  from assms(1) have i: "i < length es" by (auto dest: probe_Some)
  with assms show ?thesis
    unfolding probe_def hash_update length_list_update
    by (elim find_cong_but_one [where i = i]) (auto simp: stops_def nth_list_update)
qed

lemma flat_wf_update:
  assumes wf: "flat_wf es" and slot: "probe es k = Some i"
  shows "flat_wf (es[i := \<lparr>key = k, occupied = True, val = v\<rparr>])" (is "flat_wf ?es")
proof -
  have "probe ?es (key (?es ! j)) = Some j" if j: "j < length es" "occupied (?es ! j)" for j
  proof (cases "j = i")
    case True
    with j probe_update_same [OF slot] show ?thesis by simp
  next
    case False
    with wf j have pj: "probe es (key (es ! j)) = Some j"
      by (simp add: flat_wf_def)
    with slot False have "key (es ! j) \<noteq> k" by auto
    with slot pj False show ?thesis by (simp add: probe_update_other)
  qed
  with wf show ?thesis by (auto simp: flat_wf_def)
qed

lemma flat_map_of_update:
  assumes wf: "flat_wf es" and slot: "probe es k = Some i"
  shows "flat_map_of (es[i := \<lparr>key = k, occupied = True, val = v\<rparr>]) = (flat_map_of es)(k \<mapsto> v)"
    (is "flat_map_of ?es = _")
proof
  fix k'
  from slot have i: "i < length es" "stops es k i" by (auto dest: probe_Some)
  have other: "(\<exists>j < length es. occupied (?es ! j) \<and> key (?es ! j) = k' \<and> val (?es ! j) = w) =
      (\<exists>j < length es. occupied (es ! j) \<and> key (es ! j) = k' \<and> val (es ! j) = w)"
    if "k' \<noteq> k" for w
    using i that by (auto simp: stops_def nth_list_update) 
  have "flat_map_of ?es k' = Some w \<longleftrightarrow> ((flat_map_of es)(k \<mapsto> v)) k' = Some w" for w
  proof (cases "k' = k")
    case True
    with i(1) probe_update_same [OF slot] show ?thesis by (simp add: flat_map_of_def)
  next
    case False
    with other show ?thesis
      by (simp add: flat_map_of_iff [OF wf] flat_map_of_iff [OF flat_wf_update [OF wf slot]])
  qed
  then show "flat_map_of ?es k' = ((flat_map_of es)(k \<mapsto> v)) k'"
    by (rule option_eq_SomeI)
qed

lemma flat_insert_cases:
  assumes "flat_wf es"
  obtains (full) "\<not> flat_room k es" "flat_insert k v es = Some es"
  | (stored) i where "flat_room k es" "probe es k = Some i"
      "flat_insert k v es = Some (es[i := \<lparr>key = k, occupied = True, val = v\<rparr>])"
  using flat_wf_nonempty [OF assms]
  by (cases "probe es k") (auto simp: flat_insert_probe flat_room_probe)


section \<open>The table as a keyed store\<close>

text \<open>\<open>n\<close> more keys fit where \<open>n\<close> slots are free.\<close>

definition flat_fits :: "nat \<Rightarrow> 'v entry list \<Rightarrow> bool" where
  "flat_fits n es \<longleftrightarrow> n \<le> length (filter (\<lambda>e. \<not> occupied e) es)"

definition flat_store_find :: "u64 \<Rightarrow> 'v entry list \<Rightarrow> ('v option \<times> 'v entry list) option" where
  "flat_store_find k es = map_option (\<lambda>r. (r, es)) (flat_find k es)"

lemma flat_fits_room: "flat_fits (Suc n) es \<Longrightarrow> flat_room k es"
  unfolding flat_fits_def flat_room_def
  by (metis (mono_tags, lifting) filter_False le_zero_eq list.size(3) nat.distinct(1))

lemma flat_fits_update: "flat_fits (Suc n) es \<Longrightarrow> flat_fits n (es[i := e])"
  using length_filter_update [of "\<lambda>e. \<not> occupied e" es i e]
  by (simp add: flat_fits_def)

text \<open>A successful store of a new key leaves one slot fewer.\<close>

lemma flat_store_insert_new:
  assumes "flat_wf es" "flat_fits (Suc n) es"
  shows "\<exists>es'. flat_insert k v es = Some es' \<and> flat_wf es' \<and> flat_fits n es' \<and>
    flat_map_of es' = (flat_map_of es)(k \<mapsto> v)"
  using assms(1)
proof (cases rule: flat_insert_cases [where k = k and v = v])
  case full
  with flat_fits_room [OF assms(2)] show ?thesis by blast
next
  case (stored i)
  with assms show ?thesis
    by (auto intro: flat_wf_update flat_fits_update flat_map_of_update)
qed

lemma flat_store_find_lookup:
  "flat_wf es \<Longrightarrow> flat_store_find k es = Some (flat_map_of es k, es)"
  by (simp add: flat_store_find_def flat_find_map_of flat_wf_nonempty)

interpretation flat: keyed_store flat_insert flat_store_find flat_map_of flat_wf flat_fits
  by unfold_locales (simp_all add: flat_store_insert_new flat_store_find_lookup)


section \<open>Properties\<close>

text \<open>C36: \<open>insert\<close> always returns, keeps the table well formed, and stores the value under
  the key when the key is present or a slot is free; a full table is left unchanged.\<close>

theorem flat_insert_correct:
  assumes "flat_wf es"
  shows "\<exists>es'. flat_insert k v es = Some es' \<and> flat_wf es' \<and> length es' = length es \<and>
    flat_map_of es' = (if flat_room k es then (flat_map_of es)(k \<mapsto> v) else flat_map_of es)"
  using assms
proof (cases rule: flat_insert_cases [where k = k and v = v])
  case full
  with assms show ?thesis by simp
next
  case (stored i)
  with assms show ?thesis by (simp add: flat_wf_update flat_map_of_update)
qed

text \<open>\<open>find\<close> always returns, and it returns a value exactly when an occupied slot holds
  the key with that value.\<close>

theorem flat_find_correct:
  assumes "flat_wf es"
  shows "\<exists>r. flat_find k es = Some r \<and>
    (\<forall>v. r = Some v \<longleftrightarrow>
       (\<exists>i < length es. occupied (es ! i) \<and> key (es ! i) = k \<and> val (es ! i) = v))"
  using assms by (simp add: flat_find_map_of flat_wf_nonempty flat_map_of_iff)

text \<open>In a fresh table of twice as many slots as keys, loading distinct keys and then
  looking keys up gives exactly the answers of the finite map of what was loaded.\<close>

theorem flat_load_lookup:
  assumes "distinct (map fst kvs)" "kvs \<noteq> []"
  shows "Option.bind (load_store flat_insert kvs (flat_new d (length kvs * 2)))
           (lookup_all flat_store_find ks) = Some (map (map_of kvs) ks)"
proof (rule flat.load_then_lookup)
  show "flat_wf (flat_new d (length kvs * 2))" "flat_map_of (flat_new d (length kvs * 2)) k = None" for k
    using assms(2) by (simp_all add: flat_wf_new flat_map_of_new)
  show "flat_fits (length kvs) (flat_new d (length kvs * 2))"
    by (simp add: flat_fits_def flat_new_def)
qed (rule assms(1))

text \<open>The version whose \<open>insert\<close> takes an \<open>int\<close>: an identifier is found again, with its value,
  exactly if it survives the conversion; any other is looked up as if it had not been inserted,
  and its value is stored under another key.\<close>

theorem mync_insert_truncates:
  assumes "flat_wf es" "flat_room (scast (ucast ident :: 32 word)) es"
  shows "\<exists>es'. mync_insert (ucast ident) v es = Some es' \<and> flat_wf es' \<and>
    mync_find (scast (ucast ident :: 32 word)) es' = Some (Some v) \<and>
    mync_find ident es' = (if scast (ucast ident :: 32 word) = ident then Some (Some v) else mync_find ident es)"
proof -
  from assms(1) show ?thesis
  proof (cases rule: flat_insert_cases [where k = "scast (ucast ident :: 32 word)" and v = v])
    case full
    with assms(2) show ?thesis by blast
  next
    case (stored i)
    with assms show ?thesis
      by (auto simp: mync_insert_def mync_find_def flat_find_map_of flat_wf_nonempty flat_map_of_update flat_wf_update)
  qed
qed


section \<open>Witnesses\<close>

lemmas probe_simps = probe_def slots_from_def hash_def stops_def

lemma flat_wf_list:
  "flat_wf es \<longleftrightarrow> es \<noteq> [] \<and>
     list_all (\<lambda>i. occupied (es ! i) \<longrightarrow> probe es (key (es ! i)) = Some i) [0..<length es]"
  by (auto simp: flat_wf_def list_all_iff)

text \<open>A table of three slots in which two keys with one hash sit side by side.\<close>

definition demo_table :: "nat entry list" where
  "demo_table = [\<lparr>key = 3, occupied = True, val = 30\<rparr>, \<lparr>key = 6, occupied = True, val = 60\<rparr>,
                 \<lparr>key = - 1, occupied = False, val = 0\<rparr>]"

lemma demo_table_wf: "flat_wf demo_table"
  by (simp add: flat_wf_list demo_table_def probe_simps)

lemma flat_insert_correct_witness:
  "\<exists>es'. flat_insert 9 90 demo_table = Some es' \<and> flat_wf es' \<and>
     length es' = length demo_table \<and> flat_map_of es' = (if flat_room 9 demo_table
       then (flat_map_of demo_table)(9 \<mapsto> 90) else flat_map_of demo_table)"
  by (rule flat_insert_correct [OF demo_table_wf])

lemma flat_find_correct_witness:
  "\<exists>r. flat_find 6 demo_table = Some r \<and>
    (\<forall>v. r = Some v \<longleftrightarrow> (\<exists>i < length demo_table. occupied (demo_table ! i) \<and>
       key (demo_table ! i) = 6 \<and> val (demo_table ! i) = v))"
  by (rule flat_find_correct [OF demo_table_wf])

lemma flat_load_lookup_witness:
  "Option.bind (load_store flat_insert [(3, 30), (9, 90)] (flat_new (0 :: nat) 4))
     (lookup_all flat_store_find [9, 5, 3]) = Some [Some 90, None, Some 30]"
  using flat_load_lookup [of "[(3, 30), (9, 90)]" "0 :: nat" "[9, 5, 3]"] by simp

lemma mync_insert_truncates_witness:
  "\<exists>es'. mync_insert (ucast (2 ^ 32 + 9 :: u64)) (90 :: nat) demo_table = Some es' \<and>
     mync_find (scast (ucast (2 ^ 32 + 9 :: u64) :: 32 word)) es' = Some (Some 90) \<and>
     mync_find (2 ^ 32 + 9 :: u64) es' = mync_find (2 ^ 32 + 9) demo_table"
proof -
  have "flat_room (scast (ucast (2 ^ 32 + 9 :: u64) :: 32 word)) demo_table"
    by (simp add: flat_room_def demo_table_def)
  from mync_insert_truncates [OF demo_table_wf this, of 90] show ?thesis by auto
qed

end
