(* ===== verification/DoubleBuffer.thy ===== *)
theory DoubleBuffer
  imports Prelude
begin

text \<open>
  \<open>class DoubleBufferMap\<close> of \<open>testcontainer/main.cpp\<close>: two maps, of which a reader uses the one
  the index names, without a lock, while an update fills the other and then switches the index.
  A reader and the writers are program counters. Searching a map and filling one take time: both
  begin and end in different steps, and a buffer that is being filled has no content.
\<close>


section \<open>State\<close>

record socket_data_with_id =
  sd_id :: u64
  sd_data1 :: int

type_synonym map_type = "u64 \<rightharpoonup> socket_data_with_id"

text \<open>
  A reader remembers the version of the buffer it has begun to read: what \<open>find\<close> returns points
  into that version. \<open>R_race\<close>: the buffer was overwritten under it.
\<close>

datatype reader_pc =
    R_idle
  | R_loaded bool u64                 \<comment> \<open>has read the index\<close>
  | R_reading bool nat u64            \<comment> \<open>is searching the map, or using the entry it has found\<close>
  | R_done u64 "socket_data_with_id option"
  | R_race

datatype writer_pc =
    U_idle
  | U_waiting map_type                \<comment> \<open>at the mutex\<close>
  | U_copying bool map_type           \<comment> \<open>has the mutex, is filling the buffer\<close>

text \<open>
  The index is a truth value, \<open>False\<close> for 0. \<open>fills i\<close> counts the fills of a buffer begun;
  \<open>current\<close> records the maps that have been current since the reader has read the index.
\<close>

record double_buffer =
  buffers :: "bool \<Rightarrow> map_type option"
  fills :: "bool \<Rightarrow> nat"
  current_read_buffer :: bool
  write_mtx :: "nat option"
  reader :: reader_pc
  writers :: "writer_pc list"
  current :: "map_type list"

definition new_double_buffer :: "nat \<Rightarrow> double_buffer" where
  "new_double_buffer n =
     \<lparr>buffers = (\<lambda>i. Some Map.empty), fills = (\<lambda>i. 0), current_read_buffer = False, write_mtx = None,
      reader = R_idle, writers = replicate n U_idle, current = []\<rparr>"


section \<open>Steps\<close>

text \<open>\<open>find\<close>, and the use of the entry it returns.\<close>

definition reader_step :: "u64 \<Rightarrow> double_buffer \<Rightarrow> double_buffer" where
  "reader_step k d =
     (case reader d of
        R_idle \<Rightarrow>
          d\<lparr>reader := R_loaded (current_read_buffer d) k,
            current := (case buffers d (current_read_buffer d) of None \<Rightarrow> [] | Some m \<Rightarrow> [m])\<rparr>
      | R_loaded i k \<Rightarrow>
          d\<lparr>reader := (case buffers d i of None \<Rightarrow> R_race | Some m \<Rightarrow> R_reading i (fills d i) k)\<rparr>
      | R_reading i v k \<Rightarrow>
          d\<lparr>reader := (if fills d i \<noteq> v then R_race
                      else case buffers d i of None \<Rightarrow> R_race | Some m \<Rightarrow> R_done k (m k))\<rparr>
      | R_done k r \<Rightarrow> d\<lparr>reader := R_idle\<rparr>
      | R_race \<Rightarrow> d)"

text \<open>\<open>update\<close>, called with the map \<open>m\<close>.\<close>

definition writer_step :: "nat \<Rightarrow> map_type \<Rightarrow> double_buffer \<Rightarrow> double_buffer option" where
  "writer_step w m d =
     (if length (writers d) \<le> w then None
      else case writers d ! w of
        U_idle \<Rightarrow> Some (d\<lparr>writers := (writers d)[w := U_waiting m]\<rparr>)
      | U_waiting m \<Rightarrow>
          if write_mtx d \<noteq> None then None
          else let write_index = (\<not> current_read_buffer d)
            in Some (d\<lparr>write_mtx := Some w, buffers := (buffers d)(write_index := None),
                 fills := (fills d)(write_index := fills d write_index + 1),
                 writers := (writers d)[w := U_copying write_index m]\<rparr>)
      | U_copying write_index m \<Rightarrow>
          Some (d\<lparr>buffers := (buffers d)(write_index := Some m), current_read_buffer := write_index,
            write_mtx := None, writers := (writers d)[w := U_idle], current := current d @ [m]\<rparr>))"

datatype db_move = Read u64 | Update nat map_type

fun db_step :: "db_move \<Rightarrow> double_buffer \<Rightarrow> double_buffer option" where
  "db_step (Read k) d = Some (reader_step k d)"
| "db_step (Update w m) d = writer_step w m d"

fun db_run :: "db_move list \<Rightarrow> double_buffer \<Rightarrow> double_buffer option" where
  "db_run [] d = Some d"
| "db_run (x # xs) d = Option.bind (db_step x d) (db_run xs)"


section \<open>Invariant\<close>

text \<open>
  The buffer of the index is never being filled, the other one only by the holder of the mutex.
\<close>

definition writers_ok :: "double_buffer \<Rightarrow> bool" where
  "writers_ok d \<longleftrightarrow>
     buffers d (current_read_buffer d) \<noteq> None \<and>
     (\<forall>w < length (writers d). \<forall>i m. writers d ! w = U_copying i m \<longrightarrow>
        i = (\<not> current_read_buffer d) \<and> write_mtx d = Some w \<and> buffers d i = None)"

text \<open>
  A reader whose buffer has content sees a map that has been current since it read the index;
  before the first switch its buffer is the current one, and nobody fills it.
\<close>

fun reader_ok ::
  "(bool \<Rightarrow> map_type option) \<Rightarrow> (bool \<Rightarrow> nat) \<Rightarrow> bool \<Rightarrow> map_type list \<Rightarrow> reader_pc \<Rightarrow> bool"
where
  "reader_ok bs fs cur ms (R_loaded i k) \<longleftrightarrow>
     ms \<noteq> [] \<and> (\<forall>m. bs i = Some m \<longrightarrow> m \<in> set ms) \<and> (length ms \<le> 1 \<longrightarrow> i = cur)"
| "reader_ok bs fs cur ms (R_reading i v k) \<longleftrightarrow>
     ms \<noteq> [] \<and> v \<le> fs i \<and> (fs i = v \<longrightarrow> (\<exists>m. bs i = Some m \<and> m \<in> set ms)) \<and> (length ms \<le> 1 \<longrightarrow> i = cur \<and> fs i = v)"
| "reader_ok bs fs cur ms (R_done k r) \<longleftrightarrow> (\<exists>m \<in> set ms. r = m k)"
| "reader_ok bs fs cur ms R_race \<longleftrightarrow> 1 < length ms"
| "reader_ok bs fs cur ms R_idle \<longleftrightarrow> True"

definition db_ok :: "double_buffer \<Rightarrow> bool" where
  "db_ok d \<longleftrightarrow> writers_ok d \<and>
     reader_ok (buffers d) (fills d) (current_read_buffer d) (current d) (reader d)"

lemma db_ok_reader: "db_ok d \<Longrightarrow> db_ok (reader_step k d)"
  by (cases "reader d")
    (auto simp: db_ok_def writers_ok_def reader_step_def not_le split: option.splits)

lemma writers_ok_step:
  assumes "writers_ok d" "writer_step w m d = Some d'"
  shows "writers_ok d'"
proof (cases "writers d ! w")
  case U_idle
  with assms show ?thesis
    by (auto simp: writer_step_def writers_ok_def nth_list_update split: if_splits)
next
  case (U_waiting m')
  with assms show ?thesis
    by (auto simp: writer_step_def writers_ok_def nth_list_update Let_def split: if_splits)
next
  case (U_copying i m')
  then have d': "w < length (writers d)" "d' = d\<lparr>buffers := (buffers d)(i := Some m'),
      current_read_buffer := i, write_mtx := None, writers := (writers d)[w := U_idle], current := current d @ [m']\<rparr>"
    using assms(2) by (simp_all add: writer_step_def split: if_splits)
  have mine: "write_mtx d = Some w"
    using assms(1) U_copying d'(1) unfolding writers_ok_def by blast
  have "writers d ! x \<noteq> U_copying j m2" if "x < length (writers d)" "x \<noteq> w" for x j m2
    using assms(1) mine that unfolding writers_ok_def by (metis option.inject)
  then show ?thesis
    using d' by (auto simp: writers_ok_def nth_list_update)
qed

lemma db_ok_writer:
  assumes "db_ok d" "writer_step w m d = Some d'"
  shows "db_ok d'"
proof -
  have "writers_ok d'"
    using assms by (auto simp: db_ok_def intro: writers_ok_step)
  moreover have w: "w < length (writers d)"
    using assms(2) by (simp add: writer_step_def split: if_splits)
  moreover have "reader_ok (buffers d') (fills d') (current_read_buffer d') (current d') (reader d')"
  proof (cases "writers d ! w")
    case U_idle
    with assms show ?thesis
      by (auto simp: writer_step_def db_ok_def split: if_splits)
  next
    case (U_waiting m')
    with assms show ?thesis
      by (cases "reader d") (auto simp: writer_step_def db_ok_def Let_def split: if_splits)
  next
    case (U_copying i m')
    with assms(1) w have "i = (\<not> current_read_buffer d)" "buffers d i = None"
      by (auto simp: db_ok_def writers_ok_def)
    with U_copying assms show ?thesis
      by (cases "reader d") (auto simp: writer_step_def db_ok_def Suc_le_eq split: if_splits)
  qed
  ultimately show ?thesis by (simp add: db_ok_def)
qed

lemma db_ok_new: "db_ok (new_double_buffer n)"
  by (simp add: db_ok_def writers_ok_def new_double_buffer_def)

lemma db_ok_run: "db_ok d \<Longrightarrow> db_run xs d = Some d' \<Longrightarrow> db_ok d'"
proof (induction xs arbitrary: d)
  case (Cons x xs)
  then obtain d1 where "db_step x d = Some d1" "db_run xs d1 = Some d'"
    by (auto split: bind_splits)
  with Cons show ?case
    by (cases x) (auto intro: db_ok_reader db_ok_writer)
qed simp


section \<open>Properties\<close>

text \<open>A lookup is linearizable: what \<open>find\<close> returns is the entry of a map that was current at
  some moment between the reading of the index and the return, and it is never a torn one
  unless an update has completed in between.\<close>

theorem double_buffer_find:
  assumes "db_run xs (new_double_buffer n) = Some d"
  shows "(\<forall>k r. reader d = R_done k r \<longrightarrow> (\<exists>m \<in> set (current d). r = m k)) \<and>
    (reader d = R_race \<longrightarrow> 2 \<le> length (current d))"
  using db_ok_run [OF db_ok_new assms] by (auto simp: db_ok_def)

text \<open>Two updates during one lookup overwrite the map under the reader: the second one fills the
  buffer the reader has got from the index.\<close>

theorem double_buffer_race:
  "\<exists>xs d. db_run xs (new_double_buffer 1) = Some d \<and> reader d = R_race"
proof -
  let ?xs = "[Read 7, Read 7, Update 0 Map.empty, Update 0 Map.empty, Update 0 Map.empty,
    Update 0 Map.empty, Update 0 Map.empty, Read 7]"
  have "map_option reader (db_run ?xs (new_double_buffer 1)) = Some R_race"
    by (simp add: new_double_buffer_def reader_step_def writer_step_def)
  then obtain d where "db_run ?xs (new_double_buffer 1) = Some d" "reader d = R_race"
    by auto
  then show ?thesis by blast
qed

lemma double_buffer_find_witness:
  "\<exists>d. db_run [Update 0 [7 \<mapsto> \<lparr>sd_id = 7, sd_data1 = 0\<rparr>], Update 0 Map.empty, Update 0 Map.empty,
      Read 7, Read 7, Read 7] (new_double_buffer 1) = Some d \<and>
    reader d = R_done 7 (Some \<lparr>sd_id = 7, sd_data1 = 0\<rparr>) \<and>
    (\<exists>m \<in> set (current d). Some \<lparr>sd_id = 7, sd_data1 = 0\<rparr> = m 7)"
proof -
  let ?xs = "[Update 0 [7 \<mapsto> \<lparr>sd_id = 7, sd_data1 = 0\<rparr>], Update 0 Map.empty, Update 0 Map.empty,
      Read 7, Read 7, Read 7]"
  have "map_option reader (db_run ?xs (new_double_buffer 1)) = Some (R_done 7 (Some \<lparr>sd_id = 7, sd_data1 = 0\<rparr>))"
    by (simp add: new_double_buffer_def reader_step_def writer_step_def)
  then obtain d where d: "db_run ?xs (new_double_buffer 1) = Some d"
    "reader d = R_done 7 (Some \<lparr>sd_id = 7, sd_data1 = 0\<rparr>)" by auto
  with double_buffer_find [OF d(1)] show ?thesis by blast
qed

end
