(* ===== verification/SocketBenchmarks.thy ===== *)
theory SocketBenchmarks
  imports Complex_Main SocketStores FlatMap DoubleBuffer
begin

text \<open>
  The lookup benchmarks of \<open>testcontainer/main.cpp\<close>: a container is loaded, keys are looked up
  and a counter in the entry found is raised in place, and the median of the times is reported.
  What the clock shows for each lookup is the argument \<open>laps\<close>, in nanoseconds. The locale
  \<open>counting_store\<close> adds the raised counter to \<open>keyed_store\<close>; what a benchmark leaves in a
  container is proved in it once, for all of them. The results are below two to the 53, where
  \<open>double\<close> is exact, and are kept as rational numbers.
\<close>


section \<open>The median\<close>

text \<open>\<open>median\<close> sorts and takes the middle; of no times it would read outside the vector.\<close>

definition median :: "nat list \<Rightarrow> fault + rat" where
  "median laps =
     (let ts = sort laps; n = length ts
      in if n = 0 then Inl Out_of_bounds
         else if n mod 2 = 0 then Inr ((of_nat (ts ! (n div 2 - 1)) + of_nat (ts ! (n div 2))) / 2)
         else Inr (of_nat (ts ! (n div 2))))"

lemma median_cases:
  "laps = [] \<Longrightarrow> median laps = Inl Out_of_bounds"
  "laps \<noteq> [] \<Longrightarrow> length laps mod 2 = 0 \<Longrightarrow> median laps =
     Inr ((of_nat (sort laps ! (length laps div 2 - 1)) + of_nat (sort laps ! (length laps div 2))) / 2)"
  "laps \<noteq> [] \<Longrightarrow> length laps mod 2 \<noteq> 0 \<Longrightarrow>
     median laps = Inr (of_nat (sort laps ! (length laps div 2)))"
  unfolding median_def Let_def length_sort by auto

lemma median_defined: "laps \<noteq> [] \<Longrightarrow> \<exists>t. median laps = Inr t"
  using median_cases(2,3) by blast

lemma sorted_nth_below:
  assumes "sorted (ts :: nat list)" "i < length ts"
  shows "Suc i \<le> length (filter (\<lambda>t. t \<le> ts ! i) ts)"
proof -
  have "filter (\<lambda>t. t \<le> ts ! i) (take (Suc i) ts) = take (Suc i) ts"
    using assms by (intro filter_True) (auto simp: in_set_conv_nth sorted_iff_nth_mono)
  then have "length (filter (\<lambda>t. t \<le> ts ! i) (take (Suc i) ts)) = Suc i" using assms(2) by simp
  moreover have "length (filter (\<lambda>t. t \<le> ts ! i) ts) =
      length (filter (\<lambda>t. t \<le> ts ! i) (take (Suc i) ts)) + length (filter (\<lambda>t. t \<le> ts ! i) (drop (Suc i) ts))"
    by (metis append_take_drop_id filter_append length_append)
  ultimately show ?thesis by simp
qed

lemma sorted_nth_above:
  assumes "sorted (ts :: nat list)" "i < length ts"
  shows "length ts - i \<le> length (filter (\<lambda>t. ts ! i \<le> t) ts)"
proof -
  have "filter (\<lambda>t. ts ! i \<le> t) (drop i ts) = drop i ts"
    using assms by (intro filter_True) (auto simp: in_set_conv_nth sorted_iff_nth_mono)
  then have "length (filter (\<lambda>t. ts ! i \<le> t) (drop i ts)) = length ts - i" by simp
  moreover have "length (filter (\<lambda>t. ts ! i \<le> t) ts) =
      length (filter (\<lambda>t. ts ! i \<le> t) (take i ts)) + length (filter (\<lambda>t. ts ! i \<le> t) (drop i ts))"
    by (metis append_take_drop_id filter_append length_append)
  ultimately show ?thesis by simp
qed

lemma length_filter_sort: "length (filter P (sort xs)) = length (filter P xs)"
  by (metis filter_sort length_sort)

lemma length_filter_weaken:
  "(\<And>x. P x \<Longrightarrow> Q x) \<Longrightarrow> length (filter P xs) \<le> length (filter Q xs)"
  by (induction xs) (auto simp: le_SucI)

text \<open>\<open>median\<close> is a median: at least half of the times are not above the result, and at least
  half are not below; only for an empty list there is none.\<close>

theorem median_correct:
  "case median laps of
     Inl e \<Rightarrow> laps = [] \<and> e = Out_of_bounds
   | Inr m \<Rightarrow> laps \<noteq> [] \<and>
       length laps \<le> 2 * length (filter (\<lambda>t. of_nat t \<le> m) laps) \<and>
       length laps \<le> 2 * length (filter (\<lambda>t. m \<le> of_nat t) laps)"
proof -
  let ?ts = "sort laps"
  let ?n = "length laps"
  have below: "Suc i \<le> length (filter (\<lambda>t. of_nat t \<le> m) laps)"
    if "i < ?n" "of_nat (?ts ! i) \<le> m" for i and m :: rat
  proof -
    have "Suc i \<le> length (filter (\<lambda>t. t \<le> ?ts ! i) ?ts)" using that(1) by (intro sorted_nth_below) simp_all
    also have "\<dots> \<le> length (filter (\<lambda>t. of_nat t \<le> m) ?ts)"
      using that(2) by (intro length_filter_weaken) (metis of_nat_le_iff order_trans)
    finally show ?thesis by (simp add: length_filter_sort)
  qed
  have above: "?n - i \<le> length (filter (\<lambda>t. m \<le> of_nat t) laps)"
    if "i < ?n" "m \<le> of_nat (?ts ! i)" for i and m :: rat
  proof -
    have "?n - i \<le> length (filter (\<lambda>t. ?ts ! i \<le> t) ?ts)"
      using sorted_nth_above [of ?ts i] that(1) by simp
    also have "\<dots> \<le> length (filter (\<lambda>t. m \<le> of_nat t) ?ts)"
      using that(2) by (intro length_filter_weaken) (metis of_nat_le_iff order_trans)
    finally show ?thesis by (simp add: length_filter_sort)
  qed
  show ?thesis
  proof (cases "?n = 0")
    case True
    then show ?thesis by (simp add: median_cases)
  next
    case n: False
    let ?a = "?ts ! (?n div 2 - 1)" and ?b = "?ts ! (?n div 2)"
    show ?thesis
    proof (cases "?n mod 2 = 0")
      case True
      let ?m = "(of_nat ?a + of_nat ?b) / 2 :: rat"
      have i: "?n div 2 - 1 < ?n" "?n div 2 < ?n" "Suc (?n div 2 - 1) = ?n div 2" "2 * (?n div 2) = ?n" "?n - ?n div 2 = ?n div 2"
      proof -
        obtain h where "?n = 2 * h" using True by (auto elim: evenE)
        with n show "?n div 2 - 1 < ?n" "?n div 2 < ?n" "Suc (?n div 2 - 1) = ?n div 2" "2 * (?n div 2) = ?n" "?n - ?n div 2 = ?n div 2"
          by auto
      qed
      have "?a \<le> ?b" by (intro sorted_nth_mono) (use i in simp_all)
      then have "of_nat ?a \<le> ?m" "?m \<le> of_nat ?b" by simp_all
      from below [OF i(1) this(1)] above [OF i(2) this(2)] i n True show ?thesis
        by (simp add: median_cases)
    next
      case False
      have i: "?n div 2 < ?n" "?n \<le> 2 * Suc (?n div 2)" "?n \<le> 2 * (?n - ?n div 2)" using n by simp_all
      from below [OF i(1) order_refl] above [OF i(1) order_refl] i n False show ?thesis
        by (simp add: median_cases)
    qed
  qed
qed


section \<open>The benchmark loop\<close>

fun hit_loop :: "('k \<Rightarrow> 'm \<Rightarrow> 'm option) \<Rightarrow> 'k list \<Rightarrow> nat \<Rightarrow> nat \<Rightarrow> 'm \<Rightarrow> 'm option" where
  "hit_loop hit lookup_ids i 0 m = Some m"
| "hit_loop hit lookup_ids i (Suc n) m =
     (case hit (lookup_ids ! (i mod length lookup_ids)) m of
        None \<Rightarrow> None
      | Some m' \<Rightarrow> hit_loop hit lookup_ids (Suc i) n m')"

text \<open>
  The loop and the median: the result and the container at the end. \<open>i % lookup_ids.size()\<close>
  divides by zero when there is nothing to look up.
\<close>

definition timed_lookups ::
  "('k \<Rightarrow> 'm \<Rightarrow> 'm option) \<Rightarrow> nat \<Rightarrow> 'k list \<Rightarrow> (nat \<Rightarrow> nat) \<Rightarrow> 'm \<Rightarrow> (fault + rat \<times> 'm) option" where
  "timed_lookups hit iterations lookup_ids laps m =
     (if 0 < iterations \<and> lookup_ids = [] then Some (Inl Div_by_zero)
      else map_option
        (\<lambda>m'. case median (map laps [0..<iterations]) of Inl e \<Rightarrow> Inl e | Inr t \<Rightarrow> Inr (t, m'))
        (hit_loop hit lookup_ids 0 iterations m))"

text \<open>How often the loop looks a key up.\<close>

definition hits :: "'k list \<Rightarrow> nat \<Rightarrow> nat \<Rightarrow> 'k \<Rightarrow> nat" where
  "hits lookup_ids i n k = length (filter (\<lambda>j. lookup_ids ! (j mod length lookup_ids) = k) [i..<i + n])"

lemma hits_Suc:
  "hits ids i (Suc n) k = (if ids ! (i mod length ids) = k then 1 else 0) + hits ids (Suc i) n k"
  unfolding hits_def by (subst upt_conv_Cons) simp_all

locale counting_store = keyed_store insert find lookup inv fits
  for insert :: "'k \<Rightarrow> 'v \<Rightarrow> 'm \<Rightarrow> 'm option"
    and find :: "'k \<Rightarrow> 'm \<Rightarrow> ('v option \<times> 'm) option"
    and lookup :: "'m \<Rightarrow> 'k \<Rightarrow> 'v option"
    and inv :: "'m \<Rightarrow> bool"
    and fits :: "nat \<Rightarrow> 'm \<Rightarrow> bool" +
  fixes hit :: "'k \<Rightarrow> 'm \<Rightarrow> 'm option"
    and bump :: "'v \<Rightarrow> 'v"
  assumes hit_lookup: "inv m \<Longrightarrow> \<exists>m'. hit k m = Some m' \<and> inv m' \<and>
      lookup m' = (lookup m)(k := map_option bump (lookup m k))"
begin

lemma hit_loop_lookup:
  assumes "inv m"
  shows "\<exists>m'. hit_loop hit ids i n m = Some m' \<and> inv m' \<and>
    (\<forall>k. lookup m' k = map_option (bump ^^ hits ids i n k) (lookup m k))"
  using assms
proof (induction n arbitrary: i m)
  case 0
  then show ?case by (simp add: hits_def map_option.id [unfolded id_def])
next
  case (Suc n)
  let ?k = "ids ! (i mod length ids)"
  from hit_lookup [OF Suc.prems, of ?k] obtain m1 where
    m1: "hit ?k m = Some m1" "inv m1" "lookup m1 = (lookup m)(?k := map_option bump (lookup m ?k))"
    by blast
  from Suc.IH [OF m1(2), of "Suc i"] obtain m' where
    m': "hit_loop hit ids (Suc i) n m1 = Some m'" "inv m'"
      "\<forall>k. lookup m' k = map_option (bump ^^ hits ids (Suc i) n k) (lookup m1 k)"
    by blast
  have "lookup m' k = map_option (bump ^^ hits ids i (Suc n) k) (lookup m k)" for k
    using m'(3) m1(3) by (cases "k = ?k") (auto simp: hits_Suc option.map_comp comp_def funpow_swap1)
  with m1 m' show ?case by auto
qed

text \<open>A benchmark over the container: it ends, and every counter shows how often it was raised.\<close>

lemma benchmark_counts:
  assumes "inv m" "fits (length kvs) m" "distinct (map fst kvs)" "\<And>k. lookup m k = None"
    and "0 < iterations" "lookup_ids \<noteq> []"
  shows "\<exists>t m'. median (map laps [0..<iterations]) = Inr t \<and>
    Option.bind (load_store insert kvs m) (timed_lookups hit iterations lookup_ids laps) =
      Some (Inr (t, m')) \<and>
    inv m' \<and> (\<forall>k. lookup m' k = map_option (bump ^^ hits lookup_ids 0 iterations k) (map_of kvs k))"
proof -
  from load_lookup [OF assms(1-4)] obtain m1 where
    m1: "load_store insert kvs m = Some m1" "inv m1" "lookup m1 = lookup m ++ map_of kvs" by blast
  have "lookup m1 = map_of kvs" using m1(3) assms(4) by (auto simp: map_add_def split: option.split)
  with hit_loop_lookup [OF m1(2), of lookup_ids 0 iterations] obtain m' where
    m': "hit_loop hit lookup_ids 0 iterations m1 = Some m'" "inv m'"
      "\<forall>k. lookup m' k = map_option (bump ^^ hits lookup_ids 0 iterations k) (map_of kvs k)"
    by auto
  obtain t where "median (map laps [0..<iterations]) = Inr t"
    using assms(5) median_defined [of "map laps [0..<iterations]"] by auto
  with m1(1) m' assms(6) show ?thesis by (simp add: timed_lookups_def)
qed

end


section \<open>Raising the counter of an entry\<close>

text \<open>\<open>data->data1++\<close>, for the two types of entries.\<close>

definition bump_socket :: "socket_data \<Rightarrow> socket_data" where
  "bump_socket sd = sd\<lparr>data1 := data1 sd + 1\<rparr>"

definition bump_with_id :: "socket_data_with_id \<Rightarrow> socket_data_with_id" where
  "bump_with_id sd = sd\<lparr>sd_data1 := sd_data1 sd + 1\<rparr>"

lemma bump_socket_counts: "(bump_socket ^^ n) sd = sd\<lparr>data1 := data1 sd + int n\<rparr>"
  by (induction n) (simp_all add: bump_socket_def)

lemma bump_with_id_counts: "(bump_with_id ^^ n) sd = sd\<lparr>sd_data1 := sd_data1 sd + int n\<rparr>"
  by (induction n) (simp_all add: bump_with_id_def)

text \<open>The pointer \<open>find\<close> returns, and the write through it, in each container.\<close>

fun vec_hit :: "('d \<Rightarrow> 'd) \<Rightarrow> fd \<Rightarrow> 'd vector_store \<Rightarrow> 'd vector_store" where
  "vec_hit bump fd [] = []"
| "vec_hit bump fd (p # ps) = (if fst p = fd then (fst p, bump (snd p)) # ps else p # vec_hit bump fd ps)"

definition sorted_hit ::
  "((fd \<times> 'd) list \<Rightarrow> (fd \<times> 'd) list) \<Rightarrow> ('d \<Rightarrow> 'd) \<Rightarrow> fd \<Rightarrow> 'd sorted_store \<Rightarrow> 'd sorted_store" where
  "sorted_hit srt bump fd s =
     (case sorted_find srt fd s of
        (None, s') \<Rightarrow> s'
      | (Some sd, s') \<Rightarrow>
          let it = lower_bound (data s') fd
          in s'\<lparr>data := (data s')[it := (fst (data s' ! it), bump sd)]\<rparr>)"

definition umap_hit :: "('v \<Rightarrow> 'v) \<Rightarrow> 'k \<Rightarrow> ('k, 'v) umap \<Rightarrow> ('k, 'v) umap" where
  "umap_hit bump k m = (case umap_find k m of None \<Rightarrow> m | Some v \<Rightarrow> umap_set k (bump v) m)"

definition flat_hit :: "('v \<Rightarrow> 'v) \<Rightarrow> u64 \<Rightarrow> 'v entry list \<Rightarrow> 'v entry list option" where
  "flat_hit bump k entries =
     (if length entries = 0 then None
      else map_option
        (\<lambda>r. case r of None \<Rightarrow> entries
             | Some index \<Rightarrow> entries[index := (entries ! index)\<lparr>val := bump (val (entries ! index))\<rparr>])
        (find_probe entries k (hash entries k) (hash entries k)))"

lemma map_of_vec_hit: "map_of (vec_hit bump fd m) = (map_of m)(fd := map_option bump (map_of m fd))"
  by (induction m) auto

lemma map_fst_vec_hit [simp]: "map fst (vec_hit bump fd m) = map fst m"
  by (induction m) auto

lemma map_of_update_nth:
  assumes "distinct (map fst xs)" "i < length xs" "fst (xs ! i) = k"
  shows "map_of (xs[i := (k, v)]) = (map_of xs)(k \<mapsto> v)" "map fst (xs[i := (k, v)]) = map fst xs"
proof -
  show "map_of (xs[i := (k, v)]) = (map_of xs)(k \<mapsto> v)"
    using assms
  proof (induction xs arbitrary: i)
    case (Cons x xs)
    show ?case
    proof (cases i)
      case (Suc j)
      with Cons have "fst x \<noteq> k" by (auto dest: nth_mem)
      with Cons Suc show ?thesis by (auto simp: fun_eq_iff)
    qed (use Cons in \<open>auto simp: fun_eq_iff\<close>)
  qed simp
  show "map fst (xs[i := (k, v)]) = map fst xs"
    using assms by (simp add: map_update list_update_same_conv)
qed

text \<open>The entry found is where the bisection stops.\<close>

lemma sorted_find_position:
  assumes "sorted_find srt fd s = (Some sd, s')"
  shows "lower_bound (data s') fd \<noteq> length (data s')" "fst (data s' ! lower_bound (data s') fd) = fd"
    "snd (data s' ! lower_bound (data s') fd) = sd"
  using assms by (auto simp: sorted_find_def Let_def split: if_splits)

interpretation vec_count: counting_store vec_store_insert vec_store_find map_of
  "\<lambda>m. distinct (map fst m)" "\<lambda>n m. True" "\<lambda>k m. Some (vec_hit bump k m)" bump for bump
  by unfold_locales (simp add: map_of_vec_hit)

interpretation um_count: counting_store umap_store_insert umap_store_find "\<lambda>m k. umap_find k m"
  umap_wf "\<lambda>n m. True" "\<lambda>k m. Some (umap_hit bump k m)" bump for bump
  by unfold_locales (auto simp: umap_hit_def umap_simps fun_eq_iff split: option.split)

context std_sort
begin

lemma sorted_hit_lookup:
  assumes "sorted_inv s"
  shows "sorted_inv (sorted_hit srt bump fd s)"
    and "sorted_lookup (sorted_hit srt bump fd s) =
      (sorted_lookup s)(fd := map_option bump (sorted_lookup s fd))"
proof -
  obtain r s' where f: "sorted_find srt fd s = (r, s')" by (cases "sorted_find srt fd s") auto
  note found = sorted_find_lookup [OF assms, of fd, unfolded f, simplified]
  have goal: "sorted_inv (sorted_hit srt bump fd s) \<and>
    sorted_lookup (sorted_hit srt bump fd s) = (sorted_lookup s)(fd := map_option bump (sorted_lookup s fd))"
  proof (cases r)
    case None
    with found f show ?thesis by (auto simp: sorted_hit_def fun_eq_iff)
  next
    case (Some sd)
    let ?it = "lower_bound (data s') fd"
    have inv: "distinct (map fst (data s'))" using found(2) by (simp add: sorted_inv_def)
    have srt': "sorted (map fst (data s'))"
      using f assms srt_sorts [of "data s"] by (auto simp: sorted_find_def sorted_inv_def Let_def)
    note pos = sorted_find_position [OF f [unfolded Some]]
    have it: "?it < length (data s')" using pos(1) lower_bound_spec(1) [OF srt', of fd] by simp
    note upd = map_of_update_nth [OF inv it pos(2), of "bump sd"]
    have "sorted_hit srt bump fd s = s'\<lparr>data := (data s')[?it := (fd, bump sd)]\<rparr>"
      using f Some pos(2) by (simp add: sorted_hit_def Let_def)
    moreover have "map_of (data s) fd = Some sd" using found(1) Some by (simp add: sorted_lookup_def)
    ultimately show ?thesis
      using found upd by (simp add: sorted_inv_def sorted_lookup_def)
  qed
  then show "sorted_inv (sorted_hit srt bump fd s)"
    "sorted_lookup (sorted_hit srt bump fd s) = (sorted_lookup s)(fd := map_option bump (sorted_lookup s fd))"
    by simp_all
qed

end

interpretation sorted_count: counting_store sorted_store_insert "sorted_store_find (sort_key fst)"
  sorted_lookup sorted_inv "\<lambda>n m. True" "\<lambda>k s. Some (sorted_hit (sort_key fst) bump k s)" bump for bump
  by unfold_locales (simp add: by_key.sorted_hit_lookup)

lemma flat_hit_probe:
  "es \<noteq> [] \<Longrightarrow> flat_hit bump k es =
     Some (case probe es k of None \<Rightarrow> es
           | Some i \<Rightarrow> if occupied (es ! i) then es[i := (es ! i)\<lparr>val := bump (val (es ! i))\<rparr>] else es)"
  using find_probe_eq [of "hash es k" es 0 k]
  by (simp add: flat_hit_def probe_def split: option.split bind_split)

lemma flat_hit_lookup:
  assumes "flat_wf es"
  shows "\<exists>es'. flat_hit bump k es = Some es' \<and> flat_wf es' \<and>
    flat_map_of es' = (flat_map_of es)(k := map_option bump (flat_map_of es k))"
proof (cases "flat_map_of es k")
  case None
  with assms show ?thesis
    by (auto simp: flat_hit_probe flat_wf_nonempty flat_map_of_def fun_upd_idem split: option.splits if_splits)
next
  case (Some v)
  then obtain i where i: "probe es k = Some i" "occupied (es ! i)" "val (es ! i) = v"
    by (auto simp: flat_map_of_def split: option.splits if_splits)
  then have "key (es ! i) = k" by (auto dest!: probe_Some simp: stops_def)
  with i have e: "(es ! i)\<lparr>val := bump v\<rparr> = \<lparr>key = k, occupied = True, val = bump v\<rparr>"
    by (cases "es ! i") simp
  have "flat_hit bump k es = Some (es[i := \<lparr>key = k, occupied = True, val = bump v\<rparr>])"
    using assms i by (simp add: flat_hit_probe flat_wf_nonempty flip: e)
  with flat_wf_update [OF assms i(1), of "bump v"] flat_map_of_update [OF assms i(1), of "bump v"] Some
  show ?thesis by simp
qed

interpretation flat_count: counting_store flat_insert flat_store_find flat_map_of flat_wf flat_fits
  "flat_hit bump" bump for bump
  by unfold_locales (rule flat_hit_lookup)


section \<open>The benchmarks\<close>

text \<open>
  The descriptors are loaded with fresh entries. The hash table converts them to \<open>uint64_t\<close>;
  the benchmarks over 64-bit identifiers store the identifier in the entry. The result is the
  median and the container the benchmark has used.
\<close>

definition with_sockets :: "fd list \<Rightarrow> (fd \<times> socket_data) list" where
  "with_sockets fds = map (\<lambda>fd. (fd, SocketData)) fds"

definition with_ids :: "u64 list \<Rightarrow> (u64 \<times> socket_data_with_id) list" where
  "with_ids ids = map (\<lambda>i. (i, \<lparr>sd_id = i, sd_data1 = 0\<rparr>)) ids"

definition benchmark_lookup_vector where
  "benchmark_lookup_vector fds iterations lookup_fds laps =
     Option.bind (load_store vec_store_insert (with_sockets fds) [])
       (timed_lookups (\<lambda>k m. Some (vec_hit bump_socket k m)) iterations lookup_fds laps)"

definition benchmark_lookup_sorted_vector where
  "benchmark_lookup_sorted_vector srt fds iterations lookup_fds laps =
     Option.bind (load_store sorted_store_insert (with_sockets fds) sorted_empty)
       (timed_lookups (\<lambda>k m. Some (sorted_hit srt bump_socket k m)) iterations lookup_fds laps)"

definition benchmark_lookup_unordered_map where
  "benchmark_lookup_unordered_map fds iterations lookup_fds laps =
     Option.bind (load_store umap_store_insert (with_sockets fds) [])
       (timed_lookups (\<lambda>k m. Some (umap_hit bump_socket k m)) iterations lookup_fds laps)"

definition benchmark_lookup_simple_flat_map :: "fd list \<Rightarrow> nat \<Rightarrow> fd list \<Rightarrow> (nat \<Rightarrow> nat) \<Rightarrow>
    (fault + rat \<times> socket_data entry list) option" where
  "benchmark_lookup_simple_flat_map fds iterations lookup_fds laps =
     Option.bind
       (load_store flat_insert (map (\<lambda>(fd, sd). (word_of_int fd, sd)) (with_sockets fds))
         (flat_new SocketData (length fds * 2)))
       (timed_lookups (flat_hit bump_socket) iterations (map word_of_int lookup_fds) laps)"

definition umap_emplace_store :: "'k \<Rightarrow> 'v \<Rightarrow> ('k, 'v) umap \<Rightarrow> ('k, 'v) umap option" where
  "umap_emplace_store k v m = Some (umap_emplace k v m)"

definition benchmark_lookup_uint64_unordered_map where
  "benchmark_lookup_uint64_unordered_map ids iterations lookup_ids laps =
     Option.bind (load_store umap_emplace_store (with_ids ids) [])
       (timed_lookups (\<lambda>k m. Some (umap_hit bump_with_id k m)) iterations lookup_ids laps)"

definition benchmark_lookup_uint64_flat_map where
  "benchmark_lookup_uint64_flat_map ids iterations lookup_ids laps =
     Option.bind
       (load_store flat_insert (with_ids ids) (flat_new \<lparr>sd_id = 0, sd_data1 = 0\<rparr> (length ids * 2)))
       (timed_lookups (flat_hit bump_with_id) iterations lookup_ids laps)"

interpretation emplace_count: counting_store umap_emplace_store "\<lambda>k m. Some (umap_find k m, m)" "\<lambda>m k. umap_find k m"
  umap_wf "\<lambda>n m. True" "\<lambda>k m. Some (umap_hit bump k m)" bump for bump
  by unfold_locales
    (auto simp: umap_emplace_store_def umap_hit_def umap_simps fun_eq_iff
      split: option.split)

lemma map_of_with_sockets: "map_of (with_sockets fds) k = (if k \<in> set fds then Some SocketData else None)"
  by (induction fds) (simp_all add: with_sockets_def)

lemma map_of_with_ids:
  "map_of (with_ids ids) k = (if k \<in> set ids then Some \<lparr>sd_id = k, sd_data1 = 0\<rparr> else None)"
  by (induction ids) (auto simp: with_ids_def)

lemma map_fst_with [simp]: "map fst (with_sockets fds) = fds" "map fst (with_ids ids) = ids"
  by (simp_all add: with_sockets_def with_ids_def comp_def)

lemma length_with [simp]: "length (with_sockets fds) = length fds" "length (with_ids ids) = length ids"
  by (simp_all add: with_sockets_def with_ids_def)

text \<open>The counter a run leaves in the entry of a descriptor.\<close>

definition counted :: "fd list \<Rightarrow> fd list \<Rightarrow> nat \<Rightarrow> fd \<Rightarrow> socket_data option" where
  "counted fds lookup_fds iterations k =
     (if k \<in> set fds then Some (SocketData\<lparr>data1 := int (hits lookup_fds 0 iterations k)\<rparr>) else None)"

lemma counted_eq:
  "map_option (bump_socket ^^ hits ks 0 n k) (map_of (with_sockets fds) k) = counted fds ks n k"
  by (simp add: map_of_with_sockets bump_socket_counts counted_def SocketData_def)

text \<open>The three benchmarks over descriptors do the same work: for distinct descriptors each
  ends, reports the median of its times, and leaves in every entry the number of times its
  descriptor was looked up, at most the number of iterations, which is an \<open>int\<close>.\<close>

theorem benchmarks_count:
  assumes "distinct fds" "lookup_fds \<noteq> []" "0 < iterations"
  shows "\<exists>t v s u. median (map laps [0..<iterations]) = Inr t \<and>
    benchmark_lookup_vector fds iterations lookup_fds laps = Some (Inr (t, v)) \<and>
    benchmark_lookup_sorted_vector (sort_key fst) fds iterations lookup_fds laps = Some (Inr (t, s)) \<and>
    benchmark_lookup_unordered_map fds iterations lookup_fds laps = Some (Inr (t, u)) \<and>
    (\<forall>k. vec_find k v = counted fds lookup_fds iterations k \<and>
         fst (sorted_find (sort_key fst) k s) = counted fds lookup_fds iterations k \<and>
         umap_find k u = counted fds lookup_fds iterations k \<and>
         hits lookup_fds 0 iterations k \<le> iterations)"
proof -
  let ?kvs = "with_sockets fds"
  have d: "distinct (map fst ?kvs)" using assms(1) by simp
  obtain t v where v: "median (map laps [0..<iterations]) = Inr t"
    "benchmark_lookup_vector fds iterations lookup_fds laps = Some (Inr (t, v))"
    "\<forall>k. map_of v k = counted fds lookup_fds iterations k"
    using vec_count.benchmark_counts [of "[]" ?kvs iterations lookup_fds laps bump_socket] d assms
    by (auto simp: benchmark_lookup_vector_def counted_eq)
  obtain s where s: "benchmark_lookup_sorted_vector (sort_key fst) fds iterations lookup_fds laps = Some (Inr (t, s))"
    "sorted_inv s" "\<forall>k. sorted_lookup s k = counted fds lookup_fds iterations k"
    using sorted_count.benchmark_counts [of sorted_empty ?kvs iterations lookup_fds laps bump_socket]
      d assms v(1)
    by (auto simp: benchmark_lookup_sorted_vector_def counted_eq sorted_empty_def sorted_inv_def sorted_lookup_def)
  obtain u where u: "benchmark_lookup_unordered_map fds iterations lookup_fds laps = Some (Inr (t, u))"
    "\<forall>k. umap_find k u = counted fds lookup_fds iterations k"
    using um_count.benchmark_counts [of "[]" ?kvs iterations lookup_fds laps bump_socket] d assms v(1)
    by (auto simp: benchmark_lookup_unordered_map_def counted_eq)
  have "hits lookup_fds 0 iterations k \<le> iterations" for k
    using length_filter_le [of _ "[0..<iterations]"] by (simp add: hits_def)
  with v s u by_key.sorted_find_lookup(1) [OF s(2)] show ?thesis by (auto simp: vec_find_map_of)
qed

text \<open>The benchmarks over 64-bit identifiers agree too: for distinct identifiers, at least one,
  the hash table of twice their number and the unordered map both end with the same median and
  the same counter in every entry.\<close>

theorem uint64_benchmarks_agree:
  assumes "distinct ids" "ids \<noteq> []" "lookup_ids \<noteq> []" "0 < iterations"
  shows "\<exists>t u es. benchmark_lookup_uint64_unordered_map ids iterations lookup_ids laps = Some (Inr (t, u)) \<and>
    benchmark_lookup_uint64_flat_map ids iterations lookup_ids laps = Some (Inr (t, es)) \<and>
    (\<forall>k. flat_find k es = Some (umap_find k u) \<and>
      umap_find k u = (if k \<in> set ids
        then Some \<lparr>sd_id = k, sd_data1 = int (hits lookup_ids 0 iterations k)\<rparr> else None))"
proof -
  let ?kvs = "with_ids ids" and ?new = "flat_new \<lparr>sd_id = 0, sd_data1 = 0\<rparr> (length ids * 2)"
  have d: "distinct (map fst ?kvs)" using assms(1) by simp
  have eq: "map_option (bump_with_id ^^ hits lookup_ids 0 iterations k) (map_of ?kvs k) = (if k \<in> set ids
      then Some \<lparr>sd_id = k, sd_data1 = int (hits lookup_ids 0 iterations k)\<rparr> else None)" for k
    by (simp add: map_of_with_ids bump_with_id_counts)
  obtain t u where u: "median (map laps [0..<iterations]) = Inr t"
    "benchmark_lookup_uint64_unordered_map ids iterations lookup_ids laps = Some (Inr (t, u))"
    "\<forall>k. umap_find k u = (if k \<in> set ids
      then Some \<lparr>sd_id = k, sd_data1 = int (hits lookup_ids 0 iterations k)\<rparr> else None)"
    using emplace_count.benchmark_counts [of "[]" ?kvs iterations lookup_ids laps bump_with_id] d assms
    by (auto simp: benchmark_lookup_uint64_unordered_map_def eq)
  have new: "flat_wf ?new" "flat_fits (length ?kvs) ?new" "\<And>k. flat_map_of ?new k = None"
    using assms(2) by (simp_all add: flat_wf_new flat_map_of_new) (simp add: flat_fits_def flat_new_def)
  obtain es where es: "benchmark_lookup_uint64_flat_map ids iterations lookup_ids laps = Some (Inr (t, es))"
    "flat_wf es" "\<forall>k. flat_map_of es k = (if k \<in> set ids
      then Some \<lparr>sd_id = k, sd_data1 = int (hits lookup_ids 0 iterations k)\<rparr> else None)"
    using flat_count.benchmark_counts [OF new(1,2) d new(3), of iterations lookup_ids laps bump_with_id] assms u(1)
    by (auto simp: benchmark_lookup_uint64_flat_map_def eq)
  show ?thesis
    using u es flat_find_map_of [OF flat_wf_nonempty [OF es(2)]] by auto
qed

text \<open>Without keys to look up a benchmark divides by zero, without iterations it has no median.\<close>

lemma benchmark_empty:
  "0 < iterations \<Longrightarrow> timed_lookups hit iterations [] laps m = Some (Inl Div_by_zero)"
  "timed_lookups hit 0 ks laps m = Some (Inl Out_of_bounds)"
  by (simp_all add: timed_lookups_def median_cases)

lemma benchmarks_count_witness:
  "\<exists>t v s u. median (map (\<lambda>i. 10 * i) [0..<3]) = Inr t \<and>
    benchmark_lookup_vector [3, 4] 3 [4, 9] (\<lambda>i. 10 * i) = Some (Inr (t, v)) \<and>
    benchmark_lookup_sorted_vector (sort_key fst) [3, 4] 3 [4, 9] (\<lambda>i. 10 * i) = Some (Inr (t, s)) \<and>
    benchmark_lookup_unordered_map [3, 4] 3 [4, 9] (\<lambda>i. 10 * i) = Some (Inr (t, u)) \<and>
    (\<forall>k. vec_find k v = counted [3, 4] [4, 9] 3 k \<and>
         fst (sorted_find (sort_key fst) k s) = counted [3, 4] [4, 9] 3 k \<and>
         umap_find k u = counted [3, 4] [4, 9] 3 k \<and> hits [4, 9] 0 3 k \<le> 3)"
  by (rule benchmarks_count) simp_all

lemma uint64_benchmarks_agree_witness:
  "\<exists>t u es. benchmark_lookup_uint64_unordered_map [70, 80] 3 [80, 90] (\<lambda>i. i) = Some (Inr (t, u)) \<and>
    benchmark_lookup_uint64_flat_map [70, 80] 3 [80, 90] (\<lambda>i. i) = Some (Inr (t, es)) \<and>
    (\<forall>k. flat_find k es = Some (umap_find k u) \<and>
      umap_find k u = (if k \<in> set [70, 80]
        then Some \<lparr>sd_id = k, sd_data1 = int (hits [80, 90] 0 3 k)\<rparr> else None))"
  by (rule uint64_benchmarks_agree) simp_all


text \<open>
  The hash table over descriptors: the conversion to 64 bits keeps 32-bit values apart, so it
  counts as the others do.
\<close>

abbreviation int_range :: "int set" where
  "int_range \<equiv> {- (2 ^ 31)..<2 ^ 31}"

lemma word_of_int_inj:
  assumes "a \<in> int_range" "b \<in> int_range"
  shows "(word_of_int a :: u64) = word_of_int b \<longleftrightarrow> a = b"
proof
  assume "(word_of_int a :: u64) = word_of_int b"
  then have "sint (word_of_int a :: u64) = sint (word_of_int b :: u64)" by simp
  with assms show "a = b"
    by (simp add: signed_of_int signed_take_bit_int_eq_self)
qed simp

lemma map_of_map_keys_const:
  "map_of (map (\<lambda>x. (f x, c)) xs) k = (if k \<in> f ` set xs then Some c else None)"
  by (induction xs) auto

lemma hits_converted:
  assumes "set ks \<subseteq> int_range" "k \<in> int_range" "ks \<noteq> []"
  shows "hits (map word_of_int ks :: u64 list) i n (word_of_int k) = hits ks i n k"
proof -
  have "(map word_of_int ks :: u64 list) ! (j mod length ks) = word_of_int k \<longleftrightarrow> ks ! (j mod length ks) = k" for j
  proof -
    have j: "j mod length ks < length ks" using assms(3) by simp
    then have "ks ! (j mod length ks) \<in> int_range" using assms(1) nth_mem by blast
    with j assms(2) show ?thesis by (simp add: word_of_int_inj)
  qed
  then show ?thesis by (simp add: hits_def)
qed

lemma simple_flat_map_counts:
  assumes "distinct fds" "fds \<noteq> []" "lookup_fds \<noteq> []" "0 < iterations"
    and "set fds \<subseteq> int_range" "set lookup_fds \<subseteq> int_range"
  shows "\<exists>t es. median (map laps [0..<iterations]) = Inr t \<and>
    benchmark_lookup_simple_flat_map fds iterations lookup_fds laps = Some (Inr (t, es)) \<and>
    (\<forall>k \<in> int_range. flat_find (word_of_int k) es = Some (counted fds lookup_fds iterations k))"
proof -
  let ?kvs = "map (\<lambda>(fd, sd). (word_of_int fd :: u64, sd)) (with_sockets fds)"
  let ?new = "flat_new SocketData (length fds * 2)"
  have kvs: "?kvs = map (\<lambda>fd. (word_of_int fd, SocketData)) fds" by (simp add: with_sockets_def)
  then have fsts: "map fst ?kvs = map word_of_int fds" by (simp add: comp_def)
  have "inj_on (word_of_int :: int \<Rightarrow> u64) (set fds)"
    using assms(5) by (auto simp: inj_on_def word_of_int_inj subset_iff)
  with assms(1) have d: "distinct (map fst ?kvs)" unfolding fsts by (simp add: distinct_map)
  have new: "flat_wf ?new" "flat_fits (length ?kvs) ?new" "\<And>k. flat_map_of ?new k = None"
    using assms(2) by (simp_all add: flat_wf_new flat_map_of_new) (simp add: flat_fits_def flat_new_def)
  obtain t es where es: "median (map laps [0..<iterations]) = Inr t"
    "benchmark_lookup_simple_flat_map fds iterations lookup_fds laps = Some (Inr (t, es))" "flat_wf es"
    "\<forall>k. flat_map_of es k = map_option
      (bump_socket ^^ hits (map word_of_int lookup_fds) 0 iterations k) (map_of ?kvs k)"
    using flat_count.benchmark_counts [OF new(1,2) d new(3), of iterations "map word_of_int lookup_fds" laps bump_socket]
      assms(3,4)
    by (auto simp: benchmark_lookup_simple_flat_map_def)
  have keys: "map_of ?kvs (word_of_int k) = (if k \<in> set fds then Some SocketData else None)"
    if "k \<in> int_range" for k
  proof -
    have "(word_of_int k :: u64) \<in> word_of_int ` set fds \<longleftrightarrow> k \<in> set fds"
      using that assms(5) word_of_int_inj by blast
    then show ?thesis by (simp add: kvs map_of_map_keys_const)
  qed
  show ?thesis
    using es flat_find_map_of [OF flat_wf_nonempty [OF es(3)]] keys
      hits_converted [OF assms(6) _ assms(3), of _ 0 iterations]
    by (auto simp: counted_def bump_socket_counts SocketData_def)
qed

end
