(* ===== verification/Snowflake.thy ===== *)
theory Snowflake
  imports Prelude "HOL-Library.Sublist"
begin

text \<open>
  The two 64-bit identifier generators: \<open>SnowflakeGenerator\<close> of
  \<open>mync/snowflakeidgen.h\<close> and \<open>SnowflakeIDGenerator\<close> of \<open>testcontainer/main.cpp\<close>.
  The system clock is the list of the readings it will give; a call consumes the readings it
  takes and returns \<open>None\<close> while the list is too short for it to return. The mutex makes a
  call atomic. \<open>id_source\<close> is the contract of a generator that never repeats an
  identifier.
\<close>


section \<open>SnowflakeGenerator\<close>

definition EPOCH_START_MS :: u64 where "EPOCH_START_MS = 1735689600000"
definition WORKER_ID :: u64 where "WORKER_ID = 42"
definition SEQUENCE_BITS :: nat where "SEQUENCE_BITS = 13"
definition WORKER_ID_BITS :: nat where "WORKER_ID_BITS = 10"
definition MAX_SEQUENCE :: u64 where "MAX_SEQUENCE = push_bit SEQUENCE_BITS 1 - 1"
definition WORKER_ID_SHIFT :: nat where "WORKER_ID_SHIFT = SEQUENCE_BITS"
definition TIMESTAMP_SHIFT :: nat where "TIMESTAMP_SHIFT = SEQUENCE_BITS + WORKER_ID_BITS"

record generator =
  last_timestamp_ms :: u64
  sequence :: u64

definition new_generator :: generator where
  "new_generator = \<lparr>last_timestamp_ms = 0, sequence = 0\<rparr>"

text \<open>The wait for the next millisecond: readings are taken until one is later.\<close>

fun wait_for_next_ms :: "u64 \<Rightarrow> u64 list \<Rightarrow> (u64 \<times> u64 list) option" where
  "wait_for_next_ms last_ts [] = None"
| "wait_for_next_ms last_ts (timestamp # clock) =
     (if timestamp \<le> last_ts then wait_for_next_ms last_ts clock else Some (timestamp, clock))"

text \<open>The last part of \<open>next_id\<close>: the state is updated and the identifier put together.\<close>

definition make_id :: "u64 \<Rightarrow> u64 \<Rightarrow> u64" where
  "make_id timestamp sequ =
     (let relative_timestamp = timestamp - EPOCH_START_MS
      in push_bit TIMESTAMP_SHIFT relative_timestamp OR push_bit WORKER_ID_SHIFT WORKER_ID OR sequ)"

definition next_id :: "generator \<Rightarrow> u64 list \<Rightarrow> ((exn + u64) \<times> generator \<times> u64 list) option" where
  "next_id g clock = (case clock of
     [] \<Rightarrow> None
   | timestamp # clock1 \<Rightarrow>
       if timestamp < last_timestamp_ms g then
         Some (Inl (Runtime_error (''Clock moved backwards. Refusing to generate ID for ''
                 @ to_string (unat (last_timestamp_ms g - timestamp)) @ ''ms'')), g, clock1)
       else if timestamp = last_timestamp_ms g then
         (let sequ = (sequence g + 1) AND MAX_SEQUENCE
          in if sequ = 0 then
               (case wait_for_next_ms (last_timestamp_ms g) clock1 of
                  None \<Rightarrow> None
                | Some (timestamp', clock2) \<Rightarrow>
                    Some (Inr (make_id timestamp' 0),
                          \<lparr>last_timestamp_ms = timestamp', sequence = 0\<rparr>, clock2))
             else Some (Inr (make_id timestamp sequ),
                        \<lparr>last_timestamp_ms = timestamp, sequence = sequ\<rparr>, clock1))
       else Some (Inr (make_id timestamp 0),
                  \<lparr>last_timestamp_ms = timestamp, sequence = 0\<rparr>, clock1))"


section \<open>SnowflakeIDGenerator\<close>

definition BENCH_WORKER_ID :: u64 where "BENCH_WORKER_ID = 1"
definition CUSTOM_EPOCH :: u64 where "CUSTOM_EPOCH = 1672531200000"

text \<open>\<open>get_current_timestamp\<close>: every reading is taken relative to the epoch.\<close>

definition get_current_timestamp :: "u64 \<Rightarrow> u64" where
  "get_current_timestamp now = now - CUSTOM_EPOCH"

text \<open>\<open>while (timestamp == last_timestamp_) timestamp = get_current_timestamp();\<close>\<close>

fun wait_while_equal :: "u64 \<Rightarrow> u64 list \<Rightarrow> (u64 \<times> u64 list) option" where
  "wait_while_equal last_ts [] = None"
| "wait_while_equal last_ts (now # clock) =
     (let timestamp = get_current_timestamp now
      in if timestamp = last_ts then wait_while_equal last_ts clock else Some (timestamp, clock))"

definition bench_make_id :: "u64 \<Rightarrow> u64 \<Rightarrow> u64" where
  "bench_make_id timestamp sequ = push_bit 22 timestamp OR push_bit 12 BENCH_WORKER_ID OR sequ"

definition bench_next_id ::
  "generator \<Rightarrow> u64 list \<Rightarrow> ((exn + u64) \<times> generator \<times> u64 list) option" where
  "bench_next_id g clock = (case clock of
     [] \<Rightarrow> None
   | now # clock1 \<Rightarrow>
       let timestamp = get_current_timestamp now in
       if timestamp < last_timestamp_ms g then
         Some (Inl (Runtime_error ''Clock moved backwards.''), g, clock1)
       else if timestamp = last_timestamp_ms g then
         (let sequ = (sequence g + 1) AND 0xFFF
          in if sequ = 0 then
               (case wait_while_equal (last_timestamp_ms g) clock1 of
                  None \<Rightarrow> None
                | Some (timestamp', clock2) \<Rightarrow>
                    Some (Inr (bench_make_id timestamp' 0),
                          \<lparr>last_timestamp_ms = timestamp', sequence = 0\<rparr>, clock2))
             else Some (Inr (bench_make_id timestamp sequ),
                        \<lparr>last_timestamp_ms = timestamp, sequence = sequ\<rparr>, clock1))
       else Some (Inr (bench_make_id timestamp 0),
                  \<lparr>last_timestamp_ms = timestamp, sequence = 0\<rparr>, clock1))"


section \<open>Calls in a row\<close>

text \<open>\<open>n\<close> calls in a row; the identifiers of those that returned one.\<close>

fun issue :: "('s \<Rightarrow> u64 list \<Rightarrow> ((exn + u64) \<times> 's \<times> u64 list) option) \<Rightarrow> nat \<Rightarrow> 's \<Rightarrow> u64 list \<Rightarrow> u64 list"
  where
  "issue gen 0 g clock = []"
| "issue gen (Suc n) g clock =
     (case gen g clock of
        None \<Rightarrow> []
      | Some (Inl e, g', clock') \<Rightarrow> issue gen n g' clock'
      | Some (Inr i, g', clock') \<Rightarrow> i # issue gen n g' clock')"

text \<open>
  The contract of a source of identifiers. \<open>rank\<close> places a state in the order of the
  identifiers it may still give; \<open>good\<close> says which clocks the promise covers.
\<close>

locale id_source =
  fixes gen :: "'s \<Rightarrow> u64 list \<Rightarrow> ((exn + u64) \<times> 's \<times> u64 list) option"
    and ok :: "'s \<Rightarrow> bool"
    and good :: "u64 list \<Rightarrow> bool"
    and rank :: "'s \<Rightarrow> nat"
    and id_rank :: "u64 \<Rightarrow> nat"
  assumes refused: "ok g \<Longrightarrow> good clock \<Longrightarrow> gen g clock = Some (Inl e, g', clock') \<Longrightarrow>
      g' = g \<and> good clock'"
    and issued: "ok g \<Longrightarrow> good clock \<Longrightarrow> gen g clock = Some (Inr i, g', clock') \<Longrightarrow>
      ok g' \<and> good clock' \<and> rank g < rank g' \<and> id_rank i = rank g'"
    and id_rank_mono: "id_rank i < id_rank j \<longleftrightarrow> i < j"
begin

lemma issue_above:
  assumes "ok g" "good clock" "i \<in> set (issue gen n g clock)"
  shows "rank g < id_rank i"
  using assms
proof (induction n arbitrary: g clock)
  case 0
  then show ?case by simp
next
  case (Suc n)
  show ?case
  proof (cases "gen g clock")
    case None
    with Suc.prems show ?thesis by simp
  next
    case (Some r)
    obtain out g' clock' where r: "r = (out, g', clock')" by (cases r)
    show ?thesis
    proof (cases out)
      case (Inl e)
      with Suc Some r refused [of g clock e g' clock'] show ?thesis by auto
    next
      case (Inr j)
      with Suc.prems Some r have "ok g'" "good clock'" "rank g < rank g'" "id_rank j = rank g'"
        using issued [of g clock j g' clock'] by auto
      moreover from Suc.prems(3) Some r Inr have "i = j \<or> i \<in> set (issue gen n g' clock')"
        by auto
      ultimately show ?thesis using Suc.IH [of g' clock'] by force
    qed
  qed
qed

lemma issue_increasing:
  assumes "ok g" "good clock"
  shows "sorted_wrt (<) (issue gen n g clock)"
  using assms
proof (induction n arbitrary: g clock)
  case 0
  then show ?case by simp
next
  case (Suc n)
  show ?case
  proof (cases "gen g clock")
    case None
    then show ?thesis by simp
  next
    case (Some r)
    obtain out g' clock' where r: "r = (out, g', clock')" by (cases r)
    show ?thesis
    proof (cases out)
      case (Inl e)
      with Suc Some r refused [of g clock e g' clock'] show ?thesis by auto
    next
      case (Inr j)
      with Suc.prems Some r have "ok g'" "good clock'" "id_rank j = rank g'"
        using issued [of g clock j g' clock'] by auto
      with Suc.IH [of g' clock'] issue_above [of g' clock' _ n] Some r Inr show ?thesis
        by (auto simp: id_rank_mono [symmetric])
    qed
  qed
qed

end


section \<open>The layout of an identifier\<close>

lemmas snowflake_consts = EPOCH_START_MS_def WORKER_ID_def SEQUENCE_BITS_def WORKER_ID_BITS_def
  MAX_SEQUENCE_def WORKER_ID_SHIFT_def TIMESTAMP_SHIFT_def

text \<open>The 41 bits above the worker and the counter last until the year 2094.\<close>

definition in_epoch :: "u64 \<Rightarrow> bool" where
  "in_epoch t \<longleftrightarrow> unat EPOCH_START_MS \<le> unat t \<and> unat t < unat EPOCH_START_MS + 2 ^ 41"

lemma unat_make_id:
  assumes "in_epoch t" "unat sequ < 8192"
  shows "unat (make_id t sequ) = (unat t - unat EPOCH_START_MS) * 2 ^ 23 + (42 * 2 ^ 13 + unat sequ)"
proof -
  have rel: "unat (t - EPOCH_START_MS) = unat t - unat EPOCH_START_MS"
    using assms(1) by (simp add: in_epoch_def unat_sub word_le_nat_alt)
  have small: "unat t - unat EPOCH_START_MS < 2 ^ 41"
    using assms(1) by (auto simp: in_epoch_def)
  have "unat (make_id t sequ) =
      unat (t - EPOCH_START_MS) * 2 ^ 23 + (unat WORKER_ID * 2 ^ 13 + unat sequ)"
    unfolding make_id_def Let_def using assms(2) small
    by (subst unat_pack3) (simp_all add: snowflake_consts rel [unfolded EPOCH_START_MS_def])
  then show ?thesis by (simp add: rel WORKER_ID_def)
qed

definition ts_field :: "u64 \<Rightarrow> u64" where "ts_field i = drop_bit 23 i"
definition worker_field :: "u64 \<Rightarrow> u64" where "worker_field i = drop_bit 13 i AND 0x3FF"
definition seq_field :: "u64 \<Rightarrow> u64" where "seq_field i = i AND 0x1FFF"


lemma unat_ts_field: "unat (ts_field i) = unat i div 2 ^ 23"
  by (simp only: ts_field_def unat_drop_bit_eq drop_bit_eq_div [where 'a = nat])

lemma unat_and_mask: "unat (w AND mask n) = unat w mod 2 ^ n"
  by (simp only: take_bit_eq_mask [symmetric] unsigned_take_bit_eq take_bit_eq_mod [where 'a = nat])

lemma unat_worker_field: "unat (worker_field i) = unat i div 2 ^ 13 mod 2 ^ 10"
proof -
  have "worker_field i = drop_bit 13 i AND mask 10"
    by (simp add: worker_field_def mask_eq_exp_minus_1)
  then show ?thesis by (simp only: unat_and_mask unat_drop_bit_eq drop_bit_eq_div [where 'a = nat])
qed

lemma unat_seq_field: "unat (seq_field i) = unat i mod 2 ^ 13"
proof -
  have "seq_field i = i AND mask 13"
    by (simp add: seq_field_def mask_eq_exp_minus_1)
  then show ?thesis by (simp only: unat_and_mask)
qed

lemma make_id_fields:
  assumes "in_epoch t" "unat sequ < 8192"
  shows "ts_field (make_id t sequ) = t - EPOCH_START_MS" "worker_field (make_id t sequ) = WORKER_ID"
    "seq_field (make_id t sequ) = sequ"
proof -
  have rel: "unat (t - EPOCH_START_MS) = unat t - unat EPOCH_START_MS"
    using assms(1) by (simp add: in_epoch_def unat_sub word_le_nat_alt)
  note u = unat_make_id [OF assms]
  have split: "unat (make_id t sequ) =
      unat sequ + (42 + (unat t - unat EPOCH_START_MS) * 2 ^ 10) * 2 ^ 13"
    by (simp add: u)
  show "ts_field (make_id t sequ) = t - EPOCH_START_MS"
    by (rule word_unat_eq_iff [THEN iffD2]) (use assms(2) in \<open>simp add: unat_ts_field u rel\<close>)
  show "worker_field (make_id t sequ) = WORKER_ID"
  proof (rule word_unat_eq_iff [THEN iffD2])
    from assms(2) split
    have "unat (make_id t sequ) div 2 ^ 13 = 42 + (unat t - unat EPOCH_START_MS) * 2 ^ 10"
      by simp
    then show "unat (worker_field (make_id t sequ)) = unat WORKER_ID"
      by (simp add: unat_worker_field WORKER_ID_def)
  qed
  show "seq_field (make_id t sequ) = sequ"
    by (rule word_unat_eq_iff [THEN iffD2])
      (simp only: unat_seq_field split mod_mult_self1, use assms(2) in simp)
qed


section \<open>The generator keeps its contract\<close>

definition gen_ok :: "generator \<Rightarrow> bool" where
  "gen_ok g \<longleftrightarrow> unat (sequence g) < 8192 \<and>
     (last_timestamp_ms g = 0 \<or> in_epoch (last_timestamp_ms g))"

definition gen_rank :: "generator \<Rightarrow> nat" where
  "gen_rank g = (if last_timestamp_ms g = 0 then 0
                 else Suc (unat (make_id (last_timestamp_ms g) (sequence g))))"

lemma next_sequence: "unat ((s + 1) AND MAX_SEQUENCE) = (unat s + 1) mod 8192"
proof -
  have "MAX_SEQUENCE = mask 13"
    by (simp add: MAX_SEQUENCE_def SEQUENCE_BITS_def mask_eq_exp_minus_1)
  then have "unat ((s + 1) AND MAX_SEQUENCE) = unat (s + 1) mod 2 ^ 13"
    using unat_and_mask [of "s + 1" 13] by metis
  also have "\<dots> = ((unat s + 1) mod 2 ^ 64) mod 2 ^ 13"
    by (simp add: unat_word_ariths)
  also have "\<dots> = (unat s + 1) mod 2 ^ 13"
    by (rule mod_mod_cancel) (simp add: le_imp_power_dvd)
  finally show ?thesis by simp
qed

lemma wait_for_next_ms_Some:
  "wait_for_next_ms last_ts clock = Some (t, rest) \<Longrightarrow>
     last_ts < t \<and> t \<in> set clock \<and> suffix rest clock"
  by (induction clock) (auto split: if_splits intro: suffix_ConsI)

text \<open>The ways a call returns: refused, or with the state whose identifier it gives out.\<close>

lemma next_id_cases:
  assumes "next_id g clock = Some (out, g', clock')" "unat (sequence g) < 8192"
  obtains (refused) t where "clock = t # clock'" "t < last_timestamp_ms g" "isl out" "g' = g"
  | (issued) "out = Inr (make_id (last_timestamp_ms g') (sequence g'))"
      "last_timestamp_ms g' \<in> set clock" "suffix clock' clock" "unat (sequence g') < 8192"
      "last_timestamp_ms g < last_timestamp_ms g' \<and> sequence g' = 0 \<or>
       last_timestamp_ms g = last_timestamp_ms g' \<and> unat (sequence g') = Suc (unat (sequence g))"
proof -
  from assms(1) obtain t clock1 where clock: "clock = t # clock1"
    by (auto simp: next_id_def split: list.splits)
  let ?s = "(sequence g + 1) AND MAX_SEQUENCE"
  consider "t < last_timestamp_ms g" | "t = last_timestamp_ms g" "?s = 0"
    | "t = last_timestamp_ms g" "?s \<noteq> 0" | "last_timestamp_ms g < t"
    by force
  then show thesis
  proof cases
    case 1
    with assms(1) clock have "isl out" "g' = g" "clock = t # clock'"
      by (auto simp: next_id_def)
    with 1 show ?thesis by (intro refused)
  next
    case 2
    with assms(1) clock obtain t' where
      t': "wait_for_next_ms t clock1 = Some (t', clock')"
      and res: "out = Inr (make_id t' 0)" "g' = \<lparr>last_timestamp_ms = t', sequence = 0\<rparr>"
      by (auto simp: next_id_def split: option.splits)
    from wait_for_next_ms_Some [OF t'] 2(1) res clock show ?thesis
      by (intro issued) (simp_all add: suffix_ConsI)
  next
    case 3
    have "unat ?s \<noteq> 0" using 3(2) by (simp only: unat_eq_zero not_False_eq_True)
    then have "unat ?s = Suc (unat (sequence g))" "unat ?s < 8192"
      using next_sequence [of "sequence g"] assms(2)
      by (simp_all add: mod_if split: if_splits)
    moreover from 3 assms(1) clock have "out = Inr (make_id t ?s)" "clock1 = clock'"
        "g' = \<lparr>last_timestamp_ms = t, sequence = ?s\<rparr>"
      by (auto simp: next_id_def Let_def)
    ultimately show ?thesis
      using 3(1) clock by (intro issued) (simp_all add: suffix_ConsI)
  next
    case 4
    then have "\<not> t < last_timestamp_ms g" "t \<noteq> last_timestamp_ms g" by auto
    with assms(1) clock have "out = Inr (make_id t 0)" "clock1 = clock'"
        "g' = \<lparr>last_timestamp_ms = t, sequence = 0\<rparr>"
      by (auto simp: next_id_def)
    with 4 clock show ?thesis
      by (intro issued) (simp_all add: suffix_ConsI)
  qed
qed

lemma suffix_list_all: "suffix ys xs \<Longrightarrow> list_all P xs \<Longrightarrow> list_all P ys"
  by (auto simp: suffix_def)

lemma epoch_positive: "in_epoch t \<Longrightarrow> t \<noteq> 0"
  by (auto simp: in_epoch_def EPOCH_START_MS_def)

lemma next_id_issued:
  assumes "gen_ok g" "list_all in_epoch clock" "next_id g clock = Some (Inr i, g', clock')"
  shows "gen_ok g' \<and> list_all in_epoch clock' \<and> gen_rank g < gen_rank g' \<and>
    Suc (unat i) = gen_rank g'"
proof -
  from assms(1) have "unat (sequence g) < 8192" by (simp add: gen_ok_def)
  with assms(3) show ?thesis
  proof (cases rule: next_id_cases)
    case refused
    then show ?thesis by simp
  next
    case issued
    from issued(2) assms(2) have t': "in_epoch (last_timestamp_ms g')"
      by (auto simp: list_all_iff)
    have "gen_rank g < gen_rank g'"
    proof (cases "last_timestamp_ms g = 0")
      case True
      with epoch_positive [OF t'] show ?thesis by (simp add: gen_rank_def)
    next
      case False
      with assms(1) have "in_epoch (last_timestamp_ms g)" by (simp add: gen_ok_def)
      with False t' issued(4,5) assms(1) show ?thesis
        by (auto simp: gen_rank_def gen_ok_def unat_make_id epoch_positive word_less_nat_alt
            in_epoch_def)
    qed
    with issued t' assms(2) show ?thesis
      by (auto simp: gen_ok_def gen_rank_def epoch_positive intro: suffix_list_all)
  qed
qed

lemma next_id_refused:
  assumes "gen_ok g" "list_all in_epoch clock" "next_id g clock = Some (Inl e, g', clock')"
  shows "g' = g \<and> list_all in_epoch clock'"
proof -
  from assms(1) have "unat (sequence g) < 8192" by (simp add: gen_ok_def)
  with assms(3) show ?thesis
    by (cases rule: next_id_cases) (use assms(2) in auto)
qed

interpretation snowflake: id_source next_id gen_ok "list_all in_epoch" gen_rank "\<lambda>i. Suc (unat i)"
proof
  show "g' = g \<and> list_all in_epoch clock'"
    if "gen_ok g" "list_all in_epoch clock" "next_id g clock = Some (Inl e, g', clock')"
    for g clock e g' clock'
    using that by (rule next_id_refused)
  show "gen_ok g' \<and> list_all in_epoch clock' \<and> gen_rank g < gen_rank g' \<and> Suc (unat i) = gen_rank g'"
    if "gen_ok g" "list_all in_epoch clock" "next_id g clock = Some (Inr i, g', clock')"
    for g clock i g' clock'
    using that by (rule next_id_issued)
qed (simp add: word_less_nat_alt)



section \<open>The benchmark generator under a clock that never goes back\<close>

definition bench_ok :: "generator \<Rightarrow> bool" where
  "bench_ok g \<longleftrightarrow> unat (sequence g) < 4096 \<and> unat (last_timestamp_ms g) < 2 ^ 41"

definition bench_good :: "u64 list \<Rightarrow> bool" where
  "bench_good clock \<longleftrightarrow> sorted (map get_current_timestamp clock) \<and>
     list_all (\<lambda>now. unat (get_current_timestamp now) < 2 ^ 41) clock"

definition bench_rank :: "generator \<Rightarrow> nat" where
  "bench_rank g = unat (bench_make_id (last_timestamp_ms g) (sequence g))"

lemma unat_bench_make_id:
  assumes "unat t < 2 ^ 41" "unat sequ < 4096"
  shows "unat (bench_make_id t sequ) = unat t * 2 ^ 22 + (2 ^ 12 + unat sequ)"
  unfolding bench_make_id_def using assms
  by (subst unat_pack3) (simp_all add: BENCH_WORKER_ID_def)

lemma bench_next_sequence: "unat ((s + 1) AND (0xFFF :: u64)) = (unat s + 1) mod 4096"
proof -
  have "(0xFFF :: u64) = mask 12" by (simp add: mask_eq_exp_minus_1)
  then have "unat ((s + 1) AND (0xFFF :: u64)) = unat (s + 1) mod 2 ^ 12"
    using unat_and_mask [of "s + 1" 12] by metis
  also have "\<dots> = ((unat s + 1) mod 2 ^ 64) mod 2 ^ 12"
    by (simp add: unat_word_ariths)
  also have "\<dots> = (unat s + 1) mod 2 ^ 12"
    by (rule mod_mod_cancel) (simp add: le_imp_power_dvd)
  finally show ?thesis by simp
qed

lemma wait_while_equal_Some:
  "wait_while_equal last_ts clock = Some (t, rest) \<Longrightarrow>
     t \<noteq> last_ts \<and> t \<in> get_current_timestamp ` set clock \<and> suffix rest clock"
  by (induction clock) (auto simp: Let_def split: if_splits intro: suffix_ConsI)

lemma bench_good_suffix: "suffix ys xs \<Longrightarrow> bench_good xs \<Longrightarrow> bench_good ys"
  by (auto simp: bench_good_def suffix_def sorted_append)

lemma bench_next_id_cases:
  assumes "bench_next_id g clock = Some (out, g', clock')" "unat (sequence g) < 4096"
    and "bench_good clock"
  obtains (refused) "isl out" "g' = g" "suffix clock' clock"
  | (issued) "out = Inr (bench_make_id (last_timestamp_ms g') (sequence g'))"
      "last_timestamp_ms g' \<in> get_current_timestamp ` set clock"
      "suffix clock' clock" "unat (sequence g') < 4096"
      "last_timestamp_ms g < last_timestamp_ms g' \<and> sequence g' = 0 \<or>
       last_timestamp_ms g = last_timestamp_ms g' \<and> unat (sequence g') = Suc (unat (sequence g))"
proof -
  from assms(1) obtain now clock1 where clock: "clock = now # clock1"
    by (auto simp: bench_next_id_def split: list.splits)
  let ?t = "get_current_timestamp now" and ?s = "(sequence g + 1) AND 0xFFF"
  consider "?t < last_timestamp_ms g" | "?t = last_timestamp_ms g" "?s = 0"
    | "?t = last_timestamp_ms g" "?s \<noteq> 0"
    | "last_timestamp_ms g < ?t" "\<not> ?t < last_timestamp_ms g" "?t \<noteq> last_timestamp_ms g"
    by force
  then show thesis
  proof cases
    case 1
    with assms(1) clock have "isl out" "g' = g" "suffix clock' clock"
      by (auto simp: bench_next_id_def Let_def intro: suffix_ConsI)
    then show ?thesis by (rule refused)
  next
    case 2
    with assms(1) clock obtain t' where
      t': "wait_while_equal ?t clock1 = Some (t', clock')"
      and res: "out = Inr (bench_make_id t' 0)" "g' = \<lparr>last_timestamp_ms = t', sequence = 0\<rparr>"
      by (auto simp: bench_next_id_def Let_def split: option.splits)
    from wait_while_equal_Some [OF t'] have t'_in: "t' \<noteq> ?t" "t' \<in> get_current_timestamp ` set clock1"
        "suffix clock' clock1" by auto
    from assms(3) clock t'_in(2) have "?t \<le> t'" by (auto simp: bench_good_def)
    with t'_in 2(1) res clock show ?thesis
      by (intro issued) (auto simp: suffix_ConsI)
  next
    case 3
    have "unat ?s \<noteq> 0" using 3(2) by (simp only: unat_eq_zero not_False_eq_True)
    then have "unat ?s = Suc (unat (sequence g))" "unat ?s < 4096"
      using bench_next_sequence [of "sequence g"] assms(2)
      by (simp_all add: mod_if split: if_splits)
    moreover from 3 assms(1) clock have "out = Inr (bench_make_id ?t ?s)" "clock1 = clock'"
        "g' = \<lparr>last_timestamp_ms = ?t, sequence = ?s\<rparr>"
      by (auto simp: bench_next_id_def Let_def)
    ultimately show ?thesis
      using 3(1) clock by (intro issued) (simp_all add: suffix_ConsI)
  next
    case 4
    with assms(1) clock have "out = Inr (bench_make_id ?t 0)" "clock1 = clock'"
        "g' = \<lparr>last_timestamp_ms = ?t, sequence = 0\<rparr>"
      by (auto simp: bench_next_id_def Let_def)
    with 4 clock show ?thesis
      by (intro issued) (simp_all add: suffix_ConsI)
  qed
qed

lemma bench_next_id_issued:
  assumes "bench_ok g" "bench_good clock" "bench_next_id g clock = Some (Inr i, g', clock')"
  shows "bench_ok g' \<and> bench_good clock' \<and> bench_rank g < bench_rank g' \<and> unat i = bench_rank g'"
proof -
  from assms(1) have "unat (sequence g) < 4096" by (simp add: bench_ok_def)
  from assms(3) this assms(2) show ?thesis
  proof (cases rule: bench_next_id_cases)
    case refused
    then show ?thesis by simp
  next
    case issued
    from issued(2) assms(2) have t': "unat (last_timestamp_ms g') < 2 ^ 41"
      by (auto simp: bench_good_def list_all_iff)
    with issued(4,5) assms(1) have "bench_rank g < bench_rank g'"
      by (auto simp: bench_rank_def bench_ok_def unat_bench_make_id word_less_nat_alt)
    with issued t' assms(2) show ?thesis
      by (auto simp: bench_ok_def bench_rank_def intro: bench_good_suffix)
  qed
qed

lemma bench_next_id_refused:
  assumes "bench_ok g" "bench_good clock" "bench_next_id g clock = Some (Inl e, g', clock')"
  shows "g' = g \<and> bench_good clock'"
proof -
  from assms(1) have "unat (sequence g) < 4096" by (simp add: bench_ok_def)
  from assms(3) this assms(2) show ?thesis
    by (cases rule: bench_next_id_cases) (use assms(2) bench_good_suffix in auto)
qed

interpretation bench: id_source bench_next_id bench_ok bench_good bench_rank unat
proof
  show "g' = g \<and> bench_good clock'"
    if "bench_ok g" "bench_good clock" "bench_next_id g clock = Some (Inl e, g', clock')"
    for g clock e g' clock'
    using that by (rule bench_next_id_refused)
  show "bench_ok g' \<and> bench_good clock' \<and> bench_rank g < bench_rank g' \<and> unat i = bench_rank g'"
    if "bench_ok g" "bench_good clock" "bench_next_id g clock = Some (Inr i, g', clock')"
    for g clock i g' clock'
    using that by (rule bench_next_id_issued)
qed (simp add: word_less_nat_alt)


section \<open>Properties\<close>

text \<open>C17: As long as the clock stays in the 41-bit range, the identifiers given out by any
  number of calls in a row are strictly increasing, so no identifier is given out twice,
  whatever the clock does in between (stand still, jump, go back).\<close>

theorem snowflake_ids_increasing:
  assumes "list_all in_epoch clock"
  shows "sorted_wrt (<) (issue next_id n new_generator clock)"
  using assms by (intro snowflake.issue_increasing) (simp add: gen_ok_def new_generator_def)

text \<open>An identifier splits back into its three fields: the milliseconds since the epoch of
  the state after the call, the worker number, and the counter.\<close>

theorem snowflake_id_fields:
  assumes "gen_ok g" "list_all in_epoch clock" "next_id g clock = Some (Inr i, g', clock')"
  shows "ts_field i = last_timestamp_ms g' - EPOCH_START_MS \<and> worker_field i = WORKER_ID \<and>
    seq_field i = sequence g' \<and> sequence g' \<le> MAX_SEQUENCE"
proof -
  from assms(1) have "unat (sequence g) < 8192" by (simp add: gen_ok_def)
  with assms(3) show ?thesis
  proof (cases rule: next_id_cases)
    case refused
    then show ?thesis by simp
  next
    case issued
    from issued(2) assms(2) have "in_epoch (last_timestamp_ms g')"
      by (auto simp: list_all_iff)
    with issued show ?thesis
      by (simp add: make_id_fields word_le_nat_alt MAX_SEQUENCE_def SEQUENCE_BITS_def)
  qed
qed

text \<open>A call returns as soon as the clock has moved past the last time stamp: the wait for
  the next millisecond ends.\<close>

theorem snowflake_call_returns:
  assumes "t \<in> set clock" "last_timestamp_ms g < t"
  shows "\<exists>out g' rest. next_id g (now # clock) = Some (out, g', rest)"
proof -
  have "wait_for_next_ms (last_timestamp_ms g) clock \<noteq> None"
    using assms by (induction clock) auto
  then show ?thesis by (auto simp: next_id_def Let_def)
qed

text \<open>The generator of the benchmark gives strictly increasing identifiers when the clock
  never goes back.\<close>

theorem bench_ids_increasing:
  assumes "sorted (map get_current_timestamp clock)"
    and "list_all (\<lambda>now. unat (get_current_timestamp now) < 2 ^ 41) clock"
  shows "sorted_wrt (<) (issue bench_next_id n new_generator clock)"
  using assms by (intro bench.issue_increasing)
    (simp_all add: bench_ok_def bench_good_def new_generator_def)

text \<open>Its wait only tests for inequality: when the counter is used up and the clock goes back
  during the wait, the call does not refuse, and the identifier is smaller than the one
  given out before.\<close>

theorem bench_wait_accepts_earlier_time:
  assumes "get_current_timestamp now = last_timestamp_ms g" "sequence g = 0xFFF"
    and "get_current_timestamp back < last_timestamp_ms g" "unat (last_timestamp_ms g) < 2 ^ 41"
  shows "\<exists>i g'. bench_next_id g [now, back] = Some (Inr i, g', []) \<and>
    i < bench_make_id (last_timestamp_ms g) (sequence g)"
proof -
  have "unat (get_current_timestamp back) < unat (last_timestamp_ms g)"
    using assms(3) by (simp add: word_less_nat_alt)
  with assms have "bench_make_id (get_current_timestamp back) 0 <
      bench_make_id (last_timestamp_ms g) (sequence g)"
    by (simp add: word_less_nat_alt unat_bench_make_id)
  moreover have "get_current_timestamp back \<noteq> last_timestamp_ms g"
    using assms(3) by simp
  ultimately show ?thesis using assms by (simp add: bench_next_id_def Let_def)
qed


section \<open>Witnesses\<close>

text \<open>Two calls in one millisecond, one refused, one in the next millisecond.\<close>

lemma snowflake_ids_increasing_witness:
  "sorted_wrt (<) (issue next_id 4 new_generator
     [1735689600005, 1735689600005, 1735689600004, 1735689600006])"
  by (rule snowflake_ids_increasing) (simp add: in_epoch_def EPOCH_START_MS_def)

lemma snowflake_id_fields_witness:
  "ts_field 42287104 = 5 \<and> worker_field 42287104 = 42 \<and> seq_field 42287104 = 0"
proof -
  have "next_id new_generator [1735689600005] =
      Some (Inr 42287104, \<lparr>last_timestamp_ms = 1735689600005, sequence = 0\<rparr>, [])"
    by (simp add: next_id_def new_generator_def make_id_def snowflake_consts)
  moreover have "gen_ok new_generator" "list_all in_epoch [1735689600005]"
    by (simp_all add: gen_ok_def new_generator_def in_epoch_def EPOCH_START_MS_def)
  ultimately show ?thesis
    using snowflake_id_fields [of new_generator "[1735689600005]" 42287104]
    by (simp add: EPOCH_START_MS_def WORKER_ID_def)
qed

lemma snowflake_call_returns_witness:
  "\<exists>out g' rest. next_id \<lparr>last_timestamp_ms = 7, sequence = MAX_SEQUENCE\<rparr> [7, 7, 8] =
     Some (out, g', rest)"
  by (rule snowflake_call_returns [of 8 "[7, 8]"]) simp_all

lemma bench_ids_increasing_witness:
  "sorted_wrt (<) (issue bench_next_id 3 new_generator
     [1672531200000, 1672531200000, 1672531200009])"
  by (rule bench_ids_increasing) (simp_all add: get_current_timestamp_def CUSTOM_EPOCH_def)

lemma bench_wait_accepts_earlier_time_witness:
  "\<exists>i g'. bench_next_id \<lparr>last_timestamp_ms = 9, sequence = 0xFFF\<rparr>
       [1672531200009, 1672531200003] = Some (Inr i, g', []) \<and> i < bench_make_id 9 0xFFF"
  using bench_wait_accepts_earlier_time [of 1672531200009
      "\<lparr>last_timestamp_ms = 9, sequence = 0xFFF\<rparr>" 1672531200003]
  by (simp add: get_current_timestamp_def CUSTOM_EPOCH_def)

end
