(* ===== verification/BenchmarkProgram.thy ===== *)
theory BenchmarkProgram
  imports SocketBenchmarks Snowflake
begin

text \<open>
  The rest of \<open>testcontainer/main.cpp\<close>: the insertion benchmarks, the generators of descriptors,
  identifiers and lookups, the benchmark over the double buffer, and \<open>main\<close>, which runs the three
  benchmarks over Snowflake and over random identifiers. The random engine, the distributions and
  \<open>std::shuffle\<close> are the record \<open>rng\<close>; the development relies on \<open>rng_ok\<close>: a uniform
  distribution stays in its range and a shuffle is a permutation.
\<close>


section \<open>Loading keys that repeat\<close>

text \<open>Random identifiers may repeat; storing the same entry again changes nothing.\<close>

locale repeating_store = counting_store insert find lookup inv fits hit bump
  for insert :: "'k \<Rightarrow> 'v \<Rightarrow> 'm \<Rightarrow> 'm option"
    and find :: "'k \<Rightarrow> 'm \<Rightarrow> ('v option \<times> 'm) option"
    and lookup :: "'m \<Rightarrow> 'k \<Rightarrow> 'v option"
    and inv :: "'m \<Rightarrow> bool"
    and fits :: "nat \<Rightarrow> 'm \<Rightarrow> bool"
    and hit :: "'k \<Rightarrow> 'm \<Rightarrow> 'm option"
    and bump :: "'v \<Rightarrow> 'v" +
  assumes insert_again: "inv m \<Longrightarrow> fits (Suc n) m \<Longrightarrow> lookup m k = Some v \<Longrightarrow>
      \<exists>m'. insert k v m = Some m' \<and> inv m' \<and> fits n m' \<and> lookup m' = lookup m"
begin

lemma load_repeated:
  assumes "inv m" "fits (length ks) m" "\<And>k. lookup m k \<in> {None, Some (f k)}"
  shows "\<exists>m'. load_store insert (map (\<lambda>k. (k, f k)) ks) m = Some m' \<and> inv m' \<and>
    (\<forall>k. lookup m' k = (if k \<in> set ks then Some (f k) else lookup m k))"
  using assms
proof (induction ks arbitrary: m)
  case Nil
  then show ?case by simp
next
  case (Cons k ks)
  have "\<exists>m1. insert k (f k) m = Some m1 \<and> inv m1 \<and> fits (length ks) m1 \<and>
      lookup m1 = (lookup m)(k \<mapsto> f k)"
  proof (cases "lookup m k")
    case None
    with Cons.prems(1,2) insert_new [of m "length ks" k "f k"] show ?thesis by simp
  next
    case (Some v)
    with Cons.prems(3) [of k] have "lookup m k = Some (f k)" by simp
    with Cons.prems(1,2) insert_again [of m "length ks" k "f k"] show ?thesis
      by (auto simp: fun_upd_idem)
  qed
  then obtain m1 where m1: "insert k (f k) m = Some m1" "inv m1" "fits (length ks) m1"
    "lookup m1 = (lookup m)(k \<mapsto> f k)" by blast
  have "lookup m1 k' \<in> {None, Some (f k')}" for k' using Cons.prems(3) [of k'] m1(4) by auto
  from Cons.IH [OF m1(2,3) this] m1(1,4) show ?case by auto
qed

lemma benchmark_repeated:
  assumes "inv m" "fits (length ks) m" "\<And>k. lookup m k = None" "0 < iterations" "lookup_ids \<noteq> []"
  shows "\<exists>t m'. median (map laps [0..<iterations]) = Inr t \<and>
    Option.bind (load_store insert (map (\<lambda>k. (k, f k)) ks) m)
      (timed_lookups hit iterations lookup_ids laps) = Some (Inr (t, m')) \<and> inv m' \<and>
    (\<forall>k. lookup m' k = (if k \<in> set ks then Some ((bump ^^ hits lookup_ids 0 iterations k) (f k)) else None))"
proof -
  from load_repeated [OF assms(1,2), of f] assms(3) obtain m1 where
    m1: "load_store insert (map (\<lambda>k. (k, f k)) ks) m = Some m1" "inv m1"
      "\<forall>k. lookup m1 k = (if k \<in> set ks then Some (f k) else None)" by auto
  from hit_loop_lookup [OF m1(2), of lookup_ids 0 iterations] obtain m' where
    m': "hit_loop hit lookup_ids 0 iterations m1 = Some m'" "inv m'"
      "\<forall>k. lookup m' k = map_option (bump ^^ hits lookup_ids 0 iterations k) (lookup m1 k)" by blast
  obtain t where "median (map laps [0..<iterations]) = Inr t"
    using assms(4) median_defined [of "map laps [0..<iterations]"] by auto
  with m1 m' assms(5) show ?thesis by (simp add: timed_lookups_def)
qed

end

interpretation emplace_again: repeating_store umap_emplace_store "\<lambda>k m. Some (umap_find k m, m)"
  "\<lambda>m k. umap_find k m" umap_wf "\<lambda>n m. True" "\<lambda>k m. Some (umap_hit bump k m)" bump for bump
  by unfold_locales
    (metis (no_types, lifting) umap_emplace_store_def umap_emplace_def umap_count_def umap_find_def
      map_of_eq_None_iff option.distinct(1))

interpretation flat_again: repeating_store flat_insert flat_store_find flat_map_of flat_wf flat_fits
  "flat_hit bump" bump for bump
  by unfold_locales (metis flat_store_insert_new fun_upd_triv)


section \<open>Descriptors and the insertion benchmarks\<close>

definition generate_sequential_fds :: "nat \<Rightarrow> fd list" where
  "generate_sequential_fds num_fds = map (\<lambda>i. 3 + int i) [0..<num_fds]"

text \<open>
  The time per insertion, elapsed over the number of descriptors; without descriptors the
  floating point division gives no number (\<open>None\<close>). The container is dropped by the code and
  kept in the result here.
\<close>

definition per_insert :: "nat \<Rightarrow> 'k list \<Rightarrow> rat option" where
  "per_insert elapsed fds = (if fds = [] then None else Some (of_nat elapsed / of_nat (length fds)))"

definition benchmark_gradual_insert_vector ::
  "fd list \<Rightarrow> nat \<Rightarrow> (rat option \<times> socket_data vector_store) option" where
  "benchmark_gradual_insert_vector fds elapsed =
     map_option (\<lambda>store. (per_insert elapsed fds, store)) (load_store vec_store_insert (with_sockets fds) [])"

definition benchmark_gradual_insert_sorted_vector ::
  "fd list \<Rightarrow> nat \<Rightarrow> (rat option \<times> socket_data sorted_store) option" where
  "benchmark_gradual_insert_sorted_vector fds elapsed =
     map_option (\<lambda>store. (per_insert elapsed fds, store))
       (load_store sorted_store_insert (with_sockets fds) sorted_empty)"

definition benchmark_gradual_insert_unordered_map ::
  "fd list \<Rightarrow> nat \<Rightarrow> (rat option \<times> (fd, socket_data) umap) option" where
  "benchmark_gradual_insert_unordered_map fds elapsed =
     map_option (\<lambda>socket_map. (per_insert elapsed fds, socket_map))
       (load_store umap_store_insert (with_sockets fds) [])"

definition benchmark_gradual_insert_simple_flat_map ::
  "fd list \<Rightarrow> nat \<Rightarrow> (rat option \<times> socket_data entry list) option" where
  "benchmark_gradual_insert_simple_flat_map fds elapsed =
     map_option (\<lambda>socket_map. (per_insert elapsed fds, socket_map))
       (load_store flat_insert (map (\<lambda>(fd, sd). (word_of_int fd, sd)) (with_sockets fds))
         (flat_new SocketData (length fds * 2)))"

lemma sequential_distinct: "distinct (generate_sequential_fds n)"
  by (simp add: generate_sequential_fds_def distinct_map inj_on_def)

text \<open>The four insertion benchmarks build the same container from the descriptors a server
  would see: numbered in a row from 3, however many fit into an \<open>int\<close>, each benchmark ends,
  reports the time divided by their number, and has stored a fresh entry under each of them and
  nothing else.\<close>

theorem insertions_agree:
  assumes "0 < n" "int n + 3 \<le> 2 ^ 31" "fds = generate_sequential_fds n"
  shows "\<exists>v s u es.
    benchmark_gradual_insert_vector fds elapsed = Some (Some (of_nat elapsed / of_nat n), v) \<and>
    benchmark_gradual_insert_sorted_vector fds elapsed = Some (Some (of_nat elapsed / of_nat n), s) \<and>
    benchmark_gradual_insert_unordered_map fds elapsed = Some (Some (of_nat elapsed / of_nat n), u) \<and>
    benchmark_gradual_insert_simple_flat_map fds elapsed = Some (Some (of_nat elapsed / of_nat n), es) \<and>
    (\<forall>k \<in> int_range. (let r = (if 3 \<le> k \<and> k < int n + 3 then Some SocketData else None) in
       vec_find k v = r \<and> fst (sorted_find (sort_key fst) k s) = r \<and> umap_find k u = r \<and>
       flat_find (word_of_int k) es = Some r))"
proof -
  let ?kvs = "with_sockets fds" and ?new = "flat_new SocketData (length fds * 2)"
  let ?wkvs = "map (\<lambda>(fd, sd). (word_of_int fd :: u64, sd)) ?kvs"
  have fds: "distinct fds" "fds \<noteq> []" "length fds = n" "set fds \<subseteq> int_range"
    using assms sequential_distinct [of n] by (auto simp: generate_sequential_fds_def)
  have mem: "k \<in> set fds \<longleftrightarrow> 3 \<le> k \<and> k < int n + 3" for k
    unfolding assms(3) generate_sequential_fds_def
    by (auto simp: image_iff intro!: bexI [of _ "nat (k - 3)"])
  have d: "distinct (map fst ?kvs)" using fds(1) by simp
  obtain v where v: "load_store vec_store_insert ?kvs [] = Some v" "map_of v = map_of ?kvs"
    using vec.load_lookup [of "[]" ?kvs] d by auto
  obtain s where s: "load_store sorted_store_insert ?kvs sorted_empty = Some s" "sorted_inv s"
    "sorted_lookup s = map_of ?kvs"
    using by_key.sorted_store.load_lookup [of sorted_empty ?kvs] d
    by (auto simp: sorted_empty_def sorted_inv_def sorted_lookup_def fun_eq_iff)
  obtain u where u: "load_store umap_store_insert ?kvs [] = Some u" "\<forall>k. umap_find k u = map_of ?kvs k"
    using um.load_lookup [of "[]" ?kvs] d by (auto simp: fun_eq_iff)
  have kvs: "?wkvs = map (\<lambda>fd. (word_of_int fd, SocketData)) fds" by (simp add: with_sockets_def)
  have fsts: "map fst ?wkvs = map word_of_int fds" by (simp add: with_sockets_def comp_def)
  have "inj_on (word_of_int :: int \<Rightarrow> u64) (set fds)"
    using fds(4) by (auto simp: inj_on_def word_of_int_inj subset_iff)
  with fds(1) have dw: "distinct (map fst ?wkvs)" unfolding fsts by (simp add: distinct_map)
  have new: "flat_wf ?new" "flat_fits (length ?wkvs) ?new" "\<And>k. flat_map_of ?new k = None"
    using fds(2) by (simp_all add: flat_wf_new flat_map_of_new) (simp add: flat_fits_def flat_new_def)
  obtain es where es: "load_store flat_insert ?wkvs ?new = Some es" "flat_wf es"
    "\<forall>k. flat_map_of es k = map_of ?wkvs k"
    using flat.load_lookup [OF new(1,2) dw] new(3) by (auto simp: map_add_def split: option.splits)
  have "map_of ?wkvs (word_of_int k) = (if k \<in> set fds then Some SocketData else None)"
    if "k \<in> int_range" for k
  proof -
    have "(word_of_int k :: u64) \<in> word_of_int ` set fds \<longleftrightarrow> k \<in> set fds"
      using that fds(4) word_of_int_inj by blast
    then show ?thesis by (simp add: kvs map_of_map_keys_const)
  qed
  then show ?thesis
    using v s(1,3) u es(1,3) fds(2,3) by_key.sorted_find_lookup(1) [OF s(2)]
      flat_find_map_of [OF flat_wf_nonempty [OF es(2)]]
    by (auto simp: benchmark_gradual_insert_vector_def benchmark_gradual_insert_sorted_vector_def
        benchmark_gradual_insert_unordered_map_def benchmark_gradual_insert_simple_flat_map_def
        per_insert_def vec_find_map_of map_of_with_sockets mem)
qed

lemma insertions_agree_witness:
  "\<exists>v s u es.
    benchmark_gradual_insert_vector [3, 4] 50 = Some (Some 25, v) \<and>
    benchmark_gradual_insert_sorted_vector [3, 4] 50 = Some (Some 25, s) \<and>
    benchmark_gradual_insert_unordered_map [3, 4] 50 = Some (Some 25, u) \<and>
    benchmark_gradual_insert_simple_flat_map [3, 4] 50 = Some (Some 25, es) \<and>
    flat_find 4 es = Some (Some SocketData) \<and> vec_find 4 v = Some SocketData \<and> vec_find 5 v = None"
proof -
  have "[3, 4] = generate_sequential_fds 2"
    by (simp add: generate_sequential_fds_def numeral_2_eq_2)
  from insertions_agree [OF _ _ this, of 50] obtain v s u es where r:
    "benchmark_gradual_insert_vector [3, 4] 50 = Some (Some 25, v)"
    "benchmark_gradual_insert_sorted_vector [3, 4] 50 = Some (Some 25, s)"
    "benchmark_gradual_insert_unordered_map [3, 4] 50 = Some (Some 25, u)"
    "benchmark_gradual_insert_simple_flat_map [3, 4] 50 = Some (Some 25, es)"
    "\<forall>k \<in> int_range. (let r = (if 3 \<le> k \<and> k < int 2 + 3 then Some SocketData else None) in
       vec_find k v = r \<and> fst (sorted_find (sort_key fst) k s) = r \<and> umap_find k u = r \<and>
       flat_find (word_of_int k) es = Some r)"
    by auto
  have "flat_find 4 es = Some (Some SocketData)" "vec_find 4 v = Some SocketData" "vec_find 5 v = None"
    using bspec [OF r(5), of 4] bspec [OF r(5), of 5] by (simp_all add: Let_def)
  with r(1-4) show ?thesis by blast
qed

section \<open>Identifiers\<close>

text \<open>\<open>generate_snowflake_ids\<close>: an exception of the generator leaves it.\<close>

fun generate_ids :: "generator \<Rightarrow> nat \<Rightarrow> u64 list \<Rightarrow> (exn + u64 list) option" where
  "generate_ids g 0 clock = Some (Inr [])"
| "generate_ids g (Suc n) clock =
     (case bench_next_id g clock of
        None \<Rightarrow> None
      | Some (Inl e, _, _) \<Rightarrow> Some (Inl e)
      | Some (Inr i, g, clock) \<Rightarrow>
          (case generate_ids g n clock of
             None \<Rightarrow> None
           | Some (Inl e) \<Rightarrow> Some (Inl e)
           | Some (Inr ids) \<Rightarrow> Some (Inr (i # ids))))"

definition generate_snowflake_ids :: "nat \<Rightarrow> u64 list \<Rightarrow> (exn + u64 list) option" where
  "generate_snowflake_ids n clock = generate_ids new_generator n clock"

lemma generate_ids_issue:
  "generate_ids g n clock = Some (Inr ids) \<Longrightarrow> ids = issue bench_next_id n g clock \<and> length ids = n"
proof (induction n arbitrary: g clock ids)
  case 0
  then show ?case by simp
next
  case (Suc n)
  then show ?case by (auto split: option.splits sum.splits prod.splits)
qed

text \<open>
  A clock that does not go back: a call takes one reading, or waits for the next one that
  differs, so two different readings in reserve are enough for it.
\<close>

lemma wait_reaches:
  assumes "\<exists>now \<in> set clock. get_current_timestamp now \<noteq> t" "sorted (map get_current_timestamp clock)"
    and "list_all (\<lambda>now. t \<le> get_current_timestamp now) clock"
  shows "\<exists>t' rest. wait_while_equal t clock = Some (t', rest) \<and> suffix rest clock \<and>
    list_all (\<lambda>now. t' \<le> get_current_timestamp now) rest \<and>
    card (get_current_timestamp ` set clock) \<le> card (get_current_timestamp ` set rest) + 2"
  using assms
proof (induction clock)
  case Nil
  then show ?case by simp
next
  case (Cons now clock)
  let ?ts = "\<lambda>xs. get_current_timestamp ` set xs"
  show ?case
  proof (cases "get_current_timestamp now = t")
    case False
    have "card (?ts (now # clock)) \<le> card (?ts clock) + 2"
      using card_insert_le_m1 [of "Suc (card (?ts clock))" "?ts clock" "get_current_timestamp now"]
      by (simp add: card_insert_if)
    with False Cons.prems(2) show ?thesis by (auto simp: Let_def list_all_iff intro: suffix_ConsI)
  next
    case True
    have ex: "\<exists>now \<in> set clock. get_current_timestamp now \<noteq> t" using Cons.prems(1) True by auto
    from Cons.IH [OF this] Cons.prems(2,3) obtain t' rest where r:
      "wait_while_equal t clock = Some (t', rest)" "suffix rest clock"
      "list_all (\<lambda>now. t' \<le> get_current_timestamp now) rest" by auto
    have rest: "card (?ts (now # clock)) \<le> card (?ts rest) + 2"
    proof -
      have "\<exists>pre x. clock = pre @ x # rest \<and> ?ts pre \<subseteq> {t} \<and> get_current_timestamp x = t'"
        using r(1)
      proof (induction clock)
        case (Cons y ys)
        show ?case
        proof (cases "get_current_timestamp y = t")
          case True
          with Cons.prems have "wait_while_equal t ys = Some (t', rest)" by simp
          from Cons.IH [OF this] obtain pre x where
            "ys = pre @ x # rest \<and> ?ts pre \<subseteq> {t} \<and> get_current_timestamp x = t'" by blast
          with True show ?thesis by (intro exI [of _ "y # pre"] exI [of _ x]) simp
        next
          case False
          with Cons.prems show ?thesis by (intro exI [of _ "[]"] exI [of _ y]) (simp add: Let_def)
        qed
      qed simp
      then obtain pre x where p: "clock = pre @ x # rest" "?ts pre \<subseteq> {t}" "get_current_timestamp x = t'"
        by blast
      have "?ts (now # clock) \<subseteq> insert t (insert t' (?ts rest))" using p True by auto
      then have "card (?ts (now # clock)) \<le> card (insert t (insert t' (?ts rest)))"
        by (intro card_mono) simp_all
      also have "\<dots> \<le> card (?ts rest) + 2" by (simp add: card_insert_if)
      finally show ?thesis .
    qed
    from r rest True show ?thesis by (auto simp: Let_def intro: suffix_ConsI)
  qed
qed

definition ahead :: "generator \<Rightarrow> nat \<Rightarrow> u64 list \<Rightarrow> bool" where
  "ahead g n clock \<longleftrightarrow> sorted (map get_current_timestamp clock) \<and>
     list_all (\<lambda>now. last_timestamp_ms g \<le> get_current_timestamp now) clock \<and>
     2 * n \<le> card (get_current_timestamp ` set clock)"

lemma next_id_ahead:
  assumes "ahead g (Suc n) clock"
  shows "\<exists>i g' clock'. bench_next_id g clock = Some (Inr i, g', clock') \<and> ahead g' n clock'"
proof -
  let ?ts = "\<lambda>xs. get_current_timestamp ` set xs"
  have two: "2 \<le> card (?ts clock)" using assms by (simp add: ahead_def)
  then obtain now clock1 where clock: "clock = now # clock1" by (cases clock) auto
  let ?t = "get_current_timestamp now"
  have s: "sorted (map get_current_timestamp clock1)" "list_all (\<lambda>now. ?t \<le> get_current_timestamp now) clock1"
    "last_timestamp_ms g \<le> ?t" "list_all (\<lambda>now. last_timestamp_ms g \<le> get_current_timestamp now) clock1"
    using assms by (auto simp: ahead_def clock list_all_iff)
  have card1: "card (?ts clock) \<le> card (?ts clock1) + 1" by (simp add: clock card_insert_if)
  have one: "ahead \<lparr>last_timestamp_ms = ?t, sequence = x\<rparr> n clock1" for x
    using s assms card1 by (simp add: ahead_def)
  show ?thesis
  proof (cases "?t = last_timestamp_ms g \<and> (sequence g + 1) AND 0xFFF = 0")
    case False
    with one s(3) show ?thesis
      by (auto simp: bench_next_id_def clock Let_def)
  next
    case True
    have ex: "\<exists>x \<in> set clock1. get_current_timestamp x \<noteq> last_timestamp_ms g"
    proof (rule ccontr)
      assume "\<not> (\<exists>x \<in> set clock1. get_current_timestamp x \<noteq> last_timestamp_ms g)"
      with True have "?ts clock \<subseteq> {last_timestamp_ms g}" by (auto simp: clock)
      then have "card (?ts clock) \<le> card {last_timestamp_ms g}" by (intro card_mono) simp_all
      with two show False by simp
    qed
    from wait_reaches [OF ex s(1,4)] obtain t' rest where w:
      "wait_while_equal (last_timestamp_ms g) clock1 = Some (t', rest)" "suffix rest clock1"
      "list_all (\<lambda>now. t' \<le> get_current_timestamp now) rest" "card (?ts clock1) \<le> card (?ts rest) + 2"
      by blast
    have t: "card (?ts clock) \<le> card (?ts rest) + 2"
    proof -
      have "wait_while_equal (last_timestamp_ms g) clock = Some (t', rest)"
        using w(1) True by (simp add: clock)
      moreover have "\<exists>x \<in> set clock. get_current_timestamp x \<noteq> last_timestamp_ms g" using ex by (auto simp: clock)
      ultimately show ?thesis
        using wait_reaches [of clock "last_timestamp_ms g"] assms by (auto simp: ahead_def)
    qed
    have "sorted (map get_current_timestamp rest)"
      using w(2) s(1) by (auto simp: suffix_def sorted_append)
    with w(3) t assms have "ahead \<lparr>last_timestamp_ms = t', sequence = 0\<rparr> n rest"
      by (simp add: ahead_def)
    with True w(1) show ?thesis by (simp add: bench_next_id_def clock Let_def)
  qed
qed

lemma generate_ids_returns: "ahead g n clock \<Longrightarrow> \<exists>ids. generate_ids g n clock = Some (Inr ids)"
proof (induction n arbitrary: g clock)
  case 0
  then show ?case by simp
next
  case (Suc n)
  from next_id_ahead [OF Suc.prems] obtain i g' clock' where
    n: "bench_next_id g clock = Some (Inr i, g', clock')" "ahead g' n clock'" by blast
  from Suc.IH [OF n(2)] n(1) show ?case by auto
qed

text \<open>\<open>generate_snowflake_ids\<close> returns as many identifiers as it is asked for, all different and in
  increasing order, when the clock stays in its 41-bit range, does not go back, and moves on: two
  new readings per identifier are enough for every wait to end.\<close>

theorem snowflake_ids_generated:
  assumes "sorted (map get_current_timestamp clock)"
    and "list_all (\<lambda>now. unat (get_current_timestamp now) < 2 ^ 41) clock"
    and "2 * n \<le> card (get_current_timestamp ` set clock)"
  shows "\<exists>ids. generate_snowflake_ids n clock = Some (Inr ids) \<and> length ids = n \<and>
    sorted_wrt (<) ids \<and> distinct ids"
proof -
  have "ahead new_generator n clock"
    using assms(1,3) by (simp add: ahead_def new_generator_def list_all_iff)
  from generate_ids_returns [OF this] obtain ids where ids: "generate_ids new_generator n clock = Some (Inr ids)"
    by blast
  have "sorted_wrt (<) (issue bench_next_id n new_generator clock)"
    using assms(1,2) by (intro bench.issue_increasing)
      (simp_all add: bench_ok_def bench_good_def new_generator_def)
  with generate_ids_issue [OF ids] ids show ?thesis
    by (auto simp: generate_snowflake_ids_def strict_sorted_iff)
qed

lemma snowflake_ids_generated_witness:
  "\<exists>ids. generate_snowflake_ids 2 [1672531200000, 1672531200001, 1672531200001, 1672531200002, 1672531200003] =
      Some (Inr ids) \<and> length ids = 2 \<and> sorted_wrt (<) ids \<and> distinct ids"
  by (rule snowflake_ids_generated)
    (simp_all add: get_current_timestamp_def CUSTOM_EPOCH_def card_insert_if)


section \<open>Lookups\<close>

text \<open>The random engine with its state, the distributions drawn from it, and the shuffle.\<close>

record 'g rng =
  draw64 :: "'g \<Rightarrow> u64 \<times> 'g"               \<comment> \<open>\<open>gen()\<close>\<close>
  draw_below :: "nat \<Rightarrow> 'g \<Rightarrow> nat \<times> 'g"     \<comment> \<open>\<open>uniform_int_distribution<>(0, n - 1)\<close>\<close>
  draw_any :: "'g \<Rightarrow> u64 \<times> 'g"             \<comment> \<open>\<open>uniform_int_distribution<uint64_t>\<close>\<close>
  shuffled :: "u64 list \<Rightarrow> 'g \<Rightarrow> u64 list \<times> 'g"

definition rng_ok :: "'g rng \<Rightarrow> bool" where
  "rng_ok R \<longleftrightarrow> (\<forall>n g. 0 < n \<longrightarrow> fst (draw_below R n g) < n) \<and>
     (\<forall>xs g. mset (fst (shuffled R xs g)) = mset xs)"

fun generate_random_uint64 :: "'g rng \<Rightarrow> nat \<Rightarrow> 'g \<Rightarrow> u64 list" where
  "generate_random_uint64 R 0 g = []"
| "generate_random_uint64 R (Suc n) g =
     (case draw_any R g of (x, g) \<Rightarrow> x # generate_random_uint64 R n g)"

text \<open>The loop of \<open>generate_lookup_vector\<close>: four of five draws, on average, take an existing key.\<close>

fun draw_lookups :: "'g rng \<Rightarrow> u64 list \<Rightarrow> nat \<Rightarrow> 'g \<Rightarrow> fault + u64 list \<times> 'g" where
  "draw_lookups R ids 0 g = Inr ([], g)"
| "draw_lookups R ids (Suc n) g =
     (case draw64 R g of (r, g) \<Rightarrow>
        case (if r mod 100 < 80
              then (case draw_below R (length ids) g of
                      (i, g) \<Rightarrow> if i < length ids then Inr (ids ! i, g) else Inl Out_of_bounds)
              else Inr (draw_any R g)) of
          Inl e \<Rightarrow> Inl e
        | Inr (k, g) \<Rightarrow>
            (case draw_lookups R ids n g of
               Inl e \<Rightarrow> Inl e
             | Inr (ks, g) \<Rightarrow> Inr (k # ks, g)))"

definition generate_lookup_vector :: "'g rng \<Rightarrow> u64 list \<Rightarrow> nat \<Rightarrow> 'g \<Rightarrow> fault + u64 list" where
  "generate_lookup_vector R existing_ids iterations g =
     (if existing_ids = [] then Inr []
      else case draw_lookups R existing_ids iterations g of
        Inl e \<Rightarrow> Inl e
      | Inr (lookup_ids, g) \<Rightarrow> Inr (fst (shuffled R lookup_ids g)))"

lemma length_random [simp]: "length (generate_random_uint64 R n g) = n"
  by (induction n arbitrary: g) (simp_all split: prod.split)

lemma draw_lookups_ok:
  assumes "rng_ok R" "ids \<noteq> []"
  shows "\<exists>ks g'. draw_lookups R ids n g = Inr (ks, g') \<and> length ks = n"
proof (induction n arbitrary: g)
  case 0
  then show ?case by simp
next
  case (Suc n)
  obtain r g1 where r: "draw64 R g = (r, g1)" by fastforce
  obtain i g2 where i: "draw_below R (length ids) g1 = (i, g2)" by fastforce
  have "i < length ids" using assms i by (metis rng_ok_def fst_conv length_greater_0_conv)
  moreover obtain k g3 where "draw_any R g1 = (k, g3)" by fastforce
  ultimately show ?case
    using r i Suc [of g2] Suc [of g3] by (cases "r mod 100 < 80") auto
qed

lemma generate_lookup_vector_ok:
  assumes "rng_ok R" "ids \<noteq> []"
  shows "\<exists>ks. generate_lookup_vector R ids n g = Inr ks \<and> length ks = n"
proof -
  obtain ks g' where d: "draw_lookups R ids n g = Inr (ks, g')" "length ks = n"
    using draw_lookups_ok [OF assms] by blast
  have "mset (fst (shuffled R ks g')) = mset ks" using assms(1) by (simp add: rng_ok_def)
  with d assms(2) show ?thesis
    by (auto simp: generate_lookup_vector_def dest: mset_eq_length)
qed

section \<open>The benchmark over the double buffer\<close>

text \<open>A lookup without writers: the three steps of \<open>find\<close>, then the reader is idle again.\<close>

definition db_lookup :: "u64 \<Rightarrow> double_buffer \<Rightarrow> (socket_data_with_id option \<times> double_buffer) option" where
  "db_lookup k d =
     (let d = reader_step k (reader_step k (reader_step k d))
      in case reader d of
        R_done _ r \<Rightarrow> Some (r, reader_step k d)
      | _ \<Rightarrow> None)"

fun db_lookups :: "u64 list \<Rightarrow> nat \<Rightarrow> nat \<Rightarrow> double_buffer
    \<Rightarrow> (socket_data_with_id option list \<times> double_buffer) option" where
  "db_lookups lookup_ids i 0 d = Some ([], d)"
| "db_lookups lookup_ids i (Suc n) d =
     (case db_lookup (lookup_ids ! (i mod length lookup_ids)) d of
        None \<Rightarrow> None
      | Some (r, d) \<Rightarrow>
          (case db_lookups lookup_ids (Suc i) n d of
             None \<Rightarrow> None
           | Some (rs, d) \<Rightarrow> Some (r # rs, d)))"

text \<open>
  The map is built, copied into the buffer by one update, and looked up; the result carries what
  each lookup found, which the code ignores.
\<close>

definition benchmark_lookup_double_buffer :: "u64 list \<Rightarrow> nat \<Rightarrow> u64 list \<Rightarrow> (nat \<Rightarrow> nat)
    \<Rightarrow> (fault + rat \<times> socket_data_with_id option list) option" where
  "benchmark_lookup_double_buffer ids iterations lookup_ids laps =
     (case load_store umap_emplace_store (with_ids ids) [] of
        None \<Rightarrow> None
      | Some initial_map \<Rightarrow>
          (case db_run (replicate 3 (Update 0 (\<lambda>k. umap_find k initial_map))) (new_double_buffer 1) of
             None \<Rightarrow> None
           | Some db_map \<Rightarrow>
               if 0 < iterations \<and> lookup_ids = [] then Some (Inl Div_by_zero)
               else map_option
                 (\<lambda>(found, _). case median (map laps [0..<iterations]) of
                    Inl e \<Rightarrow> Inl e
                  | Inr t \<Rightarrow> Inr (t, found))
                 (db_lookups lookup_ids 0 iterations db_map)))"

definition quiet_buffer :: "map_type \<Rightarrow> double_buffer \<Rightarrow> bool" where
  "quiet_buffer m d \<longleftrightarrow> reader d = R_idle \<and> buffers d (current_read_buffer d) = Some m"

lemma db_lookup_quiet:
  "quiet_buffer m d \<Longrightarrow> \<exists>d'. db_lookup k d = Some (m k, d') \<and> quiet_buffer m d'"
  by (simp add: quiet_buffer_def db_lookup_def reader_step_def Let_def)

lemma db_lookups_quiet:
  "quiet_buffer m d \<Longrightarrow> \<exists>d'. db_lookups ks i n d =
     Some (map (\<lambda>j. m (ks ! (j mod length ks))) [i..<i + n], d')"
proof (induction n arbitrary: i d)
  case 0
  then show ?case by simp
next
  case (Suc n)
  from db_lookup_quiet [OF Suc.prems, of "ks ! (i mod length ks)"] obtain d1 where
    d1: "db_lookup (ks ! (i mod length ks)) d = Some (m (ks ! (i mod length ks)), d1)" "quiet_buffer m d1"
    by blast
  from Suc.IH [OF d1(2), of "Suc i"] d1(1) show ?case
    by (auto simp: upt_conv_Cons simp del: upt_Suc)
qed

lemma update_fills:
  "\<exists>d. db_run (replicate 3 (Update 0 m)) (new_double_buffer 1) = Some d \<and> quiet_buffer m d"
  by (simp add: numeral_3_eq_3 new_double_buffer_def writer_step_def quiet_buffer_def)

definition id_entry :: "u64 list \<Rightarrow> u64 \<Rightarrow> socket_data_with_id option" where
  "id_entry ids k = (if k \<in> set ids then Some \<lparr>sd_id = k, sd_data1 = 0\<rparr> else None)"


section \<open>The program\<close>

text \<open>
  One row of the table: the lookups are generated and the three benchmarks run over the same
  identifiers. \<open>laps j\<close> are the times of the \<open>j\<close>th benchmark.
\<close>

definition bench_row :: "'g rng \<Rightarrow> u64 list \<Rightarrow> nat \<Rightarrow> 'g \<Rightarrow> (nat \<Rightarrow> nat \<Rightarrow> nat)
    \<Rightarrow> (fault + rat \<times> rat \<times> rat) option" where
  "bench_row R ids iterations seed laps =
     (case generate_lookup_vector R ids iterations seed of
        Inl e \<Rightarrow> Some (Inl e)
      | Inr lookup_ids \<Rightarrow>
          (case benchmark_lookup_uint64_unordered_map ids iterations lookup_ids (laps 0) of
             None \<Rightarrow> None
           | Some (Inl e) \<Rightarrow> Some (Inl e)
           | Some (Inr (lum, _)) \<Rightarrow>
               (case benchmark_lookup_uint64_flat_map ids iterations lookup_ids (laps 1) of
                  None \<Rightarrow> None
                | Some (Inl e) \<Rightarrow> Some (Inl e)
                | Some (Inr (lsfm, _)) \<Rightarrow>
                    (case benchmark_lookup_double_buffer ids iterations lookup_ids (laps 2) of
                       None \<Rightarrow> None
                     | Some (Inl e) \<Rightarrow> Some (Inl e)
                     | Some (Inr (ldb, _)) \<Rightarrow> Some (Inr (lum, lsfm, ldb))))))"

text \<open>
  \<open>main\<close>: for every size a row over Snowflake identifiers and one over random ones. An exception
  of the generator is not caught. What the environment gives for one size is \<open>bench_input\<close>.
\<close>

datatype id_type = Snowflake | Random

record 'g bench_input =
  b_clock :: "u64 list"
  b_seeds :: "'g \<times> 'g \<times> 'g"               \<comment> \<open>\<open>random_device\<close>, at the three places\<close>
  b_laps :: "id_type \<Rightarrow> nat \<Rightarrow> nat \<Rightarrow> nat"

fun bench_rows :: "'g rng \<Rightarrow> nat \<Rightarrow> (nat \<times> 'g bench_input) list
    \<Rightarrow> (failure + (nat \<times> id_type \<times> rat \<times> rat \<times> rat) list) option" where
  "bench_rows R iterations [] = Some (Inr [])"
| "bench_rows R iterations ((sz, inp) # rest) =
     (case b_seeds inp of (seed1, seed2, seed3) \<Rightarrow>
      case generate_snowflake_ids sz (b_clock inp) of
        None \<Rightarrow> None
      | Some (Inl e) \<Rightarrow> Some (Inl (Thrown e))
      | Some (Inr snowflake_ids) \<Rightarrow>
          (case bench_row R snowflake_ids iterations seed1 (b_laps inp Snowflake) of
             None \<Rightarrow> None
           | Some (Inl e) \<Rightarrow> Some (Inl (Undefined e))
           | Some (Inr sf) \<Rightarrow>
               (case bench_row R (generate_random_uint64 R sz seed2) iterations seed3 (b_laps inp Random) of
                  None \<Rightarrow> None
                | Some (Inl e) \<Rightarrow> Some (Inl (Undefined e))
                | Some (Inr rd) \<Rightarrow>
                    map_option (map_sum id (\<lambda>rows. (sz, Snowflake, sf) # (sz, Random, rd) # rows))
                      (bench_rows R iterations rest))))"

definition bench_main :: "'g rng \<Rightarrow> 'g bench_input list
    \<Rightarrow> (failure + (nat \<times> id_type \<times> rat \<times> rat \<times> rat) list) option" where
  "bench_main R inputs = bench_rows R 1000000 (zip [500, 1000, 5000, 10000, 100000] inputs)"

text \<open>\<open>generate_random_fds\<close>: numbers from 100 to a million; they may repeat.\<close>

fun generate_random_fds :: "'g rng \<Rightarrow> nat \<Rightarrow> 'g \<Rightarrow> fd list" where
  "generate_random_fds R 0 g = []"
| "generate_random_fds R (Suc n) g =
     (case draw_below R 999901 g of (i, g) \<Rightarrow> (100 + int i) # generate_random_fds R n g)"

lemma random_fds_range:
  "rng_ok R \<Longrightarrow> length (generate_random_fds R n g) = n \<and> set (generate_random_fds R n g) \<subseteq> {100..1000000}"
proof (induction n arbitrary: g)
  case 0
  then show ?case by simp
next
  case (Suc n)
  obtain i g' where d: "draw_below R 999901 g = (i, g')" by fastforce
  have "fst (draw_below R 999901 g) < 999901" using Suc.prems unfolding rng_ok_def by simp
  with d have "i < 999901" by simp
  with d Suc show ?case by simp
qed

lemma benchmark_defined:
  assumes "ids \<noteq> []" "ks \<noteq> []" "0 < n"
  shows "\<exists>t0 t1 t2 u es. median (map (laps 0) [0..<n]) = Inr t0 \<and> median (map (laps 1) [0..<n]) = Inr t1 \<and>
    median (map (laps 2) [0..<n]) = Inr t2 \<and>
    benchmark_lookup_uint64_unordered_map ids n ks (laps 0) = Some (Inr (t0, u)) \<and>
    benchmark_lookup_uint64_flat_map ids n ks (laps 1) = Some (Inr (t1, es)) \<and>
    benchmark_lookup_double_buffer ids n ks (laps 2) =
      Some (Inr (t2, map (\<lambda>j. id_entry ids (ks ! (j mod length ks))) [0..<n])) \<and>
    (\<forall>k. flat_find k es = Some (umap_find k u) \<and> umap_find k u = (if k \<in> set ids
      then Some \<lparr>sd_id = k, sd_data1 = int (hits ks 0 n k)\<rparr> else None))"
proof -
  let ?f = "\<lambda>i :: u64. \<lparr>sd_id = i, sd_data1 = 0\<rparr>"
  let ?new = "flat_new \<lparr>sd_id = 0, sd_data1 = 0\<rparr> (length ids * 2)"
  obtain t0 u where u: "median (map (laps 0) [0..<n]) = Inr t0"
    "benchmark_lookup_uint64_unordered_map ids n ks (laps 0) = Some (Inr (t0, u))"
    "\<forall>k. umap_find k u = (if k \<in> set ids then Some \<lparr>sd_id = k, sd_data1 = int (hits ks 0 n k)\<rparr> else None)"
    using emplace_again.benchmark_repeated [where m = "[]" and ks = ids and iterations = n and lookup_ids = ks
        and laps = "laps 0" and f = ?f and bump = bump_with_id] assms
    by (auto simp: benchmark_lookup_uint64_unordered_map_def with_ids_def bump_with_id_counts)
  have new: "flat_wf ?new" "flat_fits (length ids) ?new" "\<And>k. flat_map_of ?new k = None"
    using assms(1) by (simp_all add: flat_wf_new flat_map_of_new) (simp add: flat_fits_def flat_new_def)
  obtain t1 es where es: "median (map (laps 1) [0..<n]) = Inr t1"
    "benchmark_lookup_uint64_flat_map ids n ks (laps 1) = Some (Inr (t1, es))" "flat_wf es"
    "\<forall>k. flat_map_of es k = (if k \<in> set ids then Some \<lparr>sd_id = k, sd_data1 = int (hits ks 0 n k)\<rparr> else None)"
    using flat_again.benchmark_repeated [OF new assms(3,2), where laps = "laps 1" and f = ?f and bump = bump_with_id]
    by (auto simp: benchmark_lookup_uint64_flat_map_def with_ids_def bump_with_id_counts)
  obtain m where m: "load_store umap_emplace_store (with_ids ids) [] = Some m"
    "\<forall>k. umap_find k m = id_entry ids k"
    using emplace_again.load_repeated [where m = "[]" and ks = ids and f = ?f] by (auto simp: with_ids_def id_entry_def)
  then have mf: "(\<lambda>k. umap_find k m) = id_entry ids" by auto
  obtain d where d: "db_run (replicate 3 (Update 0 (id_entry ids))) (new_double_buffer 1) = Some d"
    "quiet_buffer (id_entry ids) d" using update_fills by blast
  obtain d' where d': "db_lookups ks 0 n d = Some (map (\<lambda>j. id_entry ids (ks ! (j mod length ks))) [0..<n], d')"
    using db_lookups_quiet [OF d(2), of ks 0 n] by auto
  obtain t2 where t2: "median (map (laps 2) [0..<n]) = Inr t2"
    using median_defined [of "map (laps 2) [0..<n]"] assms(3) by auto
  have db: "benchmark_lookup_double_buffer ids n ks (laps 2) =
      Some (Inr (t2, map (\<lambda>j. id_entry ids (ks ! (j mod length ks))) [0..<n]))"
    using m(1) d(1) d' t2 assms(2) by (simp add: benchmark_lookup_double_buffer_def mf)
  show ?thesis
    using u es t2 db flat_find_map_of [OF flat_wf_nonempty [OF es(3)]] by auto
qed

text \<open>C26: A row of the benchmark is what it claims to compare: over any identifiers, random ones that
  repeat included, as many keys are generated as there are iterations, all three benchmarks end,
  the numbers printed are the medians of their own times, and the lookups mean the same in all
  three: the two counting containers end with the same counter under every key, the number of
  its lookups, and the double buffer found exactly the keys that are stored.\<close>

theorem bench_row_agrees:
  assumes "rng_ok R" "ids \<noteq> []" "0 < iterations"
  shows "\<exists>ks t0 t1 t2 u es. generate_lookup_vector R ids iterations seed = Inr ks \<and> length ks = iterations \<and>
    bench_row R ids iterations seed laps = Some (Inr (t0, t1, t2)) \<and>
    median (map (laps 0) [0..<iterations]) = Inr t0 \<and> median (map (laps 1) [0..<iterations]) = Inr t1 \<and>
    median (map (laps 2) [0..<iterations]) = Inr t2 \<and>
    benchmark_lookup_uint64_unordered_map ids iterations ks (laps 0) = Some (Inr (t0, u)) \<and>
    benchmark_lookup_uint64_flat_map ids iterations ks (laps 1) = Some (Inr (t1, es)) \<and>
    (\<forall>k. flat_find k es = Some (umap_find k u) \<and> umap_find k u = (if k \<in> set ids
      then Some \<lparr>sd_id = k, sd_data1 = int (hits ks 0 iterations k)\<rparr> else None)) \<and>
    benchmark_lookup_double_buffer ids iterations ks (laps 2) = Some (Inr (t2, map (id_entry ids) ks))"
proof -
  obtain ks where ks: "generate_lookup_vector R ids iterations seed = Inr ks" "length ks = iterations"
    using generate_lookup_vector_ok [OF assms(1,2)] by blast
  have ne: "ks \<noteq> []" using ks(2) assms(3) by auto
  have found: "map (\<lambda>j. id_entry ids (ks ! (j mod length ks))) [0..<iterations] = map (id_entry ids) ks"
    using ks(2) by (intro nth_equalityI) simp_all
  obtain t0 t1 t2 u es where r: "median (map (laps 0) [0..<iterations]) = Inr t0"
    "median (map (laps 1) [0..<iterations]) = Inr t1" "median (map (laps 2) [0..<iterations]) = Inr t2"
    "benchmark_lookup_uint64_unordered_map ids iterations ks (laps 0) = Some (Inr (t0, u))"
    "benchmark_lookup_uint64_flat_map ids iterations ks (laps 1) = Some (Inr (t1, es))"
    "benchmark_lookup_double_buffer ids iterations ks (laps 2) = Some (Inr (t2, map (id_entry ids) ks))"
    "\<forall>k. flat_find k es = Some (umap_find k u) \<and> umap_find k u = (if k \<in> set ids
      then Some \<lparr>sd_id = k, sd_data1 = int (hits ks 0 iterations k)\<rparr> else None)"
    using benchmark_defined [OF assms(2) ne assms(3), of laps] unfolding found by blast
  have "bench_row R ids iterations seed laps = Some (Inr (t0, t1, t2))"
    using ks(1) r(4-6) by (simp add: bench_row_def)
  with ks r show ?thesis by blast
qed

lemma bench_row_returns:
  assumes "rng_ok R" "ids \<noteq> []" "0 < iterations"
  shows "\<exists>row. bench_row R ids iterations seed laps = Some (Inr row)"
proof -
  obtain ks where ks: "generate_lookup_vector R ids iterations seed = Inr ks" "length ks = iterations"
    using generate_lookup_vector_ok [OF assms(1,2)] by blast
  with assms(3) have "ks \<noteq> []" by auto
  from benchmark_defined [OF assms(2) this assms(3), of laps] ks(1) show ?thesis
    by (auto simp: bench_row_def)
qed

text \<open>C27: The benchmark program runs to its end: with a random engine that keeps its ranges and, for
  every size, a clock that moves on, no exception, no division by zero and no access outside a
  vector occurs, and two rows are printed for each size, in order.\<close>

theorem bench_rows_complete:
  assumes "rng_ok R" "0 < iterations"
    and "list_all (\<lambda>(sz, inp). 0 < sz \<and> sorted (map get_current_timestamp (b_clock inp)) \<and>
      2 * sz \<le> card (get_current_timestamp ` set (b_clock inp))) inputs"
  shows "\<exists>rows. bench_rows R iterations inputs = Some (Inr rows) \<and>
    map (\<lambda>(sz, t, _). (sz, t)) rows = concat (map (\<lambda>(sz, inp). [(sz, Snowflake), (sz, Random)]) inputs)"
  using assms(3)
proof (induction inputs)
  case Nil
  then show ?case by simp
next
  case (Cons x rest)
  obtain sz inp where x: "x = (sz, inp)" by (cases x)
  obtain seed1 seed2 seed3 where s: "b_seeds inp = (seed1, seed2, seed3)" by (cases "b_seeds inp")
  have sz: "0 < sz" and "ahead new_generator sz (b_clock inp)"
    using Cons.prems by (simp_all add: x ahead_def new_generator_def list_all_iff)
  then obtain ids where ids: "generate_snowflake_ids sz (b_clock inp) = Some (Inr ids)" "length ids = sz"
    using generate_ids_returns generate_ids_issue unfolding generate_snowflake_ids_def by metis
  from ids(2) sz have "ids \<noteq> []" by auto
  from bench_row_returns [OF assms(1) this assms(2)] obtain r1 where
    r1: "bench_row R ids iterations seed1 (b_laps inp Snowflake) = Some (Inr r1)" by blast
  have "generate_random_uint64 R sz seed2 \<noteq> []" using sz by (metis length_random list.size(3) not_gr_zero)
  from bench_row_returns [OF assms(1) this assms(2)] obtain r2 where
    r2: "bench_row R (generate_random_uint64 R sz seed2) iterations seed3 (b_laps inp Random) = Some (Inr r2)"
    by blast
  obtain rows where "bench_rows R iterations rest = Some (Inr rows)"
    "map (\<lambda>(sz, t, _). (sz, t)) rows = concat (map (\<lambda>(sz, inp). [(sz, Snowflake), (sz, Random)]) rest)"
    using Cons by (auto simp: x)
  with s ids(1) r1 r2 show ?case by (simp add: x)
qed

text \<open>A counter as a random engine, for the witnesses.\<close>

definition demo_rng :: "nat rng" where
  "demo_rng = \<lparr>draw64 = (\<lambda>g. (of_nat (g * 30), g + 1)), draw_below = (\<lambda>n g. (g mod n, g + 1)),
     draw_any = (\<lambda>g. (of_nat (g * g), g + 1)), shuffled = (\<lambda>xs g. (rev xs, g))\<rparr>"

lemma demo_rng_ok: "rng_ok demo_rng"
  by (simp add: rng_ok_def demo_rng_def)

lemma bench_row_agrees_witness:
  "\<exists>ks t0 t1 t2 u es. generate_lookup_vector demo_rng [7, 7, 9] 4 1 = Inr ks \<and> length ks = 4 \<and>
    bench_row demo_rng [7, 7, 9] 4 1 (\<lambda>j i. i) = Some (Inr (t0, t1, t2)) \<and>
    flat_find 7 es = Some (umap_find 7 u) \<and>
    benchmark_lookup_uint64_unordered_map [7, 7, 9] 4 ks (\<lambda>i. i) = Some (Inr (t0, u)) \<and>
    benchmark_lookup_uint64_flat_map [7, 7, 9] 4 ks (\<lambda>i. i) = Some (Inr (t1, es))"
  using bench_row_agrees [OF demo_rng_ok, of "[7, 7, 9]" 4 1 "\<lambda>j i. i"] by auto

definition demo_input :: "nat bench_input" where
  "demo_input = \<lparr>b_clock = [1672531200000, 1672531200001, 1672531200001, 1672531200002, 1672531200003],
     b_seeds = (1, 2, 3), b_laps = (\<lambda>t j i. i)\<rparr>"

lemma bench_rows_complete_witness:
  "\<exists>rows. bench_rows demo_rng 4 [(2, demo_input)] = Some (Inr rows) \<and>
    map (\<lambda>(sz, t, _). (sz, t)) rows = [(2, Snowflake), (2, Random)]"
  using bench_rows_complete [OF demo_rng_ok, of 4 "[(2, demo_input)]"]
  by (simp add: demo_input_def get_current_timestamp_def CUSTOM_EPOCH_def card_insert_if)

end
