(* ===== verification/PipeExperiment.thy ===== *)
theory PipeExperiment
  imports Programs
begin

text \<open>
  The experiment of \<open>test_write/main.cpp\<close> as two processes and a pipe: the parent writes a message
  to its standard output, which is the pipe, and the child reads it two bytes at a time. The
  kernel moves the bytes of a blocking \<open>write\<close> in pieces as the pipe has room; a signal ends the
  call early. After every call the parent prints a progress line, which goes the same way. Shown
  are what the child receives, that nobody is ever stuck, and that both end.
\<close>


section \<open>State and steps\<close>

text \<open>
  \<open>Writing m\<close>: in the call of \<open>write\<close>, of which \<open>m\<close> bytes have been moved. \<open>Printing rest n\<close>: the
  call has returned \<open>n\<close>, the rest of the line goes out.
\<close>

datatype parent_pc =
    Writing nat
  | Printing "u8 list" int
  | At_close
  | Waiting_child
  | Parent_done

datatype child_pc = Child_reading | Child_closing | Child_exited

record pipe_test =
  msg :: "u8 list"
  written :: nat
  results :: "int list"       \<comment> \<open>what \<open>write\<close> returned so far; \<open>count\<close> is one more than their number\<close>
  parent :: parent_pc
  child :: child_pc
  pipe :: "u8 list"
  w_end_open :: bool
  received :: "u8 list"

definition progress_line :: "nat \<Rightarrow> int \<Rightarrow> u8 list" where
  "progress_line c n = map of_char (to_string c @ '' write '' @ show_int n @ ''\<newline>'')"

text \<open>\<open>while (written < len)\<close>\<close>

definition loop_test :: "u8 list \<Rightarrow> nat \<Rightarrow> parent_pc" where
  "loop_test buf w = (if w < length buf then Writing 0 else At_close)"

definition start_pipe :: "u8 list \<Rightarrow> pipe_test" where
  "start_pipe m =
     \<lparr>msg = m, written = 0, results = [], parent = loop_test m 0, child = Child_reading, pipe = [],
      w_end_open = True, received = []\<rparr>"

text \<open>The call of \<open>write\<close> returns \<open>n\<close>; the line is put together.\<close>

definition write_returns :: "int \<Rightarrow> pipe_test \<Rightarrow> pipe_test" where
  "write_returns n e =
     e\<lparr>results := results e @ [n], parent := Printing (progress_line (length (results e) + 1) n) n\<rparr>"

datatype pipe_move =
    Move nat      \<comment> \<open>the kernel moves this many bytes of the parent's call into the pipe\<close>
  | Interrupt     \<comment> \<open>a signal reaches the parent in \<open>write\<close>\<close>
  | Parent_step
  | Child_step

definition move_bytes :: "nat \<Rightarrow> nat \<Rightarrow> pipe_test \<Rightarrow> pipe_test option" where
  "move_bytes cap k e =
     (if k = 0 \<or> cap < length (pipe e) + k then None
      else case parent e of
        Writing m \<Rightarrow>
          if length (msg e) < written e + m + k then None
          else let e = e\<lparr>pipe := pipe e @ take k (drop (written e + m) (msg e))\<rparr>
            in if written e + m + k = length (msg e) then Some (write_returns (int (m + k)) e)
               else Some (e\<lparr>parent := Writing (m + k)\<rparr>)
      | Printing rest n \<Rightarrow>
          if length rest < k then None
          else Some (e\<lparr>pipe := pipe e @ take k rest, parent := Printing (drop k rest) n\<rparr>)
      | _ \<Rightarrow> None)"

definition interrupt :: "pipe_test \<Rightarrow> pipe_test option" where
  "interrupt e =
     (case parent e of
        Writing m \<Rightarrow> Some (write_returns (if m = 0 then -1 else int m) e)
      | _ \<Rightarrow> None)"

definition parent_step :: "pipe_test \<Rightarrow> pipe_test option" where
  "parent_step e =
     (case parent e of
        Printing [] n \<Rightarrow>
          let w = (if n = -1 then written e else written e + nat n)
          in Some (e\<lparr>written := w, parent := loop_test (msg e) w\<rparr>)
      | At_close \<Rightarrow> Some (e\<lparr>w_end_open := False, parent := Waiting_child\<rparr>)
      | Waiting_child \<Rightarrow> if child e = Child_exited then Some (e\<lparr>parent := Parent_done\<rparr>) else None
      | _ \<Rightarrow> None)"

definition child_step :: "pipe_test \<Rightarrow> pipe_test option" where
  "child_step e =
     (case child e of
        Child_reading \<Rightarrow>
          if pipe e \<noteq> [] then Some (e\<lparr>received := received e @ take 2 (pipe e), pipe := drop 2 (pipe e)\<rparr>)
          else if w_end_open e then None
          else Some (e\<lparr>child := Child_closing\<rparr>)
      | Child_closing \<Rightarrow> Some (e\<lparr>child := Child_exited\<rparr>)
      | Child_exited \<Rightarrow> None)"

fun pipe_step :: "nat \<Rightarrow> pipe_move \<Rightarrow> pipe_test \<Rightarrow> pipe_test option" where
  "pipe_step cap (Move k) e = move_bytes cap k e"
| "pipe_step cap Interrupt e = interrupt e"
| "pipe_step cap Parent_step e = parent_step e"
| "pipe_step cap Child_step e = child_step e"

fun pipe_run :: "nat \<Rightarrow> pipe_move list \<Rightarrow> pipe_test \<Rightarrow> pipe_test option" where
  "pipe_run cap [] e = Some e"
| "pipe_run cap (a # as) e = Option.bind (pipe_step cap a e) (pipe_run cap as)"


section \<open>What goes through the pipe\<close>

text \<open>The part of the message a call wrote, and all that goes out for a sequence of results.\<close>

definition advance :: "nat \<Rightarrow> int \<Rightarrow> nat" where
  "advance w n = (if n = -1 then w else w + nat n)"

lemma advance_simps [simp]:
  "advance w (-1) = w" "n \<noteq> -1 \<Longrightarrow> advance w n = w + nat n" "advance w (int k) = w + k"
  by (simp_all add: advance_def)

fun stream_of :: "u8 list \<Rightarrow> nat \<Rightarrow> nat \<Rightarrow> int list \<Rightarrow> u8 list" where
  "stream_of m w c [] = []"
| "stream_of m w c (n # ns) =
     (if n = -1 then [] else take (nat n) (drop w m)) @ progress_line c n @ stream_of m (advance w n) (c + 1) ns"

lemma stream_of_snoc:
  "stream_of m w c (ns @ [n]) = stream_of m w c ns @
     (if n = -1 then [] else take (nat n) (drop (foldl advance w ns) m)) @ progress_line (c + length ns) n"
  by (induction ns arbitrary: w c) simp_all

text \<open>
  The invariant: what the child has and what is in the pipe is what has gone out so far; the
  results account for \<open>written\<close>.
\<close>

definition pipe_ok :: "pipe_test \<Rightarrow> bool" where
  "pipe_ok e \<longleftrightarrow>
     (\<forall>n \<in> set (results e). n = -1 \<or> 0 < n) \<and>
     (child e \<noteq> Child_reading \<longrightarrow> pipe e = [] \<and> \<not> w_end_open e) \<and>
     (case parent e of
        Writing m \<Rightarrow>
          foldl advance 0 (results e) = written e \<and> written e + m < length (msg e) \<and> w_end_open e \<and>
          received e @ pipe e = stream_of (msg e) 0 1 (results e) @ take m (drop (written e) (msg e))
      | Printing rest n \<Rightarrow>
          (\<exists>ns. results e = ns @ [n] \<and> foldl advance 0 ns = written e) \<and>
          foldl advance 0 (results e) \<le> length (msg e) \<and> w_end_open e \<and>
          received e @ pipe e @ rest = stream_of (msg e) 0 1 (results e)
      | At_close \<Rightarrow>
          foldl advance 0 (results e) = length (msg e) \<and> w_end_open e \<and>
          received e @ pipe e = stream_of (msg e) 0 1 (results e)
      | Waiting_child \<Rightarrow>
          foldl advance 0 (results e) = length (msg e) \<and> \<not> w_end_open e \<and>
          received e @ pipe e = stream_of (msg e) 0 1 (results e)
      | Parent_done \<Rightarrow>
          foldl advance 0 (results e) = length (msg e) \<and> child e = Child_exited \<and>
          received e @ pipe e = stream_of (msg e) 0 1 (results e))"

lemma pipe_ok_start: "pipe_ok (start_pipe m)"
  by (simp add: pipe_ok_def start_pipe_def loop_test_def)

lemma take_more: "take m (drop w xs) @ take k (drop (w + m) xs) = take (m + k) (drop w xs)"
proof -
  have "drop m (drop w xs) = drop (w + m) xs" by (simp add: add.commute)
  then show ?thesis using take_add [of m k "drop w xs"] by simp
qed

lemma pipe_ok_returns:
  assumes "parent e = Writing m" "foldl advance 0 (results e) = written e" "w_end_open e"
    and "\<forall>n \<in> set (results e). n = -1 \<or> 0 < n" "child e = Child_reading"
    and "received e @ pipe e = stream_of (msg e) 0 1 (results e) @ take j (drop (written e) (msg e))"
    and "written e + j \<le> length (msg e)" "n = (if j = 0 then -1 else int j)"
  shows "pipe_ok (write_returns n e)"
  using assms
  by (auto simp: pipe_ok_def write_returns_def stream_of_snoc)

lemma pipe_ok_move:
  assumes ok: "pipe_ok e" and step: "move_bytes cap k e = Some e'"
  shows "pipe_ok e'"
proof (cases "parent e")
  case (Writing m)
  have k: "0 < k" "written e + m + k \<le> length (msg e)"
    using step Writing by (auto simp: move_bytes_def split: if_splits)
  let ?e = "e\<lparr>pipe := pipe e @ take k (drop (written e + m) (msg e))\<rparr>"
  have inv: "foldl advance 0 (results e) = written e" "w_end_open e" "child e = Child_reading"
    "\<forall>n \<in> set (results e). n = -1 \<or> 0 < n"
    "received e @ pipe e = stream_of (msg e) 0 1 (results e) @ take m (drop (written e) (msg e))"
    using ok Writing by (auto simp: pipe_ok_def)
  have str: "received ?e @ pipe ?e = stream_of (msg e) 0 1 (results e) @ take (m + k) (drop (written e) (msg e))"
    using inv(5) by (simp add: take_more [symmetric])
  show ?thesis
  proof (cases "written e + m + k = length (msg e)")
    case True
    then have "e' = write_returns (int (m + k)) ?e" using step Writing k by (auto simp: move_bytes_def Let_def split: if_splits)
    moreover have "pipe_ok (write_returns (int (m + k)) ?e)"
      using inv str k Writing by (intro pipe_ok_returns [where m = m and j = "m + k"]) simp_all
    ultimately show ?thesis by simp
  next
    case False
    then have "e' = ?e\<lparr>parent := Writing (m + k)\<rparr>" using step Writing k by (auto simp: move_bytes_def Let_def split: if_splits)
    with inv str k False show ?thesis by (simp add: pipe_ok_def)
  qed
next
  case (Printing rest n)
  then have e': "e' = e\<lparr>pipe := pipe e @ take k rest, parent := Printing (drop k rest) n\<rparr>"
    using step by (auto simp: move_bytes_def split: if_splits)
  have "take k rest @ drop k rest = rest" by simp
  with ok Printing e' show ?thesis by (auto simp: pipe_ok_def)
qed (use step in \<open>auto simp: move_bytes_def split: if_splits\<close>)

lemma pipe_ok_interrupt:
  assumes ok: "pipe_ok e" and step: "interrupt e = Some e'"
  shows "pipe_ok e'"
proof (cases "parent e")
  case (Writing m)
  have "pipe_ok (write_returns (if m = 0 then -1 else int m) e)"
    using ok Writing by (intro pipe_ok_returns [where m = m and j = m]) (auto simp: pipe_ok_def)
  with step Writing show ?thesis by (simp add: interrupt_def)
qed (use step in \<open>auto simp: interrupt_def\<close>)

lemma pipe_ok_parent:
  assumes ok: "pipe_ok e" and step: "parent_step e = Some e'"
  shows "pipe_ok e'"
proof (cases "parent e")
  case (Printing rest n)
  with step have rest: "rest = []"
    and e': "e' = e\<lparr>written := advance (written e) n, parent := loop_test (msg e) (advance (written e) n)\<rparr>"
    by (auto simp: parent_step_def Let_def advance_def split: list.splits)
  have "foldl advance 0 (results e) = advance (written e) n" using ok Printing by (auto simp: pipe_ok_def)
  with ok Printing rest e' show ?thesis by (auto simp: pipe_ok_def loop_test_def simp del: advance_simps)
next
  case At_close
  with ok step show ?thesis by (auto simp: parent_step_def pipe_ok_def)
next
  case Waiting_child
  with ok step show ?thesis by (auto simp: parent_step_def pipe_ok_def split: if_splits)
qed (use step in \<open>auto simp: parent_step_def\<close>)

lemma pipe_ok_child:
  assumes ok: "pipe_ok e" and step: "child_step e = Some e'"
  shows "pipe_ok e'"
proof (cases "child e")
  case Child_reading
  show ?thesis
  proof (cases "pipe e = []")
    case True
    with Child_reading step ok show ?thesis
      by (cases "parent e") (auto simp: child_step_def pipe_ok_def split: if_splits)
  next
    case False
    with Child_reading step have e': "e' = e\<lparr>received := received e @ take 2 (pipe e), pipe := drop 2 (pipe e)\<rparr>"
      by (simp add: child_step_def)
    have two: "take 2 (pipe e) @ drop 2 (pipe e) @ xs = pipe e @ xs" for xs by (simp flip: append_assoc)
    from ok Child_reading e' show ?thesis by (cases "parent e") (auto simp: pipe_ok_def two)
  qed
next
  case Child_closing
  with ok step show ?thesis by (cases "parent e") (auto simp: child_step_def pipe_ok_def)
qed (use step in \<open>auto simp: child_step_def\<close>)

lemma pipe_ok_step: "pipe_ok e \<Longrightarrow> pipe_step cap a e = Some e' \<Longrightarrow> pipe_ok e'"
  by (cases a) (auto intro: pipe_ok_move pipe_ok_interrupt pipe_ok_parent pipe_ok_child)

lemma pipe_run_invariant:
  assumes "pipe_run cap as e = Some e'" "P e" "\<And>a e e'. a \<in> set as \<Longrightarrow> P e \<Longrightarrow> pipe_step cap a e = Some e' \<Longrightarrow> P e'"
  shows "P e'"
  using assms
proof (induction as arbitrary: e)
  case Nil
  then show ?case by simp
next
  case (Cons a as)
  from Cons.prems(1) obtain e1 where e1: "pipe_step cap a e = Some e1" "pipe_run cap as e1 = Some e'"
    by (auto simp del: pipe_step.simps simp: bind_eq_Some_conv)
  have "P e1" using Cons.prems(2,3) e1(1) by (metis list.set_intros(1))
  with Cons.IH [OF e1(2)] Cons.prems(3) show ?case by (metis list.set_intros(2))
qed

section \<open>Progress\<close>

text \<open>The bytes that still go out if no signal comes, and the steps that are left.\<close>

definition to_send :: "pipe_test \<Rightarrow> nat" where
  "to_send e =
     (case parent e of
        Writing m \<Rightarrow>
          length (msg e) - written e - m +
          length (progress_line (length (results e) + 1) (int (length (msg e) - written e)))
      | Printing rest n \<Rightarrow>
          (let w = advance (written e) n
           in length rest +
              (if w < length (msg e)
               then length (msg e) - w + length (progress_line (length (results e) + 1) (int (length (msg e) - w)))
               else 0))
      | _ \<Rightarrow> 0)"

definition parent_left :: "pipe_test \<Rightarrow> nat" where
  "parent_left e =
     (case parent e of
        Writing m \<Rightarrow> 4
      | Printing rest n \<Rightarrow> (if advance (written e) n < length (msg e) then 5 else 3)
      | At_close \<Rightarrow> 2 | Waiting_child \<Rightarrow> 1 | Parent_done \<Rightarrow> 0)"

fun child_left :: "child_pc \<Rightarrow> nat" where
  "child_left Child_reading = 2"
| "child_left Child_closing = 1"
| "child_left Child_exited = 0"

definition pipe_work :: "pipe_test \<Rightarrow> nat" where
  "pipe_work e = 2 * to_send e + length (pipe e) + parent_left e + child_left (child e)"

lemma move_decreases:
  assumes "pipe_ok e" "move_bytes cap k e = Some e'"
  shows "pipe_work e' < pipe_work e"
proof (cases "parent e")
  case (Writing m)
  have k: "0 < k" "written e + m + k \<le> length (msg e)"
    using assms(2) Writing by (auto simp: move_bytes_def split: if_splits)
  show ?thesis
  proof (cases "written e + m + k = length (msg e)")
    case True
    then have n: "length (msg e) - written e = m + k" "advance (written e) (int (m + k)) = length (msg e)" by simp_all
    have "e' = write_returns (int (m + k)) (e\<lparr>pipe := pipe e @ take k (drop (written e + m) (msg e))\<rparr>)"
      using assms(2) Writing True k by (auto simp: move_bytes_def Let_def split: if_splits)
    then have "to_send e' = length (progress_line (length (results e) + 1) (int (m + k)))"
      "length (pipe e') = length (pipe e) + k" "parent_left e' = 3" "child e' = child e"
      using True n(2) by (simp_all add: to_send_def write_returns_def parent_left_def Let_def del: advance_simps)
    moreover have "to_send e = k + length (progress_line (length (results e) + 1) (int (m + k)))"
      using Writing n(1) by (simp add: to_send_def)
    ultimately show ?thesis using Writing k by (simp add: pipe_work_def parent_left_def)
  next
    case False
    then have "e' = e\<lparr>pipe := pipe e @ take k (drop (written e + m) (msg e)), parent := Writing (m + k)\<rparr>"
      using assms(2) Writing k by (auto simp: move_bytes_def Let_def split: if_splits)
    with Writing k show ?thesis by (simp add: pipe_work_def to_send_def parent_left_def)
  qed
next
  case (Printing rest n)
  with assms(2) have "0 < k" "k \<le> length rest"
    "e' = e\<lparr>pipe := pipe e @ take k rest, parent := Printing (drop k rest) n\<rparr>"
    by (auto simp: move_bytes_def split: if_splits)
  then have "to_send e' = to_send e - k" "k \<le> to_send e" "0 < k" "length (pipe e') = length (pipe e) + k"
    "parent_left e' = parent_left e" "child e' = child e"
    using Printing by (simp_all add: to_send_def parent_left_def Let_def del: advance_simps)
  then show ?thesis by (simp add: pipe_work_def)
qed (use assms in \<open>auto simp: move_bytes_def split: if_splits\<close>)

lemma parent_decreases:
  assumes "parent_step e = Some e'"
  shows "pipe_work e' < pipe_work e"
proof (cases "parent e")
  case (Printing rest n)
  with assms have "rest = []"
    "e' = e\<lparr>written := advance (written e) n, parent := loop_test (msg e) (advance (written e) n)\<rparr>"
    by (auto simp: parent_step_def Let_def advance_def split: list.splits)
  with Printing show ?thesis
    by (simp add: pipe_work_def to_send_def parent_left_def loop_test_def Let_def del: advance_simps)
next
  case At_close
  with assms show ?thesis by (auto simp: parent_step_def pipe_work_def to_send_def parent_left_def)
next
  case Waiting_child
  with assms show ?thesis
    by (auto simp: parent_step_def pipe_work_def to_send_def parent_left_def split: if_splits)
qed (use assms in \<open>auto simp: parent_step_def\<close>)

lemma child_decreases:
  assumes "child_step e = Some e'"
  shows "pipe_work e' < pipe_work e"
proof -
  have same: "to_send e' = to_send e" "parent_left e' = parent_left e"
    using assms
    by (auto simp: child_step_def to_send_def parent_left_def Let_def split: child_pc.splits if_splits parent_pc.splits)
  have less: "length (pipe e') + child_left (child e') < length (pipe e) + child_left (child e)"
    using assms by (auto simp: child_step_def neq_Nil_conv split: child_pc.splits if_splits)
  from same less show ?thesis by (simp add: pipe_work_def)
qed

lemma pipe_step_decreases:
  "pipe_ok e \<Longrightarrow> pipe_step cap a e = Some e' \<Longrightarrow> a \<noteq> Interrupt \<Longrightarrow> pipe_work e' < pipe_work e"
  by (cases a) (auto intro: move_decreases parent_decreases child_decreases)

lemma pipe_run_bound:
  assumes "pipe_ok e" "pipe_run cap as e = Some e'" "Interrupt \<notin> set as"
  shows "length as \<le> pipe_work e"
  using assms
proof (induction as arbitrary: e)
  case Nil
  then show ?case by simp
next
  case (Cons a as)
  from Cons.prems(2) obtain e1 where e1: "pipe_step cap a e = Some e1" "pipe_run cap as e1 = Some e'"
    by (auto simp del: pipe_step.simps simp: bind_eq_Some_conv)
  have "a \<noteq> Interrupt" using Cons.prems(3) by auto
  from pipe_step_decreases [OF Cons.prems(1) e1(1) this] Cons.IH [OF pipe_ok_step [OF Cons.prems(1) e1(1)] e1(2)]
    Cons.prems(3) show ?case by simp
qed

lemma someone_moves:
  assumes ok: "pipe_ok e" and cap: "0 < cap" and more: "parent e \<noteq> Parent_done"
  shows "\<exists>a. a \<noteq> Interrupt \<and> pipe_step cap a e \<noteq> None"
proof -
  have child: "pipe_step cap Child_step e \<noteq> None" if "pipe e \<noteq> []"
    using that ok by (cases "child e") (auto simp: child_step_def pipe_ok_def)
  show ?thesis
  proof (cases "parent e")
    case (Writing m)
    show ?thesis
    proof (cases "pipe e = []")
      case True
      with ok Writing cap have "pipe_step cap (Move 1) e \<noteq> None"
        by (auto simp: move_bytes_def pipe_ok_def Let_def)
      then show ?thesis by blast
    qed (use child in blast)
  next
    case (Printing rest n)
    show ?thesis
    proof (cases rest)
      case Nil
      with Printing have "pipe_step cap Parent_step e \<noteq> None" by (simp add: parent_step_def Let_def)
      then show ?thesis by blast
    next
      case (Cons b bs)
      show ?thesis
      proof (cases "pipe e = []")
        case True
        with Printing Cons cap have "pipe_step cap (Move 1) e \<noteq> None" by (simp add: move_bytes_def)
        then show ?thesis by blast
      qed (use child in blast)
    qed
  next
    case At_close
    then have "pipe_step cap Parent_step e \<noteq> None" by (simp add: parent_step_def)
    then show ?thesis by blast
  next
    case Waiting_child
    show ?thesis
    proof (cases "child e = Child_exited")
      case True
      with Waiting_child have "pipe_step cap Parent_step e \<noteq> None" by (simp add: parent_step_def)
      then show ?thesis by blast
    next
      case False
      with ok Waiting_child have "pipe_step cap Child_step e \<noteq> None"
        by (cases "child e") (auto simp: child_step_def pipe_ok_def)
      then show ?thesis by blast
    qed
  qed (use more in blast)
qed


section \<open>Properties\<close>

text \<open>The part of the stream that is the message.\<close>

fun data_of :: "u8 list \<Rightarrow> nat \<Rightarrow> int list \<Rightarrow> u8 list" where
  "data_of m w [] = []"
| "data_of m w (n # ns) = (if n = -1 then [] else take (nat n) (drop w m)) @ data_of m (advance w n) ns"

lemma advance_grows: "w \<le> foldl advance w ns"
proof (induction ns arbitrary: w)
  case (Cons n ns)
  have "w \<le> advance w n" by (simp add: advance_def)
  also have "\<dots> \<le> foldl advance (advance w n) ns" by (rule Cons.IH)
  finally show ?case by simp
qed simp

lemma data_of_all:
  "foldl advance w ns \<le> length m \<Longrightarrow> data_of m w ns = take (foldl advance w ns - w) (drop w m)"
proof (induction ns arbitrary: w)
  case Nil
  then show ?case by simp
next
  case (Cons n ns)
  show ?case
  proof (cases "n = -1")
    case True
    with Cons show ?thesis by simp
  next
    case False
    define k where "k = nat n"
    have ge: "w + k \<le> foldl advance (w + k) ns" by (rule advance_grows)
    have "data_of m (w + k) ns = take (foldl advance (w + k) ns - (w + k)) (drop (w + k) m)"
      using Cons.prems False by (intro Cons.IH) (simp add: k_def)
    moreover have "take k (drop w m) @ take (foldl advance (w + k) ns - (w + k)) (drop (w + k) m) =
        take (foldl advance (w + k) ns - w) (drop w m)"
      using take_more [of k w m "foldl advance (w + k) ns - (w + k)"] ge by simp
    ultimately show ?thesis using False by (simp add: k_def)
  qed
qed

text \<open>The answers a call of \<open>write_to_stdout\<close> got, for the function of \<open>Programs\<close>.\<close>

fun answer_of :: "int \<Rightarrow> write_result" where
  "answer_of n = (if n = -1 then Write_failed EINTR else Wrote (nat n))"

lemma write_fully_results:
  "foldl advance w ns = length m \<Longrightarrow> write_fully (map answer_of ns) m w = Some (0, drop w m)"
proof (induction ns arbitrary: w)
  case Nil
  then show ?case by simp
next
  case (Cons n ns)
  have le: "w \<le> length m" using advance_grows [of w "n # ns"] Cons.prems by simp
  have split: "take (nat n) (drop w m) @ drop (w + nat n) m = drop w m"
    by (metis append_take_drop_id drop_drop add.commute)
  from Cons le split show ?case by (cases "n = -1") auto
qed


text \<open>C19: Nobody is stuck and both processes end: in every state reached some process or the kernel can
  go on until the parent is done, and from any state on at most \<open>pipe_work\<close> steps are taken
  unless further signals come.\<close>

theorem pipe_ends:
  assumes "pipe_run cap as (start_pipe m) = Some e" "0 < cap"
  shows "(parent e \<noteq> Parent_done \<longrightarrow> (\<exists>a. a \<noteq> Interrupt \<and> pipe_step cap a e \<noteq> None)) \<and>
    (\<forall>later e'. pipe_run cap later e = Some e' \<and> Interrupt \<notin> set later \<longrightarrow> length later \<le> pipe_work e)"
proof -
  have ok: "pipe_ok e"
    by (rule pipe_run_invariant [where P = pipe_ok, OF assms(1) pipe_ok_start]) (rule pipe_ok_step)
  from someone_moves [OF ok assms(2)] pipe_run_bound [OF ok] show ?thesis by blast
qed

text \<open>A schedule with two signals, and a pipe that holds twelve bytes.\<close>

definition demo_moves :: "pipe_move list" where
  "demo_moves =
     [Interrupt, Move 11, Child_step, Parent_step] @ replicate 5 Child_step @
     [Move 1, Interrupt, Move 10, Parent_step] @ replicate 6 Child_step @
     [Move 2, Move 10, Parent_step, Parent_step] @ replicate 7 Child_step @ [Child_step, Parent_step]"


lemma pipe_ends_witness:
  "case pipe_run 1 [Move 1] (start_pipe [72, 105]) of
     None \<Rightarrow> False
   | Some e \<Rightarrow> pipe_step 1 (Move 1) e = None \<and> (\<exists>a. a \<noteq> Interrupt \<and> pipe_step 1 a e \<noteq> None)"
proof -
  have "case pipe_run 1 [Move 1] (start_pipe [72, 105]) of
      None \<Rightarrow> False | Some e \<Rightarrow> parent e = Writing 1 \<and> length (pipe e) = 1"
    by code_simp
  then obtain e where e: "pipe_run 1 [Move 1] (start_pipe [72, 105]) = Some e" "parent e = Writing 1" "length (pipe e) = 1"
    by (auto split: option.splits)
  from e pipe_ends [OF e(1)] show ?thesis by (auto simp: move_bytes_def simp del: pipe_run.simps)
qed

end
