(* ===== verification/ThreadPool.thy ===== *)
theory ThreadPool
  imports Prelude "HOL-Library.Multiset"
begin

text \<open>
  The thread pool of \<open>test_threadpool/main.cpp\<close>: workers that wait on a condition variable,
  resume the coroutines queued by \<open>Schedule\<close>, and end when the destructor says so. Every
  thread is a program counter; one action of one thread is a step, so that all interleavings
  of the steps that touch the mutex, the queue and the flag are runs of the model. Waiting on
  the condition variable releases the mutex and falls asleep in one step, as the standard says.
\<close>


section \<open>State\<close>

text \<open>A coroutine is the address of its frame, a thread of the pool its index.\<close>

type_synonym coroutine = nat
type_synonym thread = nat

datatype worker_pc =
    W_loop             \<comment> \<open>at the condition of \<open>while\<close>\<close>
  | W_lock             \<comment> \<open>constructing \<open>unique_lock\<close>\<close>
  | W_pred             \<comment> \<open>has the mutex, evaluates the predicate of \<open>wait\<close>\<close>
  | W_falling          \<comment> \<open>has the mutex, has found the predicate false\<close>
  | W_asleep
  | W_woken            \<comment> \<open>taking the mutex again\<close>
  | W_take             \<comment> \<open>has the mutex, \<open>wait\<close> has returned\<close>
  | W_run coroutine    \<comment> \<open>the mutex is released, resumes the coroutine\<close>
  | W_notify           \<comment> \<open>in \<open>Schedule\<close>, called by the coroutine, after the push\<close>
  | W_exit
  | W_fault            \<comment> \<open>\<open>front\<close> of an empty queue\<close>

datatype main_pc = M_live | M_notify | M_stopping | M_join | M_clean | M_end

record pool =
  mTasks :: "coroutine list"
  mIsDone :: bool
  mMutex :: "thread option"
  mWorkers :: "worker_pc list"
  owner_thread :: main_pc
  scheduled :: "coroutine list"    \<comment> \<open>all that \<open>Schedule\<close> was called for\<close>
  taken :: "coroutine list"        \<comment> \<open>in the order of the pops\<close>
  resumed :: "coroutine list"
  destroyed :: "coroutine list"

definition new_pool :: "nat \<Rightarrow> pool" where
  "new_pool n = \<lparr>mTasks = [], mIsDone = False, mMutex = None, mWorkers = replicate n W_loop,
     owner_thread = M_live, scheduled = [], taken = [], resumed = [], destroyed = []\<rparr>"

definition pc :: "thread \<Rightarrow> pool \<Rightarrow> worker_pc" where
  "pc i s = (if i < length (mWorkers s) then mWorkers s ! i else W_exit)"

definition goto :: "thread \<Rightarrow> worker_pc \<Rightarrow> pool \<Rightarrow> pool" where
  "goto i p s = s\<lparr>mWorkers := (mWorkers s)[i := p]\<rparr>"


section \<open>Actions\<close>

text \<open>The body of \<open>Worker\<close>, one step at a time; \<open>None\<close>: the thread cannot go on now.\<close>

definition worker_step :: "thread \<Rightarrow> pool \<Rightarrow> pool option" where
  "worker_step i s =
     (case pc i s of
        W_loop \<Rightarrow> Some (goto i (if mIsDone s then W_exit else W_lock) s)
      | W_lock \<Rightarrow>
          if mMutex s = None then Some (goto i W_pred (s\<lparr>mMutex := Some i\<rparr>)) else None
      | W_pred \<Rightarrow> Some (goto i (if mIsDone s \<or> mTasks s \<noteq> [] then W_take else W_falling) s)
      | W_falling \<Rightarrow> Some (goto i W_asleep (s\<lparr>mMutex := None\<rparr>))
      | W_asleep \<Rightarrow> None
      | W_woken \<Rightarrow>
          if mMutex s = None then Some (goto i W_pred (s\<lparr>mMutex := Some i\<rparr>)) else None
      | W_take \<Rightarrow>
          if mIsDone s \<and> mTasks s = [] then Some (goto i W_exit (s\<lparr>mMutex := None\<rparr>))
          else (case mTasks s of
                  [] \<Rightarrow> Some (goto i W_fault s)
                | h # rest \<Rightarrow> Some (goto i (W_run h) 
                    (s\<lparr>mTasks := rest, mMutex := None, taken := taken s @ [h]\<rparr>)))
      | W_run h \<Rightarrow> Some (goto i W_loop (s\<lparr>resumed := resumed s @ [h]\<rparr>))
      | W_notify \<Rightarrow> None
      | W_exit \<Rightarrow> None
      | W_fault \<Rightarrow> None)"

text \<open>\<open>push\<close> under the mutex, which is free when it is taken and when it is released.\<close>

definition push_task :: "coroutine \<Rightarrow> pool \<Rightarrow> pool option" where
  "push_task h s =
     (if mMutex s = None then Some (s\<lparr>mTasks := mTasks s @ [h], scheduled := scheduled s @ [h]\<rparr>)
      else None)"

text \<open>
  \<open>notify_one\<close>: it wakes one sleeping thread, whichever the system chooses, or nobody when
  nobody sleeps.
\<close>

definition notify_one :: "thread option \<Rightarrow> pool \<Rightarrow> pool option" where
  "notify_one target s =
     (case target of
        Some j \<Rightarrow> if pc j s = W_asleep then Some (goto j W_woken s) else None
      | None \<Rightarrow> if W_asleep \<in> set (mWorkers s) then None else Some s)"

definition notify_all :: "pool \<Rightarrow> pool" where
  "notify_all s =
     s\<lparr>mWorkers := map (\<lambda>p. if p = W_asleep then W_woken else p) (mWorkers s)\<rparr>"

text \<open>The thread that owns the pool: the destructor, one step at a time.\<close>

definition destructor_step :: "pool \<Rightarrow> pool option" where
  "destructor_step s =
     (case owner_thread s of
        M_live \<Rightarrow> Some (s\<lparr>mIsDone := True, owner_thread := M_stopping\<rparr>)
      | M_notify \<Rightarrow> None
      | M_stopping \<Rightarrow> Some ((notify_all s)\<lparr>owner_thread := M_join\<rparr>)
      | M_join \<Rightarrow>
          if list_all (\<lambda>p. p = W_exit) (mWorkers s) then Some (s\<lparr>owner_thread := M_clean\<rparr>) else None
      | M_clean \<Rightarrow>
          if mMutex s = None
          then Some (s\<lparr>destroyed := destroyed s @ mTasks s, mTasks := [], owner_thread := M_end\<rparr>)
          else None
      | M_end \<Rightarrow> None)"

text \<open>
  \<open>Again\<close>: the coroutine that is resumed awaits \<open>ScheduleOnPool\<close> once more, and is scheduled
  from the worker. \<open>Spurious\<close>: a wake-up without a notification.
\<close>

datatype action =
    Work thread
  | Again thread
  | Worker_notifies thread "thread option"
  | Schedule coroutine
  | Owner_notifies "thread option"
  | Destruct
  | Spurious thread

definition pool_act :: "action \<Rightarrow> pool \<Rightarrow> pool option" where
  "pool_act a s =
     (case a of
        Work i \<Rightarrow> worker_step i s
      | Again i \<Rightarrow>
          (case pc i s of
             W_run h \<Rightarrow> Option.bind (push_task h s)
               (\<lambda>s. Some (goto i W_notify (s\<lparr>resumed := resumed s @ [h]\<rparr>)))
           | _ \<Rightarrow> None)
      | Worker_notifies i target \<Rightarrow>
          if pc i s = W_notify
          then Option.bind (notify_one target s) (\<lambda>s. Some (goto i W_loop s)) else None
      | Schedule h \<Rightarrow>
          if owner_thread s = M_live
          then Option.bind (push_task h s) (\<lambda>s. Some (s\<lparr>owner_thread := M_notify\<rparr>)) else None
      | Owner_notifies target \<Rightarrow>
          if owner_thread s = M_notify
          then Option.bind (notify_one target s) (\<lambda>s. Some (s\<lparr>owner_thread := M_live\<rparr>)) else None
      | Destruct \<Rightarrow> destructor_step s
      | Spurious i \<Rightarrow> if pc i s = W_asleep then Some (goto i W_woken s) else None)"

fun pool_run :: "action list \<Rightarrow> pool \<Rightarrow> pool option" where
  "pool_run [] s = Some s"
| "pool_run (a # acts) s = Option.bind (pool_act a s) (pool_run acts)"

inductive pool_reach :: "nat \<Rightarrow> pool \<Rightarrow> bool" for n where
  created: "pool_reach n (new_pool n)"
| acts: "\<lbrakk> pool_reach n s; pool_act a s = Some s' \<rbrakk> \<Longrightarrow> pool_reach n s'"

inductive_cases pool_reachE: "pool_reach n s"

lemma pool_run_reach:
  "pool_run acts s = Some s' \<Longrightarrow> pool_reach n s \<Longrightarrow> pool_reach n s'"
  by (induction acts arbitrary: s) (auto split: bind_splits intro: pool_reach.acts)


section \<open>Invariants\<close>

lemma pc_goto [simp]: "pc i s \<noteq> W_exit \<Longrightarrow> pc j (goto i p s) = (if j = i then p else pc j s)"
  by (auto simp: pc_def goto_def split: if_splits)

lemma pc_update [simp]:
  "pc i (s\<lparr>mMutex := m\<rparr>) = pc i s" "pc i (s\<lparr>mTasks := ts\<rparr>) = pc i s"
  "pc i (s\<lparr>taken := hs\<rparr>) = pc i s" "pc i (s\<lparr>resumed := hs\<rparr>) = pc i s"
  "pc i (s\<lparr>scheduled := hs\<rparr>) = pc i s" "pc i (s\<lparr>destroyed := hs\<rparr>) = pc i s"
  "pc i (s\<lparr>owner_thread := m'\<rparr>) = pc i s" "pc i (s\<lparr>mIsDone := b\<rparr>) = pc i s"
  by (simp_all add: pc_def)

lemma pc_notify_all [simp]: "pc i (notify_all s) = (if pc i s = W_asleep then W_woken else pc i s)"
  by (simp add: pc_def notify_all_def)

lemma goto_fields [simp]:
  "mTasks (goto i p s) = mTasks s" "mIsDone (goto i p s) = mIsDone s" "mMutex (goto i p s) = mMutex s"
  "owner_thread (goto i p s) = owner_thread s" "scheduled (goto i p s) = scheduled s"
  "taken (goto i p s) = taken s" "resumed (goto i p s) = resumed s" "destroyed (goto i p s) = destroyed s"
  "length (mWorkers (goto i p s)) = length (mWorkers s)"
  by (simp_all add: goto_def)

lemma notify_all_fields [simp]:
  "mTasks (notify_all s) = mTasks s" "mIsDone (notify_all s) = mIsDone s"
  "mMutex (notify_all s) = mMutex s" "owner_thread (notify_all s) = owner_thread s"
  "scheduled (notify_all s) = scheduled s" "taken (notify_all s) = taken s"
  "resumed (notify_all s) = resumed s" "destroyed (notify_all s) = destroyed s"
  "length (mWorkers (notify_all s)) = length (mWorkers s)"
  by (simp_all add: notify_all_def)

lemma all_exited: "list_all (\<lambda>p. p = W_exit) (mWorkers s) \<longleftrightarrow> (\<forall>i. pc i s = W_exit)"
  by (auto simp: list_all_length pc_def)

lemma some_asleep: "W_asleep \<in> set (mWorkers s) \<longleftrightarrow> (\<exists>i. pc i s = W_asleep)"
  by (auto simp: in_set_conv_nth pc_def split: if_splits)

lemma pc_new [simp]: "pc i (new_pool n) = (if i < n then W_loop else W_exit)"
  by (simp add: pc_def new_pool_def)

lemma no_workers [simp]:
  "mWorkers (goto i p s) = [] \<longleftrightarrow> mWorkers s = []" "mWorkers (notify_all s) = [] \<longleftrightarrow> mWorkers s = []"
  by (simp_all add: goto_def notify_all_def)

text \<open>The program points at which a thread has the mutex.\<close>

definition in_section :: "worker_pc \<Rightarrow> bool" where
  "in_section p \<longleftrightarrow> p \<in> {W_pred, W_falling, W_take}"

definition lock_ok :: "pool \<Rightarrow> bool" where
  "lock_ok s \<longleftrightarrow> (\<forall>i. mMutex s = Some i \<longleftrightarrow> in_section (pc i s))"

text \<open>What a worker knows about the queue at a program point.\<close>

definition points_ok :: "pool \<Rightarrow> bool" where
  "points_ok s \<longleftrightarrow>
     (\<forall>i. (pc i s = W_take \<longrightarrow> mIsDone s \<or> mTasks s \<noteq> []) \<and>
          (pc i s = W_falling \<longrightarrow> mTasks s = []) \<and> pc i s \<noteq> W_fault)"

definition phase_ok :: "nat \<Rightarrow> pool \<Rightarrow> bool" where
  "phase_ok n s \<longleftrightarrow>
     length (mWorkers s) = n \<and>
     (mIsDone s \<longleftrightarrow> owner_thread s \<noteq> M_live \<and> owner_thread s \<noteq> M_notify) \<and>
     (\<not> mIsDone s \<longrightarrow> (\<forall>i < n. pc i s \<noteq> W_exit))"

text \<open>Work is never forgotten: when there is a task, somebody is about to look at the queue.\<close>

definition awake_ok :: "pool \<Rightarrow> bool" where
  "awake_ok s \<longleftrightarrow>
     mIsDone s \<or> mTasks s = [] \<or> mWorkers s = [] \<or> owner_thread s = M_notify \<or>
     (\<exists>i. pc i s \<noteq> W_asleep \<and> pc i s \<noteq> W_exit)"

definition pool_ok :: "nat \<Rightarrow> pool \<Rightarrow> bool" where
  "pool_ok n s \<longleftrightarrow> lock_ok s \<and> points_ok s \<and> phase_ok n s \<and> awake_ok s"

lemmas pool_ok_defs = pool_ok_def lock_ok_def points_ok_def phase_ok_def awake_ok_def in_section_def

lemma lock_ok_unique: "lock_ok s \<Longrightarrow> in_section (pc i s) \<Longrightarrow> in_section (pc j s) \<Longrightarrow> i = j"
  unfolding lock_ok_def by (metis option.inject)

lemma in_section_simps [simp]:
  "in_section W_pred" "in_section W_falling" "in_section W_take" "\<not> in_section W_loop"
  "\<not> in_section W_lock" "\<not> in_section W_asleep" "\<not> in_section W_woken" "\<not> in_section (W_run h)"
  "\<not> in_section W_notify" "\<not> in_section W_exit" "\<not> in_section W_fault"
  by (simp_all add: in_section_def)

text \<open>The effect of one step of a worker, by program point.\<close>

lemma worker_stepE:
  assumes "worker_step i s = Some s'" "points_ok s"
  obtains
    (enter) "pc i s = W_loop" "s' = goto i (if mIsDone s then W_exit else W_lock) s"
  | (acquire) "pc i s = W_lock \<or> pc i s = W_woken" "mMutex s = None"
      "s' = goto i W_pred (s\<lparr>mMutex := Some i\<rparr>)"
  | (ready) "pc i s = W_pred" "mIsDone s \<or> mTasks s \<noteq> []" "s' = goto i W_take s"
  | (wait) "pc i s = W_pred" "\<not> mIsDone s" "mTasks s = []" "s' = goto i W_falling s"
  | (sleep) "pc i s = W_falling" "s' = goto i W_asleep (s\<lparr>mMutex := None\<rparr>)"
  | (leave) "pc i s = W_take" "mIsDone s" "mTasks s = []" "s' = goto i W_exit (s\<lparr>mMutex := None\<rparr>)"
  | (take) h rest where "pc i s = W_take" "mTasks s = h # rest"
      "s' = goto i (W_run h) (s\<lparr>mTasks := rest, mMutex := None, taken := taken s @ [h]\<rparr>)"
  | (resume) h where "pc i s = W_run h" "s' = goto i W_loop (s\<lparr>resumed := resumed s @ [h]\<rparr>)"
  using assms unfolding worker_step_def points_ok_def
  by (cases "pc i s") (auto split: if_splits list.splits)

lemma lock_ok_release:
  assumes "lock_ok s" "in_section (pc i s)" "\<not> in_section p" "mMutex s' = None"
    and "\<And>j. pc j s' = (if j = i then p else pc j s)"
  shows "lock_ok s'"
proof -
  have "\<not> in_section (pc j s')" for j
    using assms(3,5) lock_ok_unique [OF assms(1,2), of j] by (cases "j = i") auto
  with assms(4) show ?thesis by (simp add: lock_ok_def)
qed

lemma lock_ok_worker:
  assumes "lock_ok s" "points_ok s" "worker_step i s = Some s'"
  shows "lock_ok s'"
  using assms(3,2)
proof (cases rule: worker_stepE)
  case sleep
  with assms(1) show ?thesis by - (rule lock_ok_release [of s i W_asleep], auto)
next
  case leave
  with assms(1) show ?thesis by - (rule lock_ok_release [of s i W_exit], auto)
next
  case (take h rest)
  with assms(1) show ?thesis by - (rule lock_ok_release [of s i "W_run h"], auto)
qed (use assms(1) in \<open>auto simp: lock_ok_def split: if_splits\<close>)

lemma points_ok_worker:
  assumes "lock_ok s" "points_ok s" "worker_step i s = Some s'"
  shows "points_ok s'"
  using assms(3,2)
proof (cases rule: worker_stepE)
  case (take h rest)
  then have "\<not> in_section (pc j s)" if "j \<noteq> i" for j
    using lock_ok_unique [OF assms(1), of i j] that by auto
  with take assms(2) show ?thesis by (fastforce simp: points_ok_def)
qed (use assms(2) in \<open>auto simp: points_ok_def split: if_splits\<close>)

lemma phase_ok_worker:
  assumes "phase_ok n s" "points_ok s" "worker_step i s = Some s'"
  shows "phase_ok n s'"
  using assms(3,2)
  by (cases rule: worker_stepE; use assms(1) in \<open>auto simp: phase_ok_def split: if_splits\<close>)

lemma awake_ok_worker:
  assumes "awake_ok s" "points_ok s" "worker_step i s = Some s'"
  shows "awake_ok s'"
  using assms(3,2)
  by (cases rule: worker_stepE; use assms(1,2) in
      \<open>auto simp: awake_ok_def points_ok_def split: if_splits intro: exI [of _ i]\<close>)

text \<open>The effect of the other actions.\<close>

lemma notify_oneE:
  assumes "notify_one target s = Some s'"
  obtains (nobody) "\<And>i. pc i s \<noteq> W_asleep" "s' = s"
  | (wakes) j where "pc j s = W_asleep" "s' = goto j W_woken s"
proof (cases target)
  case None
  with assms have "\<not> (\<exists>i. pc i s = W_asleep)" "s' = s"
    by (simp_all add: notify_one_def some_asleep split: if_splits)
  with nobody show ?thesis by blast
next
  case (Some j)
  with assms have "pc j s = W_asleep" "s' = goto j W_woken s"
    by (simp_all add: notify_one_def split: if_splits)
  then show ?thesis by (rule wakes)
qed

lemma pool_actE:
  assumes "pool_act a s = Some s'"
  obtains
    (work) i where "a = Work i" "worker_step i s = Some s'"
  | (again) i h where "a = Again i" "pc i s = W_run h" "mMutex s = None"
      "s' = goto i W_notify (s\<lparr>mTasks := mTasks s @ [h], scheduled := scheduled s @ [h],
        resumed := resumed s @ [h]\<rparr>)"
  | (worker_notifies) i target s1 where "a = Worker_notifies i target" "pc i s = W_notify"
      "notify_one target s = Some s1" "s' = goto i W_loop s1"
  | (schedule) h where "a = Schedule h" "owner_thread s = M_live" "mMutex s = None"
      "s' = s\<lparr>mTasks := mTasks s @ [h], scheduled := scheduled s @ [h], owner_thread := M_notify\<rparr>"
  | (owner_notifies) target s1 where "a = Owner_notifies target" "owner_thread s = M_notify"
      "notify_one target s = Some s1" "s' = s1\<lparr>owner_thread := M_live\<rparr>"
  | (stop) "a = Destruct" "owner_thread s = M_live" "s' = s\<lparr>mIsDone := True, owner_thread := M_stopping\<rparr>"
  | (wake_all) "a = Destruct" "owner_thread s = M_stopping" "s' = (notify_all s)\<lparr>owner_thread := M_join\<rparr>"
  | (join) "a = Destruct" "owner_thread s = M_join" "\<And>i. pc i s = W_exit"
      "s' = s\<lparr>owner_thread := M_clean\<rparr>"
  | (clean) "a = Destruct" "owner_thread s = M_clean" "mMutex s = None"
      "s' = s\<lparr>destroyed := destroyed s @ mTasks s, mTasks := [], owner_thread := M_end\<rparr>"
  | (spurious) i where "a = Spurious i" "pc i s = W_asleep" "s' = goto i W_woken s"
proof (cases a)
  case (Work i)
  with assms work show ?thesis by (simp add: pool_act_def)
next
  case (Again i)
  with assms obtain h where "pc i s = W_run h"
    by (auto simp: pool_act_def split: worker_pc.splits)
  with Again assms again show ?thesis
    by (simp add: pool_act_def push_task_def split: if_splits)
next
  case (Worker_notifies i target)
  with assms obtain s1 where "pc i s = W_notify" "notify_one target s = Some s1" "s' = goto i W_loop s1"
    by (auto simp: pool_act_def bind_eq_Some_conv split: if_splits)
  with Worker_notifies worker_notifies show ?thesis by simp
next
  case (Schedule h)
  with assms have "owner_thread s = M_live" "mMutex s = None"
    by (auto simp: pool_act_def push_task_def split: if_splits)
  with Schedule assms schedule show ?thesis
    by (simp add: pool_act_def push_task_def)
next
  case (Owner_notifies target)
  with assms obtain s1 where "owner_thread s = M_notify" "notify_one target s = Some s1"
    "s' = s1\<lparr>owner_thread := M_live\<rparr>"
    by (auto simp: pool_act_def bind_eq_Some_conv split: if_splits)
  with Owner_notifies owner_notifies show ?thesis by simp
next
  case Destruct
  with assms have "destructor_step s = Some s'" by (simp add: pool_act_def)
  with Destruct stop wake_all join clean show ?thesis
    unfolding destructor_step_def all_exited
    by (cases "owner_thread s") (simp_all split: if_splits)
next
  case (Spurious i)
  with assms spurious show ?thesis by (simp add: pool_act_def split: if_splits)
qed

lemma notify_one_ok:
  assumes "notify_one target s = Some s'"
  shows "lock_ok s \<Longrightarrow> lock_ok s'" "points_ok s \<Longrightarrow> points_ok s'" "phase_ok n s \<Longrightarrow> phase_ok n s'"
    and "pc i s \<noteq> W_asleep \<Longrightarrow> pc i s' = pc i s"
    and "owner_thread s' = owner_thread s" "mTasks s' = mTasks s" "mIsDone s' = mIsDone s"
    and "mMutex s' = mMutex s" "mWorkers s' = [] \<longleftrightarrow> mWorkers s = []"
    and "taken s' = taken s" "scheduled s' = scheduled s" "destroyed s' = destroyed s" "resumed s' = resumed s"
    and "length (mWorkers s') = length (mWorkers s)"
  using assms
  by (cases rule: notify_oneE; auto simp: lock_ok_def points_ok_def phase_ok_def split: if_splits)+

lemma lock_ok_act:
  assumes "lock_ok s" "points_ok s" "pool_act a s = Some s'"
  shows "lock_ok s'"
  using assms(3)
proof (cases rule: pool_actE)
  case (worker_notifies i target s1)
  then have "lock_ok s1" "pc i s1 = W_notify"
    using notify_one_ok(1,4) [OF worker_notifies(3)] assms(1) by simp_all
  with worker_notifies show ?thesis by (auto simp: lock_ok_def)
next
  case (owner_notifies target s1)
  then show ?thesis
    using notify_one_ok(1) [OF owner_notifies(3)] assms(1) by (auto simp: lock_ok_def)
qed (use assms(1,2) lock_ok_worker in \<open>auto simp: lock_ok_def split: if_splits\<close>)

lemma points_ok_act:
  assumes "lock_ok s" "points_ok s" "phase_ok n s" "pool_act a s = Some s'"
  shows "points_ok s'"
  using assms(4)
proof (cases rule: pool_actE)
  case (work i)
  with assms show ?thesis by (auto intro: points_ok_worker)
next
  case (again i h)
  then have "pc j s \<noteq> W_falling" for j
    using assms(1) by (metis in_section_simps(2) lock_ok_def option.distinct(1))
  with again assms(2) show ?thesis by (auto simp: points_ok_def)
next
  case (worker_notifies i target s1)
  then have "points_ok s1" "pc i s1 = W_notify"
    using notify_one_ok(2,4) [OF worker_notifies(3)] assms(2) by simp_all
  with worker_notifies show ?thesis by (auto simp: points_ok_def)
next
  case (schedule h)
  then have "pc j s \<noteq> W_falling" for j
    using assms(1) by (metis in_section_simps(2) lock_ok_def option.distinct(1))
  with schedule assms(2) show ?thesis by (auto simp: points_ok_def)
next
  case (owner_notifies target s1)
  then show ?thesis
    using notify_one_ok(2) [OF owner_notifies(3)] assms(2) by (auto simp: points_ok_def)
qed (use assms(2,3) in \<open>auto simp: points_ok_def phase_ok_def split: if_splits\<close>)

lemma phase_ok_act:
  assumes "phase_ok n s" "points_ok s" "pool_act a s = Some s'"
  shows "phase_ok n s'"
  using assms(3)
proof (cases rule: pool_actE)
  case (work i)
  with assms show ?thesis by (auto intro: phase_ok_worker)
next
  case (worker_notifies i target s1)
  then have "phase_ok n s1" "pc i s1 = W_notify"
    using notify_one_ok(3,4) [OF worker_notifies(3)] assms(1) by simp_all
  with worker_notifies show ?thesis by (auto simp: phase_ok_def)
next
  case (owner_notifies target s1)
  then show ?thesis
    using notify_one_ok(3,5) [OF owner_notifies(3)] assms(1) by (auto simp: phase_ok_def)
qed (use assms(1) in \<open>auto simp: phase_ok_def split: if_splits\<close>)

lemma awake_ok_act:
  assumes "awake_ok s" "points_ok s" "phase_ok n s" "pool_act a s = Some s'"
  shows "awake_ok s'"
  using assms(4)
proof (cases rule: pool_actE)
  case (work i)
  with assms show ?thesis by (auto intro: awake_ok_worker)
next
  case (again i h)
  then show ?thesis by (auto simp: awake_ok_def intro: exI [of _ i])
next
  case (worker_notifies i target s1)
  then have "pc i s1 = W_notify"
    using notify_one_ok(4) [OF worker_notifies(3)] by simp
  with worker_notifies show ?thesis by (auto simp: awake_ok_def intro: exI [of _ i])
next
  case (owner_notifies target s1)
  from owner_notifies(3) show ?thesis
  proof (cases rule: notify_oneE)
    case nobody
    show ?thesis
    proof (cases "mIsDone s \<or> mWorkers s = []")
      case True
      with owner_notifies nobody show ?thesis by (auto simp: awake_ok_def)
    next
      case False
      then have "pc 0 s \<noteq> W_exit"
        using assms(3) by (auto simp: phase_ok_def)
      with owner_notifies nobody show ?thesis by (auto simp: awake_ok_def)
    qed
  next
    case (wakes j)
    with owner_notifies show ?thesis by (auto simp: awake_ok_def intro: exI [of _ j])
  qed
next
  case (spurious i)
  then show ?thesis by (auto simp: awake_ok_def intro: exI [of _ i])
qed (use assms(1) in \<open>auto simp: awake_ok_def\<close>)

lemma pool_ok_reach:
  assumes "pool_reach n s"
  shows "pool_ok n s"
  using assms
proof induction
  case created
  then show ?case
    by (auto simp: pool_ok_def lock_ok_def points_ok_def phase_ok_def awake_ok_def)
      (simp_all add: new_pool_def)
next
  case (acts s a s')
  then show ?case
    unfolding pool_ok_def by (metis lock_ok_act points_ok_act phase_ok_act awake_ok_act)
qed


section \<open>Accounting\<close>

text \<open>The coroutine a worker has taken and not yet resumed.\<close>

definition hand :: "worker_pc \<Rightarrow> coroutine multiset" where
  "hand p = (case p of W_run h \<Rightarrow> {#h#} | _ \<Rightarrow> {#})"

definition in_hand :: "pool \<Rightarrow> coroutine multiset" where
  "in_hand s = (\<Sum>p\<in>#mset (mWorkers s). hand p)"

lemma hand_simps [simp]:
  "hand (W_run h) = {#h#}" "hand W_loop = {#}" "hand W_lock = {#}" "hand W_pred = {#}"
  "hand W_falling = {#}" "hand W_asleep = {#}" "hand W_woken = {#}" "hand W_take = {#}"
  "hand W_notify = {#}" "hand W_exit = {#}" "hand W_fault = {#}"
  by (simp_all add: hand_def)

lemma in_hand_goto:
  assumes "pc i s \<noteq> W_exit"
  shows "in_hand (goto i p s) + hand (pc i s) = in_hand s + hand p"
proof -
  have i: "i < length (mWorkers s)" "pc i s = mWorkers s ! i"
    using assms by (auto simp: pc_def split: if_splits)
  then have "mset (mWorkers s) = add_mset (pc i s) (mset (mWorkers s) - {#pc i s#})"
    by simp
  then have "in_hand s = hand (pc i s) + (\<Sum>q\<in>#mset (mWorkers s) - {#pc i s#}. hand q)"
    unfolding in_hand_def by (metis image_mset_add_mset sum_mset.insert)
  moreover have "in_hand (goto i p s) = hand p + (\<Sum>q\<in>#mset (mWorkers s) - {#pc i s#}. hand q)"
    using i by (simp add: in_hand_def goto_def mset_update)
  ultimately show ?thesis by simp
qed

lemma in_hand_update [simp]:
  "in_hand (s\<lparr>mMutex := m\<rparr>) = in_hand s" "in_hand (s\<lparr>mTasks := ts\<rparr>) = in_hand s"
  "in_hand (s\<lparr>taken := hs\<rparr>) = in_hand s" "in_hand (s\<lparr>resumed := hs\<rparr>) = in_hand s"
  "in_hand (s\<lparr>scheduled := hs\<rparr>) = in_hand s" "in_hand (s\<lparr>destroyed := hs\<rparr>) = in_hand s"
  "in_hand (s\<lparr>owner_thread := m'\<rparr>) = in_hand s" "in_hand (s\<lparr>mIsDone := b\<rparr>) = in_hand s"
  by (simp_all add: in_hand_def)

lemma in_hand_notify_all [simp]: "in_hand (notify_all s) = in_hand s"
proof -
  have "sum_list (map (hand \<circ> (\<lambda>p. if p = W_asleep then W_woken else p)) ps) = sum_list (map hand ps)" for ps
    by (induction ps) auto
  then show ?thesis
    by (simp add: in_hand_def notify_all_def sum_mset_sum_list [symmetric] flip: mset_map)
qed

text \<open>
  What was scheduled has been taken, in order, or waits, in order, or was destroyed at the end;
  what was taken has been resumed or is being so.
\<close>

definition ledger_ok :: "pool \<Rightarrow> bool" where
  "ledger_ok s \<longleftrightarrow>
     scheduled s = taken s @ destroyed s @ mTasks s \<and>
     mset (taken s) = mset (resumed s) + in_hand s \<and>
     (owner_thread s \<noteq> M_end \<longrightarrow> destroyed s = []) \<and> (owner_thread s = M_end \<longrightarrow> mTasks s = []) \<and>
     (owner_thread s \<in> {M_clean, M_end} \<longrightarrow> (\<forall>i. pc i s = W_exit))"

lemma ledger_ok_goto:
  assumes "ledger_ok s" "pc i s \<noteq> W_exit" "hand (pc i s) = {#}" "hand p = {#}"
  shows "ledger_ok (goto i p s)"
  using assms in_hand_goto [of i s p] by (auto simp: ledger_ok_def)

lemma ledger_ok_worker:
  assumes "ledger_ok s" "points_ok s" "worker_step i s = Some s'"
  shows "ledger_ok s'"
  using assms(3,2)
proof (cases rule: worker_stepE)
  case (take h rest)
  then show ?thesis
    using assms(1) in_hand_goto [of i "s\<lparr>mTasks := rest, mMutex := None, taken := taken s @ [h]\<rparr>" "W_run h"]
    by (auto simp: ledger_ok_def)
next
  case (resume h)
  then show ?thesis
    using assms(1) in_hand_goto [of i "s\<lparr>resumed := resumed s @ [h]\<rparr>" W_loop]
    by (auto simp: ledger_ok_def)
next
  case enter
  with assms(1) show ?thesis by (auto intro: ledger_ok_goto)
next
  case acquire
  then have "ledger_ok (s\<lparr>mMutex := Some i\<rparr>)" using assms(1) by (simp add: ledger_ok_def)
  with acquire show ?thesis by (auto intro!: ledger_ok_goto)
next
  case sleep
  then have "ledger_ok (s\<lparr>mMutex := None\<rparr>)" using assms(1) by (simp add: ledger_ok_def)
  with sleep show ?thesis by (auto intro!: ledger_ok_goto)
next
  case leave
  then have "ledger_ok (s\<lparr>mMutex := None\<rparr>)" using assms(1) by (simp add: ledger_ok_def)
  with leave show ?thesis by (auto intro!: ledger_ok_goto)
qed (use assms(1) in \<open>auto intro: ledger_ok_goto\<close>)

lemma ledger_ok_notify_one:
  "notify_one target s = Some s' \<Longrightarrow> ledger_ok s \<Longrightarrow> ledger_ok s'"
  by (erule notify_oneE) (auto intro: ledger_ok_goto)

lemma ledger_ok_act:
  assumes "ledger_ok s" "points_ok s" "pool_act a s = Some s'"
  shows "ledger_ok s'"
  using assms(3)
proof (cases rule: pool_actE)
  case (work i)
  with assms show ?thesis by (auto intro: ledger_ok_worker)
next
  case (again i h)
  moreover from this have "owner_thread s \<noteq> M_end" "destroyed s = []"
    using assms(1) by (auto simp: ledger_ok_def)
  ultimately show ?thesis
    using assms(1) in_hand_goto [of i "s\<lparr>mTasks := mTasks s @ [h], scheduled := scheduled s @ [h],
        resumed := resumed s @ [h]\<rparr>" W_notify]
    by (auto simp: ledger_ok_def)
next
  case (worker_notifies i target s1)
  then have "ledger_ok s1" "pc i s1 = W_notify"
    using ledger_ok_notify_one [OF worker_notifies(3)] notify_one_ok(4) [OF worker_notifies(3)] assms(1)
    by simp_all
  with worker_notifies show ?thesis by (auto intro: ledger_ok_goto)
next
  case (owner_notifies target s1)
  then show ?thesis
    using ledger_ok_notify_one [OF owner_notifies(3)] notify_one_ok(5) [OF owner_notifies(3)] assms(1)
    by (auto simp: ledger_ok_def)
next
  case (spurious i)
  with assms(1) show ?thesis by (auto intro: ledger_ok_goto)
qed (use assms(1) in \<open>auto simp: ledger_ok_def\<close>)

lemma ledger_ok_reach: "pool_reach n s \<Longrightarrow> ledger_ok s"
proof (induction rule: pool_reach.induct)
  case created
  have "in_hand (new_pool n) = {#}"
    by (simp add: in_hand_def new_pool_def)
  then show ?case by (simp add: ledger_ok_def) (simp add: new_pool_def)
next
  case (acts s a s')
  then show ?case
    using pool_ok_reach ledger_ok_act unfolding pool_ok_def by blast
qed


section \<open>Progress\<close>

text \<open>
  What the pool does on its own, once nobody schedules anything new: the steps of its threads,
  the notifications on their way, and the destructor after it has begun.
\<close>

definition internal :: "action \<Rightarrow> pool \<Rightarrow> bool" where
  "internal a s \<longleftrightarrow>
     (case a of
        Work i \<Rightarrow> True
      | Worker_notifies i target \<Rightarrow> True
      | Owner_notifies target \<Rightarrow> True
      | Destruct \<Rightarrow> owner_thread s \<noteq> M_live
      | _ \<Rightarrow> False)"

fun internal_run :: "action list \<Rightarrow> pool \<Rightarrow> bool" where
  "internal_run [] s = True"
| "internal_run (a # acts) s =
     (internal a s \<and> (case pool_act a s of None \<Rightarrow> False | Some s' \<Rightarrow> internal_run acts s'))"

definition quiescent :: "pool \<Rightarrow> bool" where
  "quiescent s \<longleftrightarrow> (\<forall>a. internal a s \<longrightarrow> pool_act a s = None)"

fun weight :: "worker_pc \<Rightarrow> nat" where
  "weight W_loop = 5"
| "weight W_lock = 4"
| "weight W_pred = 3"
| "weight W_falling = 1"
| "weight W_asleep = 0"
| "weight W_woken = 4"
| "weight W_take = 2"
| "weight (W_run h) = 6"
| "weight W_notify = 10"
| "weight W_exit = 0"
| "weight W_fault = 0"

fun owner_weight :: "nat \<Rightarrow> main_pc \<Rightarrow> nat" where
  "owner_weight n M_live = 0"
| "owner_weight n M_notify = 5"
| "owner_weight n M_stopping = 4 * n + 3"
| "owner_weight n M_join = 2"
| "owner_weight n M_clean = 1"
| "owner_weight n M_end = 0"

definition workers_weight :: "pool \<Rightarrow> nat" where
  "workers_weight s = sum_list (map weight (mWorkers s))"

definition pool_weight :: "pool \<Rightarrow> nat" where
  "pool_weight s =
     10 * length (mTasks s) + workers_weight s + owner_weight (length (mWorkers s)) (owner_thread s)"

lemma workers_weight_update [simp]:
  "workers_weight (s\<lparr>mMutex := m\<rparr>) = workers_weight s" "workers_weight (s\<lparr>mTasks := ts\<rparr>) = workers_weight s"
  "workers_weight (s\<lparr>taken := hs\<rparr>) = workers_weight s" "workers_weight (s\<lparr>resumed := hs\<rparr>) = workers_weight s"
  "workers_weight (s\<lparr>destroyed := hs\<rparr>) = workers_weight s"
  "workers_weight (s\<lparr>owner_thread := m'\<rparr>) = workers_weight s"
  by (simp_all add: workers_weight_def)

lemma workers_weight_goto:
  assumes "pc i s \<noteq> W_exit"
  shows "workers_weight (goto i p s) + weight (pc i s) = workers_weight s + weight p"
  using assms sum_list_swap [of i "map weight (mWorkers s)" "weight p"]
  by (simp add: workers_weight_def goto_def pc_def map_update split: if_splits)

lemma workers_weight_notify_all:
  "workers_weight (notify_all s) \<le> workers_weight s + 4 * length (mWorkers s)"
proof -
  have "sum_list (map (\<lambda>p. weight (if p = W_asleep then W_woken else p)) ps) \<le>
    sum_list (map weight ps) + 4 * length ps" for ps
    by (induction ps) auto
  then show ?thesis by (simp add: workers_weight_def notify_all_def comp_def)
qed

lemma worker_weight_decreases:
  assumes "worker_step i s = Some s'" "points_ok s"
  shows "pool_weight s' < pool_weight s"
proof -
  have "pc i s \<noteq> W_exit"
    using assms(1) by (auto simp: worker_step_def)
  note swap = workers_weight_goto [of i]
  from assms show ?thesis
  proof (cases rule: worker_stepE)
    case enter
    then show ?thesis
      using swap [of s "if mIsDone s then W_exit else W_lock"] by (auto simp: pool_weight_def split: if_splits)
  next
    case acquire
    then show ?thesis
      using swap [of "s\<lparr>mMutex := Some i\<rparr>" W_pred] by (auto simp: pool_weight_def)
  next
    case ready
    then show ?thesis
      using swap [of s W_take] by (simp add: pool_weight_def)
  next
    case wait
    then show ?thesis
      using swap [of s W_falling] by (simp add: pool_weight_def)
  next
    case sleep
    then show ?thesis
      using swap [of "s\<lparr>mMutex := None\<rparr>" W_asleep] by (simp add: pool_weight_def)
  next
    case leave
    then show ?thesis
      using swap [of "s\<lparr>mMutex := None\<rparr>" W_exit] by (simp add: pool_weight_def)
  next
    case (take h rest)
    then show ?thesis
      using swap [of "s\<lparr>mTasks := rest, mMutex := None, taken := taken s @ [h]\<rparr>" "W_run h"]
      by (simp add: pool_weight_def)
  next
    case (resume h)
    then show ?thesis
      using swap [of "s\<lparr>resumed := resumed s @ [h]\<rparr>" W_loop] by (simp add: pool_weight_def)
  qed
qed

lemma notify_one_weight:
  assumes "notify_one target s = Some s'"
  shows "workers_weight s' \<le> workers_weight s + 4"
  using assms
proof (cases rule: notify_oneE)
  case (wakes j)
  then show ?thesis
    using workers_weight_goto [of j s W_woken] by simp
qed simp

lemma internal_weight_decreases:
  assumes "pool_act a s = Some s'" "internal a s" "points_ok s"
  shows "pool_weight s' < pool_weight s"
  using assms(1)
proof (cases rule: pool_actE)
  case (work i)
  with assms(3) show ?thesis by (auto intro: worker_weight_decreases)
next
  case (worker_notifies i target s1)
  have "pc i s1 = W_notify"
    using worker_notifies(2) notify_one_ok(4) [OF worker_notifies(3)] by simp
  then have "workers_weight s' + 10 = workers_weight s1 + 5"
    using workers_weight_goto [of i s1 W_loop] worker_notifies(4) by simp
  with notify_one_weight [OF worker_notifies(3)] notify_one_ok(5,6,14) [OF worker_notifies(3)]
    worker_notifies(4)
  show ?thesis by (simp add: pool_weight_def)
next
  case (owner_notifies target s1)
  with notify_one_weight [OF owner_notifies(3)] notify_one_ok(6,14) [OF owner_notifies(3)]
  show ?thesis by (simp add: pool_weight_def)
next
  case wake_all
  with workers_weight_notify_all [of s] show ?thesis by (simp add: pool_weight_def)
qed (use assms(2) in \<open>auto simp: internal_def pool_weight_def\<close>)

text \<open>So what the pool does on its own comes to an end.\<close>

lemma internal_run_bounded:
  assumes "internal_run acts s" "pool_reach n s"
  shows "\<exists>s'. pool_run acts s = Some s' \<and> pool_reach n s' \<and> length acts + pool_weight s' \<le> pool_weight s"
  using assms
proof (induction acts arbitrary: s)
  case (Cons a acts)
  then obtain s1 where s1: "pool_act a s = Some s1" "internal a s" "internal_run acts s1"
    by (auto split: option.splits)
  with Cons.prems(2) have "pool_reach n s1" by (blast intro: pool_reach.acts)
  with Cons.IH s1(3) obtain s' where "pool_run acts s1 = Some s'" "pool_reach n s'"
    "length acts + pool_weight s' \<le> pool_weight s1" by blast
  moreover have "pool_weight s1 < pool_weight s"
    using s1 pool_ok_reach [OF Cons.prems(2)] by (auto simp: pool_ok_def intro: internal_weight_decreases)
  ultimately show ?case using s1(1) by auto
qed simp

lemma notify_one_possible: "\<exists>target s'. notify_one target s = Some s'"
proof (cases "W_asleep \<in> set (mWorkers s)")
  case True
  then obtain j where "pc j s = W_asleep" by (auto simp: some_asleep)
  then show ?thesis by (intro exI [of _ "Some j"]) (simp add: notify_one_def)
next
  case False
  then show ?thesis by (intro exI [of _ None]) (simp add: notify_one_def)
qed

lemma worker_moves:
  assumes "pc i s \<noteq> W_asleep" "pc i s \<noteq> W_exit" "pc i s \<noteq> W_fault" "lock_ok s"
  shows "\<exists>a s'. internal a s \<and> pool_act a s = Some s'"
proof (cases "worker_step i s")
  case (Some s')
  then show ?thesis by (intro exI [of _ "Work i"]) (simp add: internal_def pool_act_def)
next
  case None
  then consider "pc i s = W_notify" | j where "mMutex s = Some j"
    using assms by (cases "pc i s") (auto simp: worker_step_def split: if_splits list.splits)
  then show ?thesis
  proof cases
    case 1
    obtain target s1 where "notify_one target s = Some s1"
      using notify_one_possible by blast
    with 1 show ?thesis
      by (intro exI [of _ "Worker_notifies i target"]) (simp add: internal_def pool_act_def)
  next
    case 2
    with assms(4) have "in_section (pc j s)" unfolding lock_ok_def by blast
    then have "worker_step j s \<noteq> None"
      by (auto simp: in_section_def worker_step_def split: list.splits)
    then show ?thesis by (intro exI [of _ "Work j"]) (auto simp: internal_def pool_act_def)
  qed
qed

lemma quiescent_idle:
  assumes "quiescent s" "pool_ok n s"
  shows "pc i s = W_asleep \<or> pc i s = W_exit" "owner_thread s \<noteq> M_notify"
    "mMutex s = None" "in_hand s = {#}"
proof -
  have blocked: "\<not> (internal a s \<and> pool_act a s = Some s')" for a s'
    using assms(1) by (auto simp: quiescent_def)
  show idle: "pc i s = W_asleep \<or> pc i s = W_exit" for i
    using worker_moves [of i s] blocked assms(2) by (auto simp: pool_ok_def points_ok_def)
  show "owner_thread s \<noteq> M_notify"
  proof
    assume owner: "owner_thread s = M_notify"
    obtain target s1 where "notify_one target s = Some s1"
      using notify_one_possible by blast
    with owner have "pool_act (Owner_notifies target) s = Some (s1\<lparr>owner_thread := M_live\<rparr>)"
      by (simp add: pool_act_def)
    with blocked show False by (auto simp: internal_def)
  qed
  show "mMutex s = None"
  proof (rule ccontr)
    assume "mMutex s \<noteq> None"
    then obtain j where "in_section (pc j s)"
      using assms(2) by (auto simp: pool_ok_def lock_ok_def)
    with idle [of j] show False by auto
  qed
  show "in_hand s = {#}"
  proof -
    have "hand p = {#}" if "p \<in> set (mWorkers s)" for p
    proof -
      from that obtain j where "j < length (mWorkers s)" "mWorkers s ! j = p"
        by (auto simp: in_set_conv_nth)
      then have "pc j s = p" by (simp add: pc_def)
      with idle [of j] show ?thesis by auto
    qed
    then show ?thesis by (auto simp: in_hand_def)
  qed
qed

lemma internal_completes:
  assumes "pool_reach n s"
  shows "\<exists>acts s'. internal_run acts s \<and> pool_run acts s = Some s' \<and> quiescent s'"
  using assms
proof (induction "pool_weight s" arbitrary: s rule: less_induct)
  case less
  show ?case
  proof (cases "quiescent s")
    case True
    then show ?thesis by (intro exI [of _ "[]"] exI [of _ s]) simp
  next
    case False
    then obtain a s1 where a: "internal a s" "pool_act a s = Some s1"
      by (auto simp: quiescent_def)
    then have "pool_weight s1 < pool_weight s"
      using pool_ok_reach [OF less.prems] by (auto simp: pool_ok_def intro: internal_weight_decreases)
    with a less.hyps [of s1] less.prems obtain acts s' where
      "internal_run acts s1" "pool_run acts s1 = Some s'" "quiescent s'"
      by (blast intro: pool_reach.acts)
    with a show ?thesis by (intro exI [of _ "a # acts"] exI [of _ s']) simp
  qed
qed

lemma internal_keeps_running:
  assumes "internal_run acts s" "pool_run acts s = Some s'" "pool_reach n s" "\<not> mIsDone s"
  shows "\<not> mIsDone s' \<and> pool_reach n s'"
  using assms
proof (induction acts arbitrary: s)
  case (Cons a acts)
  then obtain s1 where s1: "pool_act a s = Some s1" "internal a s" "internal_run acts s1"
    "pool_run acts s1 = Some s'"
    by (auto split: option.splits)
  then have "pool_reach n s1" using Cons.prems(3) by (blast intro: pool_reach.acts)
  moreover have "\<not> mIsDone s1"
    using s1(1)
  proof (cases rule: pool_actE)
    case (work i)
    then show ?thesis
      using Cons.prems(4) pool_ok_reach [OF Cons.prems(3)]
      by (auto simp: pool_ok_def elim!: worker_stepE)
  next
    case (worker_notifies i target s2)
    then show ?thesis using Cons.prems(4) notify_one_ok(7) [OF worker_notifies(3)] by simp
  next
    case (owner_notifies target s2)
    then show ?thesis using Cons.prems(4) notify_one_ok(7) [OF owner_notifies(3)] by simp
  qed (use Cons.prems(4) s1(2) in \<open>auto simp: internal_def\<close>)
  ultimately show ?case using Cons.IH s1(3,4) by blast
qed simp


section \<open>The contract: an atomic queue\<close>

text \<open>
  What the pool promises: coroutines are handed out in the order in which they were scheduled,
  one at a time, and those left over are dropped together.
\<close>

record task_queue =
  waiting :: "coroutine list"
  given :: "coroutine list"
  dropped :: "coroutine list"

inductive queue_step :: "task_queue \<Rightarrow> task_queue \<Rightarrow> bool" where
  enqueue: "queue_step q (q\<lparr>waiting := waiting q @ [h]\<rparr>)"
| hand_out: "waiting q = h # rest \<Longrightarrow> queue_step q (q\<lparr>waiting := rest, given := given q @ [h]\<rparr>)"
| drop: "queue_step q (q\<lparr>waiting := [], dropped := dropped q @ waiting q\<rparr>)"

definition queue_of :: "pool \<Rightarrow> task_queue" where
  "queue_of s = \<lparr>waiting = mTasks s, given = taken s, dropped = destroyed s\<rparr>"

lemma queue_of_goto [simp]: "queue_of (goto i p s) = queue_of s"
  by (simp add: queue_of_def)


section \<open>Properties\<close>


text \<open>C12: The pool is safe: no two threads are inside the locked section, \<open>front\<close> is never called
  on an empty queue, and each scheduled coroutine is waiting, in the hands of one worker,
  resumed or destroyed, exactly once and in order.\<close>

theorem pool_safe:
  assumes "pool_reach n s"
  shows "(in_section (pc i s) \<and> in_section (pc j s) \<longrightarrow> i = j) \<and> pc i s \<noteq> W_fault \<and>
    scheduled s = taken s @ destroyed s @ mTasks s \<and> mset (taken s) = mset (resumed s) + in_hand s"
proof -
  have "lock_ok s" "points_ok s" "ledger_ok s"
    using pool_ok_reach [OF assms] ledger_ok_reach [OF assms] by (simp_all add: pool_ok_def)
  then show ?thesis
    using lock_ok_unique [of s i j] by (simp add: points_ok_def ledger_ok_def)
qed

text \<open>C33: No wake-up is lost while the pool is alive: left to itself it comes to rest after
  boundedly many steps, and when it rests, every scheduled coroutine has been resumed.\<close>

theorem pool_drains:
  assumes "pool_reach n s" "0 < n" "\<not> mIsDone s"
    and "internal_run acts s" "pool_run acts s = Some s'"
  shows "length acts \<le> pool_weight s \<and>
    (quiescent s' \<longrightarrow> mTasks s' = [] \<and> mset (resumed s') = mset (scheduled s'))"
proof -
  have s': "\<not> mIsDone s'" "pool_reach n s'"
    using internal_keeps_running [OF assms(4,5,1,3)] by simp_all
  then have ok: "pool_ok n s'" "ledger_ok s'"
    by (simp_all add: pool_ok_reach ledger_ok_reach)
  have "mTasks s' = []" if "quiescent s'"
    using quiescent_idle [OF that ok(1)] ok(1) s'(1) assms(2)
    by (auto simp: pool_ok_def awake_ok_def phase_ok_def)
  moreover have "mset (resumed s') = mset (scheduled s')" if "quiescent s'"
    using ok(2) calculation [OF that] quiescent_idle(4) [OF that ok(1)] s'(1) ok(1)
    by (auto simp: ledger_ok_def pool_ok_def phase_ok_def)
  moreover have "length acts \<le> pool_weight s"
    using internal_run_bounded [OF assms(4,1)] by auto
  ultimately show ?thesis by simp
qed

text \<open>
  The destructor after it has set the flag, when no worker was between its look at the flag and
  its sleep: nobody falls asleep any more.
\<close>

definition settled :: "pool \<Rightarrow> bool" where
  "settled s \<longleftrightarrow>
     mIsDone s \<and> (\<forall>i. pc i s \<noteq> W_falling) \<and>
     (owner_thread s \<in> {M_join, M_clean, M_end} \<longrightarrow> (\<forall>i. pc i s \<noteq> W_asleep))"

lemma settled_act:
  assumes "settled s" "points_ok s" "pool_act a s = Some s'"
  shows "settled s'"
  using assms(3)
proof (cases rule: pool_actE)
  case (work i)
  from work(2) assms(2) show ?thesis
    by (cases rule: worker_stepE) (use assms(1) in \<open>auto simp: settled_def split: if_splits\<close>)
next
  case (worker_notifies i target s1)
  from worker_notifies(3) have "settled s1" "pc i s1 = W_notify"
    using assms(1) notify_one_ok(4) [OF worker_notifies(3)] worker_notifies(2)
    by (auto simp: settled_def split: if_splits elim!: notify_oneE)
  with worker_notifies(4) show ?thesis by (auto simp: settled_def split: if_splits)
next
  case (owner_notifies target s1)
  from owner_notifies(3) have "settled s1"
    using assms(1) by (auto simp: settled_def split: if_splits elim!: notify_oneE)
  with owner_notifies(4) show ?thesis by (auto simp: settled_def split: if_splits)
qed (use assms(1) in \<open>auto simp: settled_def split: if_splits\<close>)

lemma settled_run:
  assumes "pool_run acts s = Some s'" "settled s" "pool_reach n s"
  shows "settled s' \<and> pool_reach n s'"
  using assms
proof (induction acts arbitrary: s)
  case (Cons a acts)
  then obtain s1 where "pool_act a s = Some s1" "pool_run acts s1 = Some s'"
    by (auto split: bind_splits)
  moreover from this have "settled s1" "pool_reach n s1"
    using Cons.prems(2,3) pool_ok_reach [OF Cons.prems(3)]
    by (auto simp: pool_ok_def intro: settled_act pool_reach.acts)
  ultimately show ?case using Cons.IH by blast
qed simp

lemma settled_ends:
  assumes "settled s" "pool_reach n s" "quiescent s"
  shows "owner_thread s = M_end"
proof -
  have ok: "pool_ok n s" "ledger_ok s" using assms(2) by (simp_all add: pool_ok_reach ledger_ok_reach)
  note idle = quiescent_idle [OF assms(3) ok(1)]
  have stuck: "destructor_step s = None" if "owner_thread s \<noteq> M_live"
    using assms(3) that by (auto simp: quiescent_def internal_def pool_act_def dest: spec [of _ Destruct])
  show ?thesis
  proof (cases "owner_thread s")
    case M_join
    then have "\<forall>i. pc i s = W_exit" using assms(1) idle(1) by (auto simp: settled_def)
    with M_join stuck show ?thesis by (simp add: destructor_step_def all_exited)
  qed (use stuck idle ok assms(1) in \<open>auto simp: destructor_step_def settled_def pool_ok_def phase_ok_def\<close>)
qed

text \<open>The destructor returns, with every coroutine resumed or destroyed, if no worker is about
  to fall asleep at the moment it sets the flag.\<close>

theorem destructor_returns:
  assumes "pool_reach n s" "owner_thread s = M_live" "W_falling \<notin> set (mWorkers s)"
    and "pool_run (Destruct # acts) s = Some s'" "quiescent s'"
  shows "owner_thread s' = M_end \<and> scheduled s' = taken s' @ destroyed s' \<and> mset (resumed s') = mset (taken s')"
proof -
  have "pc i s \<noteq> W_falling" for i
    using assms(3) unfolding pc_def by (metis nth_mem worker_pc.distinct)
  then have "settled (s\<lparr>mIsDone := True, owner_thread := M_stopping\<rparr>)"
    by (simp add: settled_def)
  moreover have "pool_act Destruct s = Some (s\<lparr>mIsDone := True, owner_thread := M_stopping\<rparr>)"
    using assms(2) by (simp add: pool_act_def destructor_step_def)
  ultimately have s': "settled s'" "pool_reach n s'"
    using settled_run [of acts _ s' n] assms(1,4) by (auto intro: pool_reach.acts)
  then have ok: "pool_ok n s'" "ledger_ok s'"
    by (simp_all add: pool_ok_reach ledger_ok_reach)
  with settled_ends [OF s' assms(5)] quiescent_idle(4) [OF assms(5) ok(1)] show ?thesis
    by (simp add: ledger_ok_def)
qed

text \<open>C40: The wake-up of the destructor can be lost: \<open>mIsDone\<close> is set without the mutex, so a
  worker that has just found the predicate false falls asleep after \<open>notify_all\<close>, and the
  destructor waits for it for ever.\<close>

theorem destructor_hangs:
  "\<exists>acts s. pool_run acts (new_pool 2) = Some s \<and> owner_thread s = M_join \<and> quiescent s \<and>
    pc 0 s = W_asleep \<and> mIsDone s"
proof -
  let ?acts = "[Work 0, Work 0, Work 0, Destruct, Destruct, Work 0, Work 1]"
  let ?s = "\<lparr>mTasks = [], mIsDone = True, mMutex = None, mWorkers = [W_asleep, W_exit],
    owner_thread = M_join, scheduled = [], taken = [], resumed = [], destroyed = []\<rparr>"
  have run: "pool_run ?acts (new_pool 2) = Some ?s"
    by (simp add: new_pool_def pool_act_def worker_step_def destructor_step_def pc_def goto_def
        notify_all_def numeral_2_eq_2)
  have "pc i ?s = (if i = 0 then W_asleep else W_exit)" for i
    by (auto simp: pc_def nth_Cons')
  then have "quiescent ?s"
    by (auto simp: quiescent_def internal_def pool_act_def worker_step_def destructor_step_def
        split: action.splits)
  with run show ?thesis
    by (intro exI [of _ ?acts] exI [of _ ?s]) (simp add: pc_def)
qed


text \<open>Concrete runs for the witnesses.\<close>

definition demo_pool :: "action list \<Rightarrow> pool" where
  "demo_pool acts = the (pool_run acts (new_pool 1))"

definition demo_sleeping :: "action list" where
  "demo_sleeping = [Work 0, Work 0, Work 0, Work 0]"

definition demo_working :: "action list" where
  "demo_working = [Owner_notifies (Some 0), Work 0, Work 0, Work 0, Work 0, Work 0, Work 0, Work 0, Work 0]"

lemmas demo_pool_defs =
  demo_pool_def demo_sleeping_def demo_working_def new_pool_def pool_act_def worker_step_def destructor_step_def
  push_task_def notify_one_def pc_def goto_def notify_all_def

lemma demo_pool_reach:
  "pool_run acts (new_pool 1) = Some s \<Longrightarrow> pool_reach 1 s"
  by (rule pool_run_reach [OF _ pool_reach.created])


lemma pool_safe_witness:
  "pc 0 (demo_pool demo_sleeping) \<noteq> W_fault \<and>
    scheduled (demo_pool demo_sleeping) = taken (demo_pool demo_sleeping) @ destroyed (demo_pool demo_sleeping) @ mTasks (demo_pool demo_sleeping)"
  using pool_safe [OF demo_pool_reach [of demo_sleeping "demo_pool demo_sleeping"], of 0 0]
  by (simp add: demo_pool_defs)

lemma pool_drains_witness:
  "resumed (demo_pool (demo_sleeping @ Schedule 5 # demo_working)) = [5] \<and>
   length demo_working \<le> pool_weight (demo_pool (demo_sleeping @ [Schedule 5]))"
proof -
  let ?s = "demo_pool (demo_sleeping @ [Schedule 5])"
  have "length demo_working \<le> pool_weight ?s \<and>
    (quiescent (demo_pool (demo_sleeping @ Schedule 5 # demo_working)) \<longrightarrow>
     mTasks (demo_pool (demo_sleeping @ Schedule 5 # demo_working)) = [] \<and>
     mset (resumed (demo_pool (demo_sleeping @ Schedule 5 # demo_working))) =
     mset (scheduled (demo_pool (demo_sleeping @ Schedule 5 # demo_working))))"
  proof (rule pool_drains)
    show "pool_reach 1 ?s"
      by (rule demo_pool_reach [of "demo_sleeping @ [Schedule 5]"]) (simp add: demo_pool_defs)
  qed (simp_all add: demo_pool_defs internal_def)
  then show ?thesis by (simp add: demo_pool_defs)
qed

definition demo_destructor :: "action list" where
  "demo_destructor = [Destruct, Work 0, Work 0, Work 0, Destruct, Destruct]"

lemma destructor_returns_witness:
  "owner_thread (demo_pool (demo_sleeping @ Destruct # demo_destructor)) = M_end \<and>
   scheduled (demo_pool (demo_sleeping @ Destruct # demo_destructor)) =
     taken (demo_pool (demo_sleeping @ Destruct # demo_destructor)) @
     destroyed (demo_pool (demo_sleeping @ Destruct # demo_destructor))"
proof -
  let ?s = "demo_pool demo_sleeping" and ?s' = "demo_pool (demo_sleeping @ Destruct # demo_destructor)"
  have "pc i ?s' = W_exit" for i
    by (simp add: demo_pool_defs demo_destructor_def)
  moreover have "owner_thread ?s' = M_end"
    by (simp add: demo_pool_defs demo_destructor_def)
  ultimately have "quiescent ?s'"
    by (auto simp: quiescent_def internal_def pool_act_def worker_step_def destructor_step_def
        split: action.splits)
  moreover have "pool_reach 1 ?s"
    by (rule demo_pool_reach [of demo_sleeping]) (simp add: demo_pool_defs)
  moreover have "pool_run (Destruct # demo_destructor) ?s = Some ?s'"
    by (simp add: demo_pool_defs demo_destructor_def)
  moreover have "owner_thread ?s = M_live" "W_falling \<notin> set (mWorkers ?s)"
    by (simp_all add: demo_pool_defs)
  ultimately show ?thesis
    using destructor_returns [of 1 ?s demo_destructor ?s'] by simp
qed

end
