(* ===== verification/CoroutineExample.thy ===== *)
theory CoroutineExample
  imports ThreadPool
begin

text \<open>
  The program of \<open>test_threadpool/main.cpp\<close>: \<open>main\<close> makes a pool of two threads and calls the
  coroutine \<open>Example\<close>, which prints a line, moves to the pool and prints another; after a second
  \<open>main\<close> destroys the pool. The coroutine is one object with the states below; nothing but the
  pool's destructor could destroy its frame.
\<close>


section \<open>The program\<close>

text \<open>
  The frame of \<open>Example\<close>: not yet made, suspended at \<open>co_await\<close>, suspended at its end
  (\<open>final_suspend\<close> returns \<open>suspend_always\<close>), or destroyed.
\<close>

datatype frame_state = Not_made | At_await | At_final | Frame_gone

datatype who = Main_thread | Pool_thread thread
datatype line = Before_switch who | After_switch who

record example =
  tp :: pool
  frame :: frame_state
  printed :: "line list"

definition start_example :: example where
  "start_example = \<lparr>tp = new_pool 2, frame = Not_made, printed = []\<rparr>"

text \<open>\<open>h.resume()\<close>: the coroutine prints its second line and runs to its end.\<close>

definition resume_frame :: "thread \<Rightarrow> example \<Rightarrow> fault + example" where
  "resume_frame i x =
     (case frame x of
        At_await \<Rightarrow> Inr (x\<lparr>frame := At_final, printed := printed x @ [After_switch (Pool_thread i)]\<rparr>)
      | _ \<Rightarrow> Inl Use_after_free)"

text \<open>
  The steps: the threads of the pool, the destructor at the end of \<open>main\<close>, and the call of
  \<open>Example\<close>, which is the one call of \<open>Schedule\<close>: the handle, here 0, is pushed when the frame is
  suspended.
\<close>

definition example_step :: "action \<Rightarrow> example \<Rightarrow> (fault + example) option" where
  "example_step a x =
     (case a of
        Schedule h \<Rightarrow>
          if frame x = Not_made \<and> h = 0
          then map_option (\<lambda>s. Inr (x\<lparr>tp := s, frame := At_await, printed := [Before_switch Main_thread]\<rparr>))
                 (pool_act a (tp x))
          else None
      | Work i \<Rightarrow>
          map_option (\<lambda>s. case pc i (tp x) of
              W_run h \<Rightarrow> resume_frame i (x\<lparr>tp := s\<rparr>)
            | _ \<Rightarrow> Inr (x\<lparr>tp := s\<rparr>))
            (pool_act a (tp x))
      | Destruct \<Rightarrow>
          if frame x = Not_made then None
          else map_option (\<lambda>s. Inr (x\<lparr>tp := s,
                 frame := (if destroyed s = destroyed (tp x) then frame x else Frame_gone)\<rparr>))
                 (pool_act a (tp x))
      | Again i \<Rightarrow> None
      | _ \<Rightarrow> map_option (\<lambda>s. Inr (x\<lparr>tp := s\<rparr>)) (pool_act a (tp x)))"

fun example_run :: "action list \<Rightarrow> example \<Rightarrow> (fault + example) option" where
  "example_run [] x = Some (Inr x)"
| "example_run (a # acts) x =
     (case example_step a x of
        None \<Rightarrow> None
      | Some (Inl e) \<Rightarrow> Some (Inl e)
      | Some (Inr y) \<Rightarrow> example_run acts y)"


section \<open>The frame and the pool\<close>

definition example_ok :: "example \<Rightarrow> bool" where
  "example_ok x \<longleftrightarrow>
     pool_reach 2 (tp x) \<and> scheduled (tp x) = (if frame x = Not_made then [] else [0]) \<and>
     (case frame x of
        Not_made \<Rightarrow> owner_thread (tp x) = M_live \<and> printed x = []
      | At_await \<Rightarrow> resumed (tp x) = [] \<and> destroyed (tp x) = [] \<and> printed x = [Before_switch Main_thread]
      | At_final \<Rightarrow> resumed (tp x) = [0] \<and> destroyed (tp x) = [] \<and>
          (\<exists>i < 2. printed x = [Before_switch Main_thread, After_switch (Pool_thread i)])
      | Frame_gone \<Rightarrow> resumed (tp x) = [] \<and> destroyed (tp x) = [0] \<and> printed x = [Before_switch Main_thread])"

lemma example_ok_start: "example_ok start_example"
  by (simp add: example_ok_def start_example_def new_pool_def pool_reach.created [unfolded new_pool_def])

lemma running_in_hand: "pc i s = W_run h \<Longrightarrow> h \<in># in_hand s"
proof -
  assume h: "pc i s = W_run h"
  then have "i < length (mWorkers s)" "mWorkers s ! i = W_run h" by (auto simp: pc_def split: if_splits)
  then have "W_run h \<in># mset (mWorkers s)" by (metis nth_mem set_mset_mset)
  then have "hand (W_run h) \<subseteq># in_hand s"
    unfolding in_hand_def by (metis image_mset_add_mset insert_DiffM mset_subset_eq_add_left sum_mset.insert)
  then show ?thesis by simp
qed

text \<open>The accounts of the pool, for the one coroutine there is.\<close>

lemma one_coroutine:
  assumes "pool_reach 2 s" "scheduled s = [0]"
  shows "mTasks s \<noteq> [] \<Longrightarrow> mTasks s = [0] \<and> resumed s = [] \<and> destroyed s = []"
    and "pc i s = W_run h \<Longrightarrow> h = 0 \<and> resumed s = [] \<and> destroyed s = [] \<and> i < 2"
    and "destroyed s = [] \<Longrightarrow> mTasks s = [] \<Longrightarrow> in_hand s = {#} \<Longrightarrow> resumed s = [0]"
proof -
  have l: "ledger_ok s" "length (mWorkers s) = 2"
    using ledger_ok_reach [OF assms(1)] pool_ok_reach [OF assms(1)] by (auto simp: pool_ok_def phase_ok_def)
  then have one: "taken s @ destroyed s @ mTasks s = [0]" and all: "mset (taken s) = mset (resumed s) + in_hand s"
    using assms(2) by (simp_all add: ledger_ok_def)
  show "mTasks s = [0] \<and> resumed s = [] \<and> destroyed s = []" if "mTasks s \<noteq> []"
    using that one all by (auto simp: append_eq_Cons_conv)
  show "h = 0 \<and> resumed s = [] \<and> destroyed s = [] \<and> i < 2" if "pc i s = W_run h"
  proof -
    have "h \<in># in_hand s" using that by (rule running_in_hand)
    then obtain t where "mset (taken s) = add_mset h (mset (resumed s) + t)"
      using all by (metis insert_DiffM union_mset_add_mset_right)
    moreover from this have "taken s = [0]" "destroyed s = []" using one by (auto simp: append_eq_Cons_conv)
    ultimately show ?thesis using that l(2) by (auto simp: pc_def split: if_splits)
  qed
  show "resumed s = [0]" if "destroyed s = []" "mTasks s = []" "in_hand s = {#}"
    using that one all by simp
qed

text \<open>A step that leaves the accounts as they are.\<close>

lemma example_ok_same:
  assumes "example_ok x" "pool_act a (tp x) = Some s" "scheduled s = scheduled (tp x)"
    "resumed s = resumed (tp x)" "destroyed s = destroyed (tp x)"
    "frame x = Not_made \<Longrightarrow> owner_thread s = owner_thread (tp x)"
  shows "example_ok (x\<lparr>tp := s\<rparr>)"
  using assms by (auto simp: example_ok_def intro: pool_reach.acts split: frame_state.splits)

lemma example_step_ok:
  assumes ok: "example_ok x" and step: "example_step a x = Some r"
  shows "\<exists>y. r = Inr y \<and> example_ok y \<and> pool_act a (tp x) = Some (tp y)"
proof -
  have reach: "pool_reach 2 (tp x)" and points: "points_ok (tp x)"
    using ok pool_ok_reach by (auto simp: example_ok_def pool_ok_def)
  have later: "pool_reach 2 s" if "pool_act a (tp x) = Some s" for s
    using reach that by (rule pool_reach.acts)
  obtain s where s: "pool_act a (tp x) = Some s"
    using step by (cases a) (auto simp: example_step_def split: if_splits)
  note same = example_ok_same [OF ok s]
  from s show ?thesis
  proof (cases rule: pool_actE)
    case (work i)
    from work(2) points show ?thesis
    proof (cases rule: worker_stepE)
      case (resume h)
      have "frame x \<noteq> Not_made"
        using ok resume(1) running_in_hand [OF resume(1)] ledger_ok_reach [OF reach]
        by (auto simp: example_ok_def ledger_ok_def)
      then have h: "resumed (tp x) = []" "destroyed (tp x) = []" "i < 2" "h = 0"
        using one_coroutine(2) [OF reach _ resume(1)] ok by (auto simp: example_ok_def)
      with \<open>frame x \<noteq> Not_made\<close> have f: "frame x = At_await"
        using ok by (cases "frame x") (auto simp: example_ok_def)
      have "example_ok (x\<lparr>tp := s, frame := At_final, printed := printed x @ [After_switch (Pool_thread i)]\<rparr>)"
        using ok later [OF s] f h resume(2) by (auto simp: example_ok_def)
      then show ?thesis
        using step work(1) s resume(1) f by (auto simp: example_step_def resume_frame_def)
    qed (use step work(1) s same in \<open>auto simp: example_step_def\<close>)
  next
    case (schedule h)
    with step s have f: "frame x = Not_made" "h = 0"
      and r: "r = Inr (x\<lparr>tp := s, frame := At_await, printed := [Before_switch Main_thread]\<rparr>)"
      by (auto simp: example_step_def split: if_splits)
    have "resumed (tp x) = []" "destroyed (tp x) = []"
      using ok f(1) ledger_ok_reach [OF reach] by (auto simp: example_ok_def ledger_ok_def)
    then have "example_ok (x\<lparr>tp := s, frame := At_await, printed := [Before_switch Main_thread]\<rparr>)"
      using ok f later [OF s] schedule(4) by (simp add: example_ok_def)
    with r s show ?thesis by auto
  next
    case (owner_notifies target s1)
    with notify_one_ok(5,11,12,13) [OF owner_notifies(3)] have "example_ok (x\<lparr>tp := s\<rparr>)"
      using ok by (intro same) (auto simp: example_ok_def)
    then show ?thesis using step s owner_notifies(1) by (auto simp: example_step_def)
  next
    case (worker_notifies i target s1)
    with notify_one_ok(4,5,11,12,13) [OF worker_notifies(3)] have "example_ok (x\<lparr>tp := s\<rparr>)"
      using ok by (intro same) auto
    then show ?thesis using step s worker_notifies(1) by (auto simp: example_step_def)
  next
    case clean
    have f: "frame x \<noteq> Not_made" using step clean(1) by (auto simp: example_step_def)
    then have sch: "scheduled (tp x) = [0]" using ok by (simp add: example_ok_def)
    show ?thesis
    proof (cases "mTasks (tp x) = []")
      case True
      then have "example_ok (x\<lparr>tp := s\<rparr>)" using clean f by (intro same) simp_all
      then show ?thesis using step s clean True f by (auto simp: example_step_def)
    next
      case False
      note q = one_coroutine(1) [OF reach sch False]
      then have "frame x = At_await" using ok f by (cases "frame x") (auto simp: example_ok_def)
      then show ?thesis
        using step s clean q ok later [OF s] by (auto simp: example_step_def example_ok_def)
    qed
  qed (use step s same in \<open>auto simp: example_step_def split: if_splits\<close>)
qed

lemma example_run_ok:
  assumes "example_run acts x = Some r" "example_ok x"
  shows "\<exists>y. r = Inr y \<and> example_ok y \<and> pool_run acts (tp x) = Some (tp y)"
  using assms
proof (induction acts arbitrary: x)
  case (Cons a acts)
  then obtain z where z: "example_step a x = Some z" by (auto split: option.splits)
  from example_step_ok [OF Cons.prems(2) this] obtain y where y: "z = Inr y" "example_ok y"
    "pool_act a (tp x) = Some (tp y)" by blast
  with z Cons.prems(1) Cons.IH [of y] show ?case by auto
qed auto

lemma final_stays:
  assumes "example_ok x" "example_step a x = Some (Inr y)" "frame x = At_final"
  shows "frame y = At_final"
proof (cases "a = Destruct")
  case True
  then have act: "pool_act a (tp x) = Some (tp y)"
    and y: "frame y = (if destroyed (tp y) = destroyed (tp x) then At_final else Frame_gone)"
    using assms(2,3) by (auto simp: example_step_def)
  have "resumed (tp y) = resumed (tp x)"
    using act by (cases rule: pool_actE) (use True in auto)
  moreover have "example_ok y" using example_step_ok [OF assms(1,2)] by auto
  ultimately show ?thesis using assms(1,3) y by (auto simp: example_ok_def split: if_splits)
next
  case False
  note step = assms(2) [unfolded example_step_def]
  show ?thesis
  proof (cases a)
    case (Work i)
    then show ?thesis
      using step assms(3) by (cases "pc i (tp x)") (auto simp: resume_frame_def)
  qed (use False step assms(3) in auto)
qed

lemma final_stays_run:
  assumes "example_run acts x = Some (Inr y)" "example_ok x" "frame x = At_final"
  shows "frame y = At_final"
  using assms
proof (induction acts arbitrary: x)
  case (Cons a acts)
  then obtain z where z: "example_step a x = Some (Inr z)" "example_run acts z = Some (Inr y)"
    by (auto split: option.splits sum.splits)
  with Cons.prems example_step_ok [OF Cons.prems(2) z(1)] final_stays [OF Cons.prems(2) z(1)] Cons.IH
  show ?case by blast
qed simp


section \<open>Properties\<close>

text \<open>The example is safe under every schedule, unasked wake-ups included: the coroutine is never
  resumed after its end or after its frame is gone. When \<open>main\<close> has returned, either both lines
  are printed, the second by a thread of the pool, and the finished frame has not been released,
  or the pool was destroyed first, the frame with it, and the second line never comes.\<close>

theorem example_outcome:
  assumes "example_run acts start_example = Some r"
  shows "\<exists>x. r = Inr x \<and>
    (owner_thread (tp x) = M_end \<longrightarrow>
       (frame x = At_final \<and>
          (\<exists>i < 2. printed x = [Before_switch Main_thread, After_switch (Pool_thread i)])) \<or>
       (frame x = Frame_gone \<and> printed x = [Before_switch Main_thread]))"
proof -
  obtain x where x: "r = Inr x" "example_ok x"
    using example_run_ok [OF assms example_ok_start] by blast
  have "frame x \<noteq> At_await" if "owner_thread (tp x) = M_end"
  proof
    assume f: "frame x = At_await"
    with x(2) have ok: "pool_reach 2 (tp x)" "scheduled (tp x) = [0]" "resumed (tp x) = []" "destroyed (tp x) = []"
      by (simp_all add: example_ok_def)
    have l: "mTasks (tp x) = []" "\<forall>i. pc i (tp x) = W_exit"
      using ledger_ok_reach [OF ok(1)] that by (auto simp: ledger_ok_def)
    have "in_hand (tp x) = {#}" using l(2) unfolding all_exited [symmetric]
      by (auto simp: in_hand_def list_all_iff)
    with one_coroutine(3) [OF ok(1,2,4) l(1)] ok(3) show False by simp
  qed
  with x show ?thesis by (cases "frame x") (auto simp: example_ok_def)
qed

text \<open>C25: When the second that \<open>main\<close> waits is long enough for the pool to come to rest, both lines are
  printed and \<open>main\<close> returns: the destructor is never stuck, whatever the schedule. The frame of
  the coroutine is left over.\<close>

theorem example_switches:
  assumes "example_run acts start_example = Some (Inr x)" "frame x \<noteq> Not_made"
    and "owner_thread (tp x) = M_live" "quiescent (tp x)"
    and "example_run (Destruct # later) x = Some (Inr y)" "quiescent (tp y)"
  shows "owner_thread (tp y) = M_end \<and> frame y = At_final \<and>
    (\<exists>i < 2. printed y = [Before_switch Main_thread, After_switch (Pool_thread i)])"
proof -
  have ok: "example_ok x" using example_run_ok [OF assms(1) example_ok_start] by blast
  then have reach: "pool_reach 2 (tp x)" and sch: "scheduled (tp x) = [0]"
    using assms(2) by (simp_all add: example_ok_def)
  have p: "pool_ok 2 (tp x)" by (rule pool_ok_reach [OF reach])
  note idle = quiescent_idle [OF assms(4) p]
  obtain x1 where x1: "example_step Destruct x = Some (Inr x1)" "example_run later x1 = Some (Inr y)"
    using assms(5) by (auto split: option.splits sum.splits)
  have tp1: "tp x1 = (tp x)\<lparr>mIsDone := True, owner_thread := M_stopping\<rparr>"
    using x1(1) assms(2,3) by (auto simp: example_step_def pool_act_def destructor_step_def)
  have nf: "pc i (tp x) \<noteq> W_falling" for i using idle(1) [of i] by auto
  have "settled (tp x1)" by (simp add: settled_def tp1 nf)
  moreover have "example_ok x1" using example_step_ok [OF ok x1(1)] by auto
  ultimately have y: "example_ok y" "settled (tp y)" "pool_reach 2 (tp y)"
    using example_run_ok [OF x1(2)] settled_run [of later "tp x1" "tp y" 2] by (auto simp: example_ok_def)
  have "resumed (tp x) = [0]"
    using one_coroutine(3) [OF reach sch] idle p assms(3) ledger_ok_reach [OF reach]
    by (auto simp: pool_ok_def awake_ok_def phase_ok_def ledger_ok_def)
  then have "frame x = At_final" using ok assms(2) by (cases "frame x") (auto simp: example_ok_def)
  then have "frame y = At_final" using final_stays_run [OF assms(5) ok] by simp
  with settled_ends [OF y(2,3) assms(6)] y(1) show ?thesis by (simp add: example_ok_def)
qed

text \<open>
  Both threads fall asleep, the second is woken and resumes the coroutine, then the pool is
  destroyed; and a schedule in which it is destroyed before a thread has looked at the queue.
\<close>

definition demo_switch :: "action list" where
  "demo_switch = replicate 4 (Work 0) @ replicate 4 (Work 1) @ [Schedule 0, Owner_notifies (Some 1)] @
     replicate 8 (Work 1)"

definition demo_destroy :: "action list" where
  "demo_destroy = [Destruct] @ replicate 3 (Work 0) @ replicate 3 (Work 1) @ [Destruct, Destruct]"

definition demo_early :: "action list" where
  "demo_early = [Schedule 0, Owner_notifies None, Destruct, Work 0, Work 1, Destruct, Destruct, Destruct]"

lemma example_outcome_witness:
  "case example_run demo_early start_example of
     Some (Inr x) \<Rightarrow> owner_thread (tp x) = M_end \<and> frame x = Frame_gone \<and> printed x = [Before_switch Main_thread]
   | _ \<Rightarrow> False"
proof -
  have "case example_run demo_early start_example of
     Some (Inr x) \<Rightarrow> owner_thread (tp x) = M_end \<and> frame x \<noteq> At_final | _ \<Rightarrow> False"
    by code_simp
  then obtain x where x: "example_run demo_early start_example = Some (Inr x)" "owner_thread (tp x) = M_end"
    "frame x \<noteq> At_final"
    by (auto split: option.splits sum.splits)
  from x example_outcome [OF x(1)] show ?thesis by auto
qed

lemma all_gone_quiescent:
  assumes "\<And>i. pc i s \<in> {W_asleep, W_exit}" "owner_thread s \<in> {M_live, M_end}"
  shows "quiescent s"
proof -
  have "worker_step i s = None" "pc i s \<noteq> W_notify" for i
    using assms(1) [of i] by (auto simp: worker_step_def)
  with assms(2) show ?thesis
    by (auto simp: quiescent_def internal_def pool_act_def destructor_step_def split: action.splits)
qed

lemma two_workers:
  "mWorkers s = [p, q] \<Longrightarrow> pc i s = (if i = 0 then p else if i = 1 then q else W_exit)"
  by (auto simp: pc_def less_Suc_eq)

lemma example_switches_witness:
  "\<exists>x y. example_run demo_switch start_example = Some (Inr x) \<and>
    example_run (Destruct # demo_destroy) x = Some (Inr y) \<and>
    printed y = [Before_switch Main_thread, After_switch (Pool_thread 1)] \<and> frame y = At_final"
proof -
  have "case example_run demo_switch start_example of
     Some (Inr x) \<Rightarrow> frame x \<noteq> Not_made \<and> owner_thread (tp x) = M_live \<and> mWorkers (tp x) = [W_asleep, W_asleep] \<and>
       (case example_run (Destruct # demo_destroy) x of
          Some (Inr y) \<Rightarrow> owner_thread (tp y) = M_end \<and> mWorkers (tp y) = [W_exit, W_exit] \<and>
            printed y = [Before_switch Main_thread, After_switch (Pool_thread 1)]
        | _ \<Rightarrow> False)
   | _ \<Rightarrow> False"
    by code_simp
  then obtain x where x: "example_run demo_switch start_example = Some (Inr x)" "frame x \<noteq> Not_made"
      "owner_thread (tp x) = M_live" "mWorkers (tp x) = [W_asleep, W_asleep]"
    and "case example_run (Destruct # demo_destroy) x of
          Some (Inr y) \<Rightarrow> owner_thread (tp y) = M_end \<and> mWorkers (tp y) = [W_exit, W_exit] \<and>
            printed y = [Before_switch Main_thread, After_switch (Pool_thread 1)]
        | _ \<Rightarrow> False"
    by (cases "example_run demo_switch start_example") (auto simp del: example_run.simps One_nat_def split: sum.split_asm)
  then obtain y where y: "example_run (Destruct # demo_destroy) x = Some (Inr y)" "owner_thread (tp y) = M_end"
      "mWorkers (tp y) = [W_exit, W_exit]" "printed y = [Before_switch Main_thread, After_switch (Pool_thread 1)]"
    by (cases "example_run (Destruct # demo_destroy) x") (auto simp del: example_run.simps One_nat_def split: sum.split_asm)
  have "quiescent (tp x)" "quiescent (tp y)"
    using x(3) y(2) two_workers [OF x(4)] two_workers [OF y(3)] by (auto intro!: all_gone_quiescent split: if_splits)
  from example_switches [OF x(1-3) this(1) y(1) this(2)] x(1) y(1,4) show ?thesis by blast
qed

end
