(* ===== verification/PacketQueue.thy ===== *)
theory PacketQueue
  imports Prelude
begin

text \<open>
  \<open>struct Packet\<close> and \<open>class PacketQueue\<close> of \<open>netlib/queue.h\<close>, with any number of writing
  threads and a reader. No target includes the header, and the statement
  \<open>rawbuffer_.emplace_back(data)\<close> of \<open>write_data\<close> is ill-typed (it would make a \<open>char\<close> of a
  pointer); what the other statements do is modelled. The number of a packet is taken before
  the mutex is locked, so it is a read and a write other threads can come between.
\<close>


section \<open>The queue\<close>

text \<open>\<open>Packet d;\<close> leaves the members without an initialiser indeterminate: \<open>None\<close>.\<close>

record packet =
  sec_num :: u64
  pkt_size :: "int option"
  pkt_data :: "nat option"

record packet_queue =
  pkts :: "packet list"
  next_num :: u64
  raw_buffer :: "u8 list"

definition new_packet_queue :: packet_queue where
  "new_packet_queue = \<lparr>pkts = [], next_num = 0, raw_buffer = replicate 1024 0\<rparr>"

text \<open>The steps of \<open>write_data\<close>: \<open>sec_num_++\<close> reads and writes, then the packet is pushed.\<close>

definition store_number :: "u64 \<Rightarrow> packet_queue \<Rightarrow> packet \<times> packet_queue" where
  "store_number n q = (\<lparr>sec_num = n, pkt_size = None, pkt_data = None\<rparr>, q\<lparr>next_num := n + 1\<rparr>)"

lemma new_packet_queue_simps [simp]: "pkts new_packet_queue = []" "next_num new_packet_queue = 0"
  by (simp_all add: new_packet_queue_def)

definition push_packet :: "packet \<Rightarrow> packet_queue \<Rightarrow> packet_queue" where
  "push_packet d q = q\<lparr>pkts := pkts q @ [d]\<rparr>"

definition write_data :: "packet_queue \<Rightarrow> packet_queue" where
  "write_data q = (case store_number (next_num q) q of (d, q) \<Rightarrow> push_packet d q)"

text \<open>\<open>try_get_pkt\<close>: its result, the parameter \<open>out\<close> and the queue.\<close>

definition try_get_pkt :: "packet \<Rightarrow> packet_queue \<Rightarrow> bool \<times> packet \<times> packet_queue" where
  "try_get_pkt out q =
     (case pkts q of
        [] \<Rightarrow> (False, out, q)
      | d # ds \<Rightarrow> (True, d, q\<lparr>pkts := ds\<rparr>))"


section \<open>Threads\<close>

text \<open>Where a thread is in \<open>write_data\<close>: outside, behind the read of \<open>sec_num_\<close>, or before the lock.\<close>

datatype writer = Outside | Has_number u64 | Has_packet packet

record packet_system =
  shared :: packet_queue
  writers :: "writer list"
  taken :: "packet list"     \<comment> \<open>what \<open>try_get_pkt\<close> returned, in order\<close>

datatype packet_act = Read_number nat | Write_number nat | Push nat | Get

text \<open>One step; \<open>None\<close> when the thread is not there. \<open>Get\<close> on an empty queue changes nothing.\<close>

definition packet_step :: "packet_act \<Rightarrow> packet_system \<Rightarrow> packet_system option" where
  "packet_step x s =
     (case x of
        Read_number i \<Rightarrow>
          if i < length (writers s) \<and> writers s ! i = Outside
          then Some (s\<lparr>writers := (writers s)[i := Has_number (next_num (shared s))]\<rparr>) else None
      | Write_number i \<Rightarrow>
          if i < length (writers s)
          then (case writers s ! i of
                  Has_number n \<Rightarrow>
                    (case store_number n (shared s) of
                       (d, q) \<Rightarrow> Some (s\<lparr>shared := q, writers := (writers s)[i := Has_packet d]\<rparr>))
                | _ \<Rightarrow> None)
          else None
      | Push i \<Rightarrow>
          if i < length (writers s)
          then (case writers s ! i of
                  Has_packet d \<Rightarrow>
                    Some (s\<lparr>shared := push_packet d (shared s), writers := (writers s)[i := Outside]\<rparr>)
                | _ \<Rightarrow> None)
          else None
      | Get \<Rightarrow>
          (case try_get_pkt undefined (shared s) of
             (got, d, q) \<Rightarrow> Some (if got then s\<lparr>shared := q, taken := taken s @ [d]\<rparr> else s)))"

fun packet_run :: "packet_act list \<Rightarrow> packet_system \<Rightarrow> packet_system option" where
  "packet_run [] s = Some s"
| "packet_run (x # xs) s = Option.bind (packet_step x s) (packet_run xs)"

definition packet_start :: "nat \<Rightarrow> packet_system" where
  "packet_start n = \<lparr>shared = new_packet_queue, writers = replicate n Outside, taken = []\<rparr>"

text \<open>The callers keep their calls of \<open>write_data\<close> apart: one begins when no other is under way.\<close>

fun calls_apart :: "packet_act list \<Rightarrow> packet_system \<Rightarrow> bool" where
  "calls_apart [] s = True"
| "calls_apart (x # xs) s =
     ((case x of Read_number i \<Rightarrow> list_all (\<lambda>w. w = Outside) (writers s) | _ \<Rightarrow> True) \<and>
      (case packet_step x s of None \<Rightarrow> False | Some s' \<Rightarrow> calls_apart xs s'))"


lemmas packet_step_defs =
  packet_step_def packet_start_def store_number_def push_packet_def try_get_pkt_def


section \<open>Invariants\<close>

definition packets :: "packet_system \<Rightarrow> packet list" where
  "packets s = taken s @ pkts (shared s)"

definition pushes :: "packet_act list \<Rightarrow> nat" where
  "pushes xs = length (filter (\<lambda>x. case x of Push i \<Rightarrow> True | _ \<Rightarrow> False) xs)"

text \<open>Whatever the threads do, the packets that left the queue and those in it are those pushed:
  a step appends the packet it pushes and moves the first of the queue, nothing else.\<close>

lemma packets_step:
  "packet_step x s = Some s' \<Longrightarrow>
   packets s' = packets s @
     (case x of Push i \<Rightarrow> (case writers s ! i of Has_packet d \<Rightarrow> [d] | _ \<Rightarrow> []) | _ \<Rightarrow> [])"
  by (auto simp: packet_step_def packets_def push_packet_def store_number_def try_get_pkt_def
      split: packet_act.splits if_splits writer.splits list.splits)

lemma pushed_one:
  "packet_step (Push i) s = Some s' \<Longrightarrow> \<exists>d. i < length (writers s) \<and> writers s ! i = Has_packet d"
  by (auto simp: packet_step_def split: if_splits writer.splits)

lemma length_packets_step:
  "packet_step x s = Some s' \<Longrightarrow> length (packets s') = length (packets s) + pushes [x]"
  by (cases x) (auto simp: packets_step pushes_def dest: pushed_one)

lemma length_packets:
  "packet_run xs s = Some s' \<Longrightarrow> length (packets s') = length (packets s) + pushes xs"
proof (induction xs arbitrary: s)
  case Nil
  then show ?case by (simp add: pushes_def)
next
  case (Cons x xs)
  then obtain s1 where "packet_step x s = Some s1" "packet_run xs s1 = Some s'"
    by (auto split: bind_splits)
  with Cons.IH [of s1] length_packets_step [of x s s1] show ?case
    by (simp add: pushes_def)
qed

text \<open>The packet \<open>write_data\<close> pushes under the number \<open>k\<close>.\<close>

definition packet_of :: "nat \<Rightarrow> packet" where
  "packet_of k = \<lparr>sec_num = of_nat k, pkt_size = None, pkt_data = None\<rparr>"

text \<open>With \<open>k\<close> packets pushed, what a thread holds and what the counter shows.\<close>

fun holds :: "writer \<Rightarrow> nat \<Rightarrow> u64 \<Rightarrow> bool" where
  "holds Outside k c \<longleftrightarrow> c = of_nat k"
| "holds (Has_number n) k c \<longleftrightarrow> n = of_nat k \<and> c = of_nat k"
| "holds (Has_packet d) k c \<longleftrightarrow> d = packet_of k \<and> c = of_nat (Suc k)"

definition alone :: "nat \<Rightarrow> writer list \<Rightarrow> bool" where
  "alone i ws \<longleftrightarrow> (\<forall>j<length ws. j \<noteq> i \<longrightarrow> ws ! j = Outside)"

definition numbered :: "packet_system \<Rightarrow> bool" where
  "numbered s \<longleftrightarrow>
     packets s = map packet_of [0..<length (packets s)] \<and>
     (\<exists>i<length (writers s). alone i (writers s) \<and>
        holds (writers s ! i) (length (packets s)) (next_num (shared s)))"

lemma alone_update: "alone i ws \<Longrightarrow> alone i (ws[i := w])"
  by (simp add: alone_def)

lemma alone_unique: "alone j ws \<Longrightarrow> i < length ws \<Longrightarrow> ws ! i \<noteq> Outside \<Longrightarrow> j = i"
  by (auto simp: alone_def)

lemma numberedI:
  assumes "packets s = map packet_of [0..<length (packets s)]" "i < length (writers s)"
    and "alone i (writers s)" "holds (writers s ! i) (length (packets s)) (next_num (shared s))"
  shows "numbered s"
  using assms unfolding numbered_def by blast

lemma numbered_holder:
  assumes "numbered s" "i < length (writers s)"
    and "writers s ! i \<noteq> Outside \<or> list_all (\<lambda>w. w = Outside) (writers s)"
  shows "packets s = map packet_of [0..<length (packets s)]" "alone i (writers s)"
    "holds (writers s ! i) (length (packets s)) (next_num (shared s))"
proof -
  obtain j where j: "j < length (writers s)" "alone j (writers s)"
    "holds (writers s ! j) (length (packets s)) (next_num (shared s))"
    using assms(1) unfolding numbered_def by blast
  show "packets s = map packet_of [0..<length (packets s)]"
    using assms(1) unfolding numbered_def by blast
  have "alone i (writers s) \<and> holds (writers s ! i) (length (packets s)) (next_num (shared s))"
  proof (cases "writers s ! i = Outside")
    case True
    with assms(3) have "\<forall>k<length (writers s). writers s ! k = Outside" by (simp add: list_all_length)
    with j(1,3) assms(2) show ?thesis by (simp add: alone_def)
  next
    case False
    from alone_unique [OF j(2) assms(2) this] j show ?thesis by blast
  qed
  then show "alone i (writers s)" "holds (writers s ! i) (length (packets s)) (next_num (shared s))"
    by simp_all
qed

lemma packet_step_cases:
  assumes "packet_step x s = Some s'"
  obtains (load) i where "x = Read_number i" "i < length (writers s)" "writers s ! i = Outside"
      "s' = s\<lparr>writers := (writers s)[i := Has_number (next_num (shared s))]\<rparr>"
    | (store) i n where "x = Write_number i" "i < length (writers s)" "writers s ! i = Has_number n"
      "s' = s\<lparr>shared := (shared s)\<lparr>next_num := n + 1\<rparr>,
        writers := (writers s)[i := Has_packet \<lparr>sec_num = n, pkt_size = None, pkt_data = None\<rparr>]\<rparr>"
    | (push) i d where "x = Push i" "i < length (writers s)" "writers s ! i = Has_packet d"
      "s' = s\<lparr>shared := push_packet d (shared s), writers := (writers s)[i := Outside]\<rparr>"
    | (got) "x = Get" "packets s' = packets s" "writers s' = writers s"
      "next_num (shared s') = next_num (shared s)"
proof (cases x)
  case (Read_number i)
  with assms load [of i] show ?thesis by (simp add: packet_step_def split: if_splits)
next
  case (Write_number i)
  with assms store [of i] show ?thesis
    by (simp add: packet_step_def store_number_def split: if_splits writer.splits)
next
  case (Push i)
  with assms push [of i] show ?thesis
    by (simp add: packet_step_def split: if_splits writer.splits)
next
  case Get
  with assms got show ?thesis
    by (auto simp: packet_step_def try_get_pkt_def packets_def split: list.splits)
qed

lemma numbered_step:
  assumes "packet_step x s = Some s'" "numbered s"
    and "\<And>i. x = Read_number i \<Longrightarrow> list_all (\<lambda>w. w = Outside) (writers s)"
  shows "numbered s'"
  using assms(1)
proof (cases rule: packet_step_cases)
  case (load i)
  note h = numbered_holder [OF assms(2) load(2) disjI2 [OF assms(3) [OF load(1)]]]
  show ?thesis
    using h load
    by (intro numberedI [of s' i]) (simp_all add: packets_def alone_update)
next
  case (store i n)
  have "writers s ! i \<noteq> Outside" using store(3) by simp
  note h = numbered_holder [OF assms(2) store(2) disjI1 [OF this]]
  show ?thesis
    using h store
    by (intro numberedI [of s' i]) (simp_all add: packets_def alone_update packet_of_def add.commute)
next
  case (push i d)
  have "writers s ! i \<noteq> Outside" using push(3) by simp
  note h = numbered_holder [OF assms(2) push(2) disjI1 [OF this]]
  have p: "packets s' = packets s @ [packet_of (length (packets s))]"
    using h(3) push by (simp add: packets_def push_packet_def)
  then have "packets s' = map packet_of [0..<length (packets s')]"
    using h(1) by (metis (no_types) length_append_singleton list.simps(8,9) map_append upt_Suc_append zero_le)
  with p h push show ?thesis
    by (intro numberedI [of s' i]) (simp_all add: alone_update push_packet_def)
next
  case got
  with assms(2) show ?thesis by (simp add: numbered_def)
qed

lemma numbered_run:
  "packet_run xs s = Some s' \<Longrightarrow> calls_apart xs s \<Longrightarrow> numbered s \<Longrightarrow> numbered s'"
proof (induction xs arbitrary: s)
  case Nil
  then show ?case by simp
next
  case (Cons x xs)
  then obtain s1 where s1: "packet_step x s = Some s1" "packet_run xs s1 = Some s'"
    by (auto split: bind_splits)
  from s1(1) Cons.prems(2) have "list_all (\<lambda>w. w = Outside) (writers s)" if "x = Read_number i" for i
    using that by simp
  from numbered_step [OF s1(1) Cons.prems(3) this] s1 Cons.prems(2) Cons.IH show ?case by simp
qed

text \<open>A single writer keeps its own calls apart.\<close>

lemma single_writer_apart:
  "packet_run xs s = Some s' \<Longrightarrow> length (writers s) = 1 \<Longrightarrow> calls_apart xs s"
proof (induction xs arbitrary: s)
  case Nil
  then show ?case by simp
next
  case (Cons x xs)
  then obtain s1 where s1: "packet_step x s = Some s1" "packet_run xs s1 = Some s'"
    by (auto split: bind_splits)
  from s1(1) Cons.prems(2) have "length (writers s1) = 1"
    and "\<And>i. x = Read_number i \<Longrightarrow> list_all (\<lambda>w. w = Outside) (writers s)"
    by (cases rule: packet_step_cases; auto simp: list_all_length)+
  with Cons.IH s1 show ?case by (auto split: packet_act.split)
qed


section \<open>Properties\<close>



text \<open>The steps of an undisturbed call are \<open>write_data\<close>.\<close>

lemma write_data_steps:
  assumes "i < length (writers s)" "writers s ! i = Outside"
  shows "packet_run [Read_number i, Write_number i, Push i] s = Some (s\<lparr>shared := write_data (shared s)\<rparr>)"
proof -
  have "(writers s)[i := Outside] = writers s" using assms by (metis list_update_id)
  with assms show ?thesis
    by (simp add: packet_step_def write_data_def store_number_def push_packet_def)
qed

text \<open>
  Two writers whose calls overlap: both read the counter before either stores it, and two
  packets carry the number 0; or one is overtaken between its increment and the lock, and the
  packets leave the queue out of order. The mutex, locked after the increment, prevents neither.
\<close>

theorem packet_numbers_race:
  "map_option (\<lambda>s. map sec_num (taken s))
     (packet_run [Read_number 0, Read_number 1, Write_number 0, Write_number 1, Push 0, Push 1, Get, Get]
       (packet_start 2)) = Some [0, 0] \<and>
   map_option (\<lambda>s. map sec_num (taken s))
     (packet_run [Read_number 0, Write_number 0, Read_number 1, Write_number 1, Push 1, Push 0, Get, Get]
       (packet_start 2)) = Some [1, 0]"
  by (simp add: packet_step_defs numeral_2_eq_2)

end
