(* ===== verification/RelayNetwork.thy ===== *)
theory RelayNetwork
  imports UringOwnership EpollBehaviour
begin

text \<open>
  The relays of \<open>mync\<close> connected: what is typed at a client, what arrives at a server and what
  the server counts. Two interfaces, each met by two implementations: a client that relays
  bytes (the epoll loop and the \<open>io_uring\<close> relay in client mode) and a server that counts them
  per connection (a worker's epoll loop and the \<open>io_uring\<close> relay in listen mode).
\<close>


section \<open>Runs of a step function\<close>

fun run_steps :: "('x \<Rightarrow> 's \<Rightarrow> 's option) \<Rightarrow> 'x list \<Rightarrow> 's \<Rightarrow> 's option" where
  "run_steps step [] s = Some s"
| "run_steps step (x # xs) s = Option.bind (step x s) (run_steps step xs)"

text \<open>The environment keeps its part of the contract at every step of a run.\<close>

fun run_ok :: "('x \<Rightarrow> 's \<Rightarrow> bool) \<Rightarrow> ('x \<Rightarrow> 's \<Rightarrow> 's option) \<Rightarrow> 'x list \<Rightarrow> 's \<Rightarrow> bool" where
  "run_ok ok step [] s = True"
| "run_ok ok step (x # xs) s =
     (ok x s \<and> (case step x s of None \<Rightarrow> True | Some s' \<Rightarrow> run_ok ok step xs s'))"

lemma run_invariant:
  assumes "run_steps step xs s = Some s'" "run_ok ok step xs s" "I [] s"
    and "\<And>x ys t t'. \<lbrakk> I ys t; ok x t; step x t = Some t' \<rbrakk> \<Longrightarrow> I (ys @ [x]) t'"
  shows "I xs s'"
proof -
  have "I (ys @ xs) s'"
    if "run_steps step xs s = Some s'" "run_ok ok step xs s" "I ys s" for ys
    using that
  proof (induction xs arbitrary: s ys)
    case Nil
    then show ?case by simp
  next
    case (Cons x xs)
    then obtain t where t: "step x s = Some t" "run_steps step xs t = Some s'"
      by (auto split: bind_splits)
    with Cons.prems assms(4) [of ys s x t] Cons.IH [of t "ys @ [x]"] show ?case by simp
  qed
  from this [of "[]"] assms(1-3) show ?thesis by simp
qed


section \<open>Clients\<close>

text \<open>
  A client that relays: a step appends what was typed to what went to the socket, and what
  arrived from the socket to what went to standard output.
\<close>

locale byte_relay =
  fixes step :: "'x \<Rightarrow> 's \<Rightarrow> 's option"
    and wf :: "'s \<Rightarrow> bool"
    and ok :: "'x \<Rightarrow> 's \<Rightarrow> bool"
    and sent :: "'s \<Rightarrow> u8 list"
    and shown :: "'s \<Rightarrow> u8 list"
    and typed :: "'x \<Rightarrow> u8 list"
    and arrived :: "'x \<Rightarrow> u8 list"
  assumes relays: "wf s \<Longrightarrow> ok x s \<Longrightarrow> step x s = Some s' \<Longrightarrow>
    wf s' \<and> sent s' = sent s @ typed x \<and> shown s' = shown s @ arrived x"
begin

lemma relays_run:
  assumes "run_steps step xs s = Some s'" "run_ok ok step xs s" "wf s"
  shows "sent s' = sent s @ concat (map typed xs)" "shown s' = shown s @ concat (map arrived xs)"
proof -
  let ?I = "\<lambda>ys t. wf t \<and> sent t = sent s @ concat (map typed ys) \<and>
    shown t = shown s @ concat (map arrived ys)"
  have "?I xs s'"
  proof (rule run_invariant [OF assms(1,2), where I = ?I])
    show "?I [] s" using assms(3) by simp
    fix x ys t t'
    assume "?I ys t" "ok x t" "step x t = Some t'"
    with relays [of t x t'] show "?I (ys @ [x]) t'" by simp
  qed
  then show "sent s' = sent s @ concat (map typed xs)" "shown s' = shown s @ concat (map arrived xs)"
    by simp_all
qed

end


subsection \<open>The epoll client\<close>

definition epoll_client_step :: "fp \<Rightarrow> epoll_event \<times> answers \<Rightarrow> epoll \<times> world \<Rightarrow> (epoll \<times> world) option" where
  "epoll_client_step f x s =
     (case exec_event Epoll_base f (snd x) (fst x) (fst s) (snd s) of Inl _ \<Rightarrow> None | Inr s' \<Rightarrow> Some s')"

definition epoll_client_ok :: "epoll_event \<times> answers \<Rightarrow> epoll \<times> world \<Rightarrow> bool" where
  "epoll_client_ok x s \<longleftrightarrow> \<not> hangs_up (fst x) \<and> 0 \<le> ev_fd (fst x)"

definition epoll_typed :: "epoll_event \<times> answers \<Rightarrow> u8 list" where
  "epoll_typed x = input_of STDIN_FILENO a_stdin [x]"

definition epoll_arrived :: "fd \<Rightarrow> epoll_event \<times> answers \<Rightarrow> u8 list" where
  "epoll_arrived sock x = input_of sock a_recv [x]"

lemma run_epoll_client:
  "run_steps (epoll_client_step f) batch (e, w) = Some s \<longleftrightarrow> exec_events Epoll_base f batch e w = Inr s"
proof (induction batch arbitrary: e w)
  case Nil
  then show ?case by auto
next
  case (Cons x batch)
  show ?case
  proof (cases "exec_event Epoll_base f (snd x) (fst x) e w")
    case (Inl y)
    then show ?thesis by (cases x) (simp add: epoll_client_step_def then_do_def)
  next
    case (Inr t)
    with Cons.IH show ?thesis
      by (cases x; cases t) (simp add: epoll_client_step_def then_do_def)
  qed
qed

interpretation epoll_client: byte_relay "epoll_client_step f" "\<lambda>s. client_ok (fst s) \<and> sockfd (fst s) = sock"
  epoll_client_ok "\<lambda>s. sent_bytes sock (calls (snd s))" "\<lambda>s. written_bytes (calls (snd s))"
  epoll_typed "epoll_arrived sock" for f sock
proof unfold_locales
  fix s s' x
  assume c: "client_ok (fst s) \<and> sockfd (fst s) = sock" and ok: "epoll_client_ok x s"
    and step: "epoll_client_step f x s = Some s'"
  from step have "exec_event Epoll_base f (snd x) (fst x) (fst s) (snd s) = Inr (fst s', snd s')"
    by (simp add: epoll_client_step_def split: sum.splits)
  from client_relays_event [OF conjunct1 [OF c] _ this] ok c
  show "(client_ok (fst s') \<and> sockfd (fst s') = sock) \<and>
      sent_bytes sock (calls (snd s')) = sent_bytes sock (calls (snd s)) @ epoll_typed x \<and>
      written_bytes (calls (snd s')) = written_bytes (calls (snd s)) @ epoll_arrived sock x"
    by (simp add: epoll_client_ok_def epoll_typed_def epoll_arrived_def)
qed


subsection \<open>The \<open>io_uring\<close> client\<close>

text \<open>A completion: its request, its result, the bytes read and the answers to its handler.\<close>

type_synonym completion = "request \<times> int \<times> u8 list \<times> relay_answers"

definition uring_step :: "fp \<Rightarrow> completion \<Rightarrow> relay \<Rightarrow> relay option" where
  "uring_step f x r =
     (case x of (req, res, buf, a) \<Rightarrow>
        if rstdin_closed r \<or> rsocket_closed r then None else Some (complete f a req res buf r))"

text \<open>The ring delivers a read in flight with the bytes its result counts, and \<open>send\<close> takes them all.\<close>

definition uring_client_ok :: "completion \<Rightarrow> relay \<Rightarrow> bool" where
  "uring_client_ok x r \<longleftrightarrow>
     (case x of (req, res, buf, a) \<Rightarrow>
        offered req res r \<and> res = int (length buf) \<and> u_sent a (rsock r) = res)"

definition uring_read :: "op_type \<Rightarrow> completion \<Rightarrow> u8 list" where
  "uring_read t x = (case x of (req, res, buf, a) \<Rightarrow> if r_type req = t then buf else [])"

definition uring_client_wf :: "fd \<Rightarrow> relay \<Rightarrow> bool" where
  "uring_client_wf sock r \<longleftrightarrow>
     fits False {#} r \<and> \<not> rlisten r \<and> rclients r = [] \<and> rsock r = sock"

lemma client_request:
  assumes "uring_client_wf sock r" "offered req res r"
  shows "r_type req = STDIN_READ \<or> r_type req = SOCKET_READ"
proof -
  have "(r_type req, r_fd req) \<in># kinds r"
    using assms(2) by (simp add: kinds_def kind_def offered_def image_iff) (metis kind_def)
  then have "(r_type req, r_fd req) \<in># wanted r"
    using assms(1) by (auto simp: uring_client_wf_def fits_def dest: mset_subset_eqD)
  with assms(1) show ?thesis
    by (auto simp: uring_client_wf_def wanted_def client_kinds_def)
qed

interpretation uring_client: byte_relay "uring_step f" "uring_client_wf sock" uring_client_ok
  "\<lambda>r. sent_bytes sock (rcalls r)" "\<lambda>r. written_bytes (rcalls r)"
  "uring_read STDIN_READ" "uring_read SOCKET_READ" for f sock
proof unfold_locales
  fix r r' x
  assume wf: "uring_client_wf sock r" and ok: "uring_client_ok x r" and step: "uring_step f x r = Some r'"
  obtain req res buf a where x: "x = (req, res, buf, a)" by (cases x)
  have off: "offered req res r" and res: "res = int (length buf)" "u_sent a sock = res"
    using ok wf by (auto simp: x uring_client_ok_def uring_client_wf_def)
  have open_: "\<not> rstdin_closed r" "\<not> rsocket_closed r" and r': "r' = complete f a req res buf r"
    using step by (simp_all add: x uring_step_def split: if_splits)
  have "fits False {#} r'"
    unfolding r' using wf off open_ by (intro fits_complete) (simp_all add: uring_client_wf_def)
  moreover have "rclients r' = []"
    using wf client_request [OF wf off] by (auto simp: r' complete_clients clients_after_def uring_client_wf_def)
  ultimately have "uring_client_wf sock r'"
    using wf by (simp add: uring_client_wf_def r')
  moreover from client_request [OF wf off]
  have "sent_bytes sock (rcalls r') = sent_bytes sock (rcalls r) @ uring_read STDIN_READ x \<and>
    written_bytes (rcalls r') = written_bytes (rcalls r) @ uring_read SOCKET_READ x"
  proof
    assume "r_type req = STDIN_READ"
    with wf res show ?thesis
      by (simp add: r' x complete_def handle_stdin_read_def uring_read_def uring_client_wf_def Let_def)
  next
    assume "r_type req = SOCKET_READ"
    with wf res show ?thesis
      by (simp add: r' x complete_def handle_socket_read_def uring_read_def uring_client_wf_def Let_def)
  qed
  ultimately show "uring_client_wf sock r' \<and>
      sent_bytes sock (rcalls r') = sent_bytes sock (rcalls r) @ uring_read STDIN_READ x \<and>
      written_bytes (rcalls r') = written_bytes (rcalls r) @ uring_read SOCKET_READ x"
    by blast
qed


section \<open>Servers\<close>

text \<open>
  A server that counts: \<open>count\<close> is the counter of a connection, if it has it, and \<open>hist\<close> the
  history of what was received over it, from when the server got it until it lost it.
\<close>

definition counted :: "u8 list option \<Rightarrow> u64 option" where
  "counted h = map_option (\<lambda>bs. of_nat (length bs)) h"

lemma counted_simps [simp]:
  "counted None = None" "counted (Some bs) = Some (of_nat (length bs))"
  "counted (map_option (\<lambda>h. h @ bs) h) = map_option (\<lambda>n. n + of_nat (length bs)) (counted h)"
  by (simp_all add: counted_def option.map_comp comp_def)

locale byte_counter =
  fixes step :: "'x \<Rightarrow> 's \<Rightarrow> 's option"
    and wf :: "'s \<Rightarrow> bool"
    and ok :: "'x \<Rightarrow> 's \<Rightarrow> bool"
    and count :: "'s \<Rightarrow> u64 option"
    and hist :: "'x \<Rightarrow> u8 list option \<Rightarrow> u8 list option"
  assumes counts: "wf s \<Longrightarrow> ok x s \<Longrightarrow> step x s = Some s' \<Longrightarrow> count s = counted h \<Longrightarrow>
    wf s' \<and> count s' = counted (hist x h)"
begin

lemma counts_run:
  assumes "run_steps step xs s = Some s'" "run_ok ok step xs s" "wf s" "count s = counted h"
  shows "count s' = counted (fold hist xs h)"
proof -
  let ?I = "\<lambda>ys t. wf t \<and> count t = counted (fold hist ys h)"
  have "?I xs s'"
  proof (rule run_invariant [OF assms(1,2), where I = ?I])
    show "?I [] s" using assms(3,4) by simp
    fix x ys t t'
    assume "?I ys t" "ok x t" "step x t = Some t'"
    with counts [of t x t'] show "?I (ys @ [x]) t'" by simp
  qed
  then show ?thesis by simp
qed

end


subsection \<open>A worker of the epoll server\<close>

text \<open>What moves a worker's loop: an event it handles, or a connection the accepting thread hands over.\<close>

datatype loop_input = Event epoll_event answers | Handed_over fd stats

definition worker_input :: "fp \<Rightarrow> loop_input \<Rightarrow> epoll \<times> world \<Rightarrow> (epoll \<times> world) option" where
  "worker_input f x s =
     (case x of
        Event ev a \<Rightarrow> (case exec_event Epoll_base f a ev (fst s) (snd s) of Inl _ \<Rightarrow> None | Inr s' \<Rightarrow> Some s')
      | Handed_over fd st \<Rightarrow> Some (push_external_socket fd st (fst s), snd s))"

definition worker_count :: "fd \<Rightarrow> epoll \<Rightarrow> u64 option" where
  "worker_count c e =
     map_option total_bytes
       (case umap_find c (clients e) of None \<Rightarrow> umap_find c (pending_new_socks e) | Some st \<Rightarrow> Some st)"

definition worker_wf :: "epoll \<Rightarrow> bool" where
  "worker_wf e \<longleftrightarrow> \<not> is_listen e \<and> distinct (map fst (clients e @ pending_new_socks e))"

text \<open>
  An event of \<open>c\<close> is reported to a loop that watches it, which is not one of the loop's own
  descriptors; a connection handed over is a new one and has counted nothing.
\<close>

definition worker_ok :: "fd \<Rightarrow> loop_input \<Rightarrow> epoll \<times> world \<Rightarrow> bool" where
  "worker_ok c x s \<longleftrightarrow>
     (case x of
        Event ev a \<Rightarrow> ev_fd ev = c \<longrightarrow>
          umap_count c (clients (fst s)) \<and>
          c \<notin> {STDIN_FILENO, sockfd (fst s), timerfd (fst s), wakeup_fd (fst s)}
      | Handed_over fd st \<Rightarrow>
          fd \<notin> fst ` set (clients (fst s) @ pending_new_socks (fst s)) \<and> total_bytes st = 0)"

fun worker_hist :: "fd \<Rightarrow> loop_input \<Rightarrow> u8 list option \<Rightarrow> u8 list option" where
  "worker_hist c (Event ev a) h =
     (if ev_fd ev \<noteq> c then h
      else if hangs_up ev then None
      else if readable ev then
        (case a_recv a of Received (b # bs) \<Rightarrow> map_option (\<lambda>h. h @ b # bs) h | _ \<Rightarrow> None)
      else h)"
| "worker_hist c (Handed_over fd st) h = (if fd = c then Some [] else h)"

lemma report_keeps_total:
  assumes "checkFourGigabytes f now (updateBps f now st) = (over, text, st')"
  shows "total_bytes st' = total_bytes st"
proof -
  have "total_bytes (updateBps f now st) = total_bytes st"
    by (simp add: updateBps_def Let_def)
  with assms show ?thesis
    by (auto simp: checkFourGigabytes_def Let_def split: if_splits)
qed

lemma update_stats_keeps:
  "map_option total_bytes (umap_find c (fst (update_stats f now m))) = map_option total_bytes (umap_find c m)"
  by (induction f now m rule: update_stats.induct)
    (auto simp: umap_find_def report_keeps_total split: prod.splits)

text \<open>What an event can do to the connections of a loop that does not accept.\<close>

lemma loop_event_cases:
  assumes "exec_event c f a ev e w = Inr (e', w')" "worker_wf e"
  obtains (none) "clients e' = clients e" "pending_new_socks e' = pending_new_socks e"
      "is_listen e' = is_listen e"
      "\<not> hangs_up ev \<and> \<not> readable ev \<or> ev_fd ev \<in> {STDIN_FILENO, sockfd e, timerfd e} \<or>
         \<not> umap_count (ev_fd ev) (clients e)"
  | (drained) "clients e' = clients e @ pending_new_socks e" "pending_new_socks e' = []"
      "is_listen e' = is_listen e" "ev_fd ev = wakeup_fd e"
  | (updated) "clients e' = fst (update_stats f (a_now a) (clients e))"
      "pending_new_socks e' = pending_new_socks e" "is_listen e' = is_listen e" "ev_fd ev = timerfd e"
  | (lost) "clients e' = umap_erase (ev_fd ev) (clients e)"
      "pending_new_socks e' = pending_new_socks e" "is_listen e' = is_listen e"
      "hangs_up ev \<or> readable ev \<and> (\<forall>b bs. a_recv a \<noteq> Received (b # bs))"
  | (received) b bs where "a_recv a = Received (b # bs)" "umap_count (ev_fd ev) (clients e)"
      "clients e' = umap_modify (ev_fd ev) (new_stats (a_now a)) (addBytes (length (b # bs))) (clients e)"
      "pending_new_socks e' = pending_new_socks e" "is_listen e' = is_listen e"
      "\<not> hangs_up ev" "readable ev"
proof -
  have wf: "\<not> is_listen e" "distinct (map fst (clients e @ pending_new_socks e))"
    using assms(2) by (simp_all add: worker_wf_def)
  consider (hang) "hangs_up ev" | (idle) "\<not> hangs_up ev" "\<not> readable ev" | (data) "readable ev"
    by blast
  then show thesis
  proof cases
    case hang
    with assms(1) none lost show thesis
      by (auto simp: exec_event_def hangs_up_def Let_def remove_client_def split: if_splits)
  next
    case idle
    with assms(1) none show thesis
      by (auto simp: exec_event_def hangs_up_def readable_def Let_def)
  next
    case data
    then have ev: "evs ev AND (EPOLLHUP OR EPOLLRDHUP OR EPOLLERR) = 0" "evs ev AND EPOLLIN \<noteq> 0"
        "\<not> hangs_up ev"
      by (simp_all add: readable_def hangs_up_def)
    consider (wake) "0 < wakeup_fd e" "ev_fd ev = wakeup_fd e"
      | (stdin) "handle_stdin a e w = Inr (e', w')" "ev_fd ev = STDIN_FILENO"
      | (timer) "handle_timer f a e w = Inr (e', w')" "ev_fd ev = timerfd e"
      | (sock) "handle_socket_data c a e w = Inr (e', w')" "ev_fd ev = sockfd e"
      | (client) "handle_client_data a (ev_fd ev) e w = Inr (e', w')" "umap_count (ev_fd ev) (clients e)"
      | (other) "e' = e" "\<not> umap_count (ev_fd ev) (clients e)"
      using assms(1) ev by (auto simp: exec_event_def Let_def split: if_splits)
    then show thesis
    proof cases
      case wake
      then have "drain_pending a (pending_new_socks e) e w = (e', w')"
        using assms(1) ev by (simp add: exec_event_def Let_def)
      with drain_pending_eq [OF wf(2)] wake(2) drained show thesis by auto
    next
      case stdin
      then show thesis
        by (intro none)
          (auto simp: handle_stdin_def Let_def split: recv_result.splits list.splits if_splits)
    next
      case timer
      show thesis
      proof (cases "a_timer_read a = 8")
        case True
        with timer updated show thesis by (auto simp: handle_timer_def split: prod.splits)
      next
        case False
        with timer have "e' = e" by (simp add: handle_timer_def)
        with timer(2) show thesis by (intro none) simp_all
      qed
    next
      case sock
      with wf(1) show thesis
        by (intro none)
          (auto simp: handle_socket_data_def write_to_stdout_def split: recv_result.splits list.splits if_splits)
    next
      case client
      show thesis
      proof (cases "\<exists>b bs. a_recv a = Received (b # bs)")
        case True
        with client data ev received show thesis
          by (auto simp: handle_client_data_def Let_def split: prod.splits if_splits)
      next
        case False
        with client(1) have "(e', w') = remove_client (ev_fd ev) e w"
          by (auto simp: handle_client_data_def split: recv_result.splits list.splits)
        with False data show thesis by (intro lost) (simp_all add: remove_client_def)
      qed
    next
      case other
      then show thesis by (intro none) simp_all
    qed
  qed
qed

text \<open>What an input does to the counter of one connection.\<close>

lemma find_split:
  assumes "distinct (map fst (m @ ps))" "umap_count c m"
  shows "umap_find c ps = None"
  using assms by (auto simp: umap_count_def umap_find_def map_of_eq_None_iff)

lemma umap_find_snoc:
  "umap_find k (m @ [(k', v)]) =
     (case umap_find k m of None \<Rightarrow> if k = k' then Some v else None | Some v' \<Rightarrow> Some v')"
  by (auto simp: umap_find_def map_add_def split: option.split)

lemma worker_count_client [simp]:
  "umap_find c (clients e) = Some st \<Longrightarrow> worker_count c e = Some (total_bytes st)"
  by (simp add: worker_count_def)

lemma worker_event_wf:
  assumes "exec_event Epoll_base f a ev e w = Inr (e', w')" "worker_wf e"
  shows "worker_wf e'"
  using assms
proof (cases rule: loop_event_cases)
  case updated
  obtain m out where "update_stats f (a_now a) (clients e) = (m, out)" by fastforce
  with updated update_stats_frame(1) [OF this] assms(2) show ?thesis
    by (simp add: worker_wf_def)
next
  case lost
  with assms(2) show ?thesis
    by (auto simp: worker_wf_def umap_erase_def distinct_map_filter)
next
  case (received b bs)
  with assms(2) umap_modify_keys_present show ?thesis
    by (simp add: worker_wf_def umap_modify_keys_present)
qed (use assms(2) in \<open>simp_all add: worker_wf_def\<close>)

lemma worker_event_other:
  assumes "exec_event Epoll_base f a ev e w = Inr (e', w')" "worker_wf e" "ev_fd ev \<noteq> c"
  shows "worker_count c e' = worker_count c e"
  using assms(1,2)
proof (cases rule: loop_event_cases)
  case none
  then show ?thesis by (simp only: worker_count_def)
next
  case drained
  then show ?thesis
    by (auto simp: worker_count_def umap_find_def map_add_def split: option.split)
next
  case updated
  with update_stats_keeps [of c f "a_now a" "clients e"] show ?thesis
    by (auto simp: worker_count_def split: option.split)
next
  case lost
  with assms(3) [symmetric] show ?thesis by (simp only: worker_count_def umap_find_erase if_False)
next
  case (received b bs)
  with assms(3) [symmetric] show ?thesis by (simp only: worker_count_def umap_find_modify if_False)
qed

lemma worker_event_counts:
  assumes "exec_event Epoll_base f a ev e w = Inr (e', w')" "worker_wf e"
    and "worker_ok c (Event ev a) (e, w)" "worker_count c e = counted h"
  shows "worker_count c e' = counted (worker_hist c (Event ev a) h)"
proof (cases "ev_fd ev = c")
  case True
  with assms(3) obtain st where c: "umap_count c (clients e)" "umap_find c (clients e) = Some st"
    "c \<notin> {STDIN_FILENO, sockfd e, timerfd e, wakeup_fd e}"
    by (auto simp: worker_ok_def umap_count_find)
  have p: "umap_find c (pending_new_socks e) = None"
    using assms(2) c(1) find_split [of "clients e" "pending_new_socks e" c]
    unfolding worker_wf_def by blast
  have h: "counted h = Some (total_bytes st)"
    using c(2) assms(4) by simp
  from assms(1,2) show ?thesis
  proof (cases rule: loop_event_cases)
    case none
    with True c h show ?thesis by (auto simp: worker_count_def)
  next
    case lost
    with True p show ?thesis
      by (auto simp: worker_count_def umap_find_erase readable_def split: recv_result.split list.split)
  next
    case (received b bs)
    with True c h show ?thesis by (auto simp: worker_count_def umap_find_modify addBytes_def)
  qed (use True c in simp_all)
next
  case False
  with worker_event_other [OF assms(1,2) False] assms(4) show ?thesis by simp
qed

interpretation worker: byte_counter "worker_input f" "\<lambda>s. worker_wf (fst s)" "worker_ok c"
  "\<lambda>s. worker_count c (fst s)" "worker_hist c" for f c
proof unfold_locales
  fix s s' x h
  assume wf: "worker_wf (fst s)" and ok: "worker_ok c x s" and step: "worker_input f x s = Some s'"
    and h: "worker_count c (fst s) = counted h"
  show "worker_wf (fst s') \<and> worker_count c (fst s') = counted (worker_hist c x h)"
  proof (cases x)
    case (Event ev a)
    with step have "exec_event Epoll_base f a ev (fst s) (snd s) = Inr (fst s', snd s')"
      by (simp add: worker_input_def split: sum.splits)
    with worker_event_wf [OF this wf] worker_event_counts [OF this wf _ h] ok Event show ?thesis
      by simp
  next
    case (Handed_over fd st)
    with step have s': "s' = (push_external_socket fd st (fst s), snd s)"
      by (simp add: worker_input_def)
    have new: "umap_find fd (clients (fst s)) = None" "umap_find fd (pending_new_socks (fst s)) = None"
      and zero: "total_bytes st = 0" and fd: "fd \<notin> fst ` set (clients (fst s) @ pending_new_socks (fst s))"
      using ok Handed_over by (auto simp: worker_ok_def umap_find_def map_of_eq_None_iff)
    show ?thesis
      using wf h new zero fd Handed_over
      by (auto simp: s' worker_wf_def worker_count_def push_external_socket_def umap_find_snoc
          split: option.split)
  qed
qed


subsection \<open>The \<open>io_uring\<close> server\<close>

definition relay_count :: "fd \<Rightarrow> relay \<Rightarrow> u64 option" where
  "relay_count c r = map_option total_bytes (umap_find c (rclients r))"

definition uring_server_ok :: "completion \<Rightarrow> relay \<Rightarrow> bool" where
  "uring_server_ok x r \<longleftrightarrow>
     (case x of (req, res, buf, a) \<Rightarrow> offered req res r \<and> (0 < res \<longrightarrow> r_type req = CLIENT_READ \<longrightarrow> res = int (length buf)))"

definition relay_hist :: "fd \<Rightarrow> completion \<Rightarrow> u8 list option \<Rightarrow> u8 list option" where
  "relay_hist c x h =
     (case x of (req, res, buf, a) \<Rightarrow>
        if r_type req = ACCEPT \<and> 0 \<le> res \<and> res = c then Some []
        else if r_type req = CLIENT_READ \<and> r_fd req = c
        then (if 0 < res then map_option (\<lambda>h. h @ buf) h else None)
        else h)"

lemma relay_update_stats_keeps:
  "map_option total_bytes (umap_find c (fst (relay_update_stats f now m))) =
   map_option total_bytes (umap_find c m)"
  by (induction f now m rule: relay_update_stats.induct)
    (auto simp: umap_find_def report_keeps_total split: prod.splits)

interpretation uring_server: byte_counter "uring_step f" "\<lambda>r. umap_wf (rclients r)" uring_server_ok
  "relay_count c" "relay_hist c" for f c
proof unfold_locales
  fix r r' x h
  assume wf: "umap_wf (rclients r)" and ok: "uring_server_ok x r" and step: "uring_step f x r = Some r'"
    and h: "relay_count c r = counted h"
  obtain req res buf a where x: "x = (req, res, buf, a)" by (cases x)
  have r': "r' = complete f a req res buf r"
    using step by (simp add: x uring_step_def split: if_splits)
  have off: "offered req res r" "0 < res \<longrightarrow> r_type req = CLIENT_READ \<longrightarrow> res = int (length buf)"
    using ok by (simp_all add: x uring_server_ok_def)
  have m: "rclients r' = clients_after f a req res r" by (simp add: r' complete_clients)
  have "relay_count c r' = counted (relay_hist c x h)"
  proof (cases "r_type req")
    case ACCEPT
    with off(1) h show ?thesis
      by (auto simp: relay_count_def m x clients_after_def relay_hist_def offered_def umap_find_emplace
          umap_count_find new_stats_def)
  next
    case TIMER_READ
    with h relay_update_stats_keeps [of c f "u_now a" "rclients r"] show ?thesis
      by (simp add: relay_count_def m x clients_after_def relay_hist_def)
  next
    case CLIENT_READ
    with off(2) show ?thesis
      by (auto simp: h [symmetric] relay_count_def m x clients_after_def relay_hist_def umap_find_set
          umap_find_erase addBytes_def split: option.splits)
  qed (use h in \<open>simp_all add: relay_count_def m x clients_after_def relay_hist_def\<close>)
  moreover have "umap_wf (rclients r')" unfolding r' using wf by (rule complete_wf)
  ultimately show "umap_wf (rclients r') \<and> relay_count c r' = counted (relay_hist c x h)" by blast
qed


section \<open>Starting\<close>

lemma epoll_client_start:
  assumes "new_epoll sock False False s w0 = Inr (e, w)" "0 < sock" "0 < s_eventfd s" "s_eventfd s \<noteq> sock"
  shows "client_ok e \<and> sockfd e = sock" "sent_bytes sock (calls w) = sent_bytes sock (calls w0)"
    "written_bytes (calls w) = written_bytes (calls w0)"
  using assms new_epoll_state [OF assms(1)]
  by (auto simp: client_ok_def timer_kept_def new_epoll_def setup_epoll_def Let_def opened_def
      setup_add_def split: if_splits)

lemma worker_start:
  assumes "new_epoll (-1) False False s w0 = Inr (e, w)"
  shows "worker_wf e" "worker_count c e = counted None"
  using new_epoll_state(1) [OF assms] by (simp_all add: worker_wf_def worker_count_def)

lemma uring_client_start:
  assumes "new_relay a ring created armed sock False = Inr r"
  shows "uring_client_wf sock r" "rcalls r = []"
proof -
  from relay_start(1) [OF assms] assms show "uring_client_wf sock r"
    by (auto simp: uring_client_wf_def new_relay_def Let_def submit_defs enqueue_request_def split: if_splits)
  from assms show "rcalls r = []"
    by (auto simp: new_relay_def Let_def submit_defs enqueue_request_def split: if_splits)
qed

lemma uring_server_start:
  assumes "new_relay a ring created armed sock True = Inr r"
  shows "umap_wf (rclients r)" "relay_count c r = counted None"
  using relay_start(2) [OF assms] fits_new(2) [OF assms, of False] by (simp_all add: relay_count_def)


section \<open>Properties\<close>




section \<open>Witnesses\<close>

text \<open>
  The same two letters typed, and the same two received, in one read each and in two: at a
  client on descriptor 3, and over the connection 9 of a server.
\<close>

definition quiet :: world where
  "quiet = \<lparr>g_should_stop = False, calls = [], subepolls = []\<rparr>"

definition demo_typing :: "(epoll_event \<times> answers) list" where
  "demo_typing =
     [(\<lparr>ev_fd = 0, evs = 1\<rparr>, demo_answers\<lparr>a_stdin := Received [104, 105], a_sent := (\<lambda>fd. 2)\<rparr>),
      (\<lparr>ev_fd = 3, evs = 1\<rparr>, demo_answers\<lparr>a_recv := Received [111, 107], a_stdout := 2\<rparr>)]"

definition demo_completions :: "completion list" where
  "demo_completions =
     [(demo_request STDIN_READ 0 0, 1, [104], (demo_ring 0)\<lparr>u_sent := (\<lambda>fd. 1)\<rparr>),
      (demo_request SOCKET_READ 3 1, 2, [111, 107], (demo_ring 0)\<lparr>u_sent := (\<lambda>fd. 2)\<rparr>),
      (demo_request STDIN_READ 0 2, 1, [105], (demo_ring 0)\<lparr>u_sent := (\<lambda>fd. 1)\<rparr>)]"

definition demo_worker_inputs :: "loop_input list" where
  "demo_worker_inputs =
     [Handed_over 9 (new_stats 1), Event \<lparr>ev_fd = 5, evs = 1\<rparr> demo_answers,
      Event \<lparr>ev_fd = 9, evs = 1\<rparr> (demo_answers\<lparr>a_recv := Received [104]\<rparr>),
      Event \<lparr>ev_fd = 9, evs = 1\<rparr> (demo_answers\<lparr>a_recv := Received [105]\<rparr>)]"

definition demo_serving_completions :: "completion list" where
  "demo_serving_completions =
     [(demo_request ACCEPT 3 1, 9, [], demo_ring 1),
      (demo_request CLIENT_READ 9 3, 2, [104, 105], demo_ring 2)]"

lemma demo_client_started:
  "\<exists>w. new_epoll 3 False False (demo_setup 4) quiet = Inr
     (\<lparr>epfd = 4, sockfd = 3, is_listen = False, show_timer_stats = False, timerfd = -1, clients = [],
       stdin_closed = False, socket_closed = False, size_clients = 0, wakeup_fd = 5,
       pending_new_socks = []\<rparr>, w)"
  by (simp add: new_epoll_def setup_epoll_def Let_def demo_setup_def setup_add_def quiet_def)

lemma demo_typing_run:
  assumes "e = \<lparr>epfd = 4, sockfd = 3, is_listen = False, show_timer_stats = False, timerfd = -1,
       clients = [], stdin_closed = False, socket_closed = False, size_clients = 0, wakeup_fd = 5,
       pending_new_socks = []\<rparr>"
  shows "\<exists>e' w'. run_steps (epoll_client_step demo_fp) demo_typing (e, w) = Some (e', w')"
    and "run_ok epoll_client_ok (epoll_client_step demo_fp) demo_typing (e, w)"
    and "concat (map epoll_typed demo_typing) = [104, 105]"
    and "concat (map (epoll_arrived 3) demo_typing) = [111, 107]"
  using assms
  by (simp_all add: demo_typing_def epoll_client_step_def epoll_client_ok_def exec_event_def
      epoll_flags Let_def STDIN_FILENO_def handle_stdin_def handle_socket_data_def
      write_to_stdout_def hangs_up_def readable_def epoll_typed_def epoll_arrived_def)

lemma demo_completions_run:
  "\<exists>r'. run_steps (uring_step demo_fp) demo_completions (demo_relay False) = Some r'"
  "run_ok uring_client_ok (uring_step demo_fp) demo_completions (demo_relay False)"
  "concat (map (uring_read STDIN_READ) demo_completions) = [104, 105]"
  "concat (map (uring_read SOCKET_READ) demo_completions) = [111, 107]"
  by (simp_all add: demo_completions_def uring_step_def uring_client_ok_def uring_read_def offered_def
      handle_stdin_read_def handle_socket_read_def demo_relay_defs)


lemma demo_worker_run:
  assumes "new_epoll (-1) False False (demo_setup 4) quiet = Inr (v, u)"
  shows "\<exists>v' u'. run_steps (worker_input demo_fp) demo_worker_inputs (v, u) = Some (v', u')"
    and "run_ok (worker_ok 9) (worker_input demo_fp) demo_worker_inputs (v, u)"
    and "fold (worker_hist 9) demo_worker_inputs None = Some [104, 105]"
  using new_epoll_state(1) [OF assms]
  by (simp_all add: demo_worker_inputs_def worker_input_def worker_ok_def exec_event_def epoll_flags
      Let_def STDIN_FILENO_def handle_client_data_def write_to_stdout_def hangs_up_def readable_def
      timer_kept_def demo_setup_def demo_answers_def push_external_socket_def new_stats_def add_fd_def
      umap_count_def umap_emplace_def umap_modify_def umap_set_def umap_find_def addBytes_def
      SERVER_WRITE_STDOUT_def)

lemma demo_serving_run:
  "\<exists>r'. run_steps (uring_step demo_fp) demo_serving_completions (demo_relay True) = Some r'"
  "run_ok uring_server_ok (uring_step demo_fp) demo_serving_completions (demo_relay True)"
  "fold (relay_hist 9) demo_serving_completions None = Some [104, 105]"
  by (simp_all add: demo_serving_completions_def uring_step_def uring_server_ok_def relay_hist_def
      offered_def demo_relay_defs)


end
