(* ===== verification/ServerReport.thy ===== *)
theory ServerReport
  imports ServerProgram RelayNetwork
begin

text \<open>
  \<open>print_clients_stats\<close> while the loop it reports on runs: the accepting thread walks a
  worker's \<open>clients\<close> with an iterator, the worker changes them, and the lock that would keep
  the two apart is commented out in the code.
\<close>


section \<open>The loop over the clients, step by step\<close>

text \<open>The node an iterator moves to; \<open>None\<close> is the end.\<close>

fun node_after :: "'k \<Rightarrow> ('k, 'v) umap \<Rightarrow> 'k option" where
  "node_after k [] = None"
| "node_after k ((k', v) # m) =
     (if k' = k then (case m of [] \<Rightarrow> None | (k'', _) # _ \<Rightarrow> Some k'') else node_after k m)"

record report =
  report_at :: "fd option"
  report_text :: string
  report_bps :: u64

definition report_begin :: "(fd, stats) umap \<Rightarrow> report" where
  "report_begin m =
     \<lparr>report_at = (case m of [] \<Rightarrow> None | (c, _) # _ \<Rightarrow> Some c), report_text = '''', report_bps = 0\<rparr>"

text \<open>One turn: the node is read, and the iterator moves on from it. An erased node is freed.\<close>

definition report_next ::
  "fp \<Rightarrow> (double \<Rightarrow> double \<Rightarrow> double) \<Rightarrow> time \<Rightarrow> (fd, stats) umap \<Rightarrow> report \<Rightarrow> fault + report" where
  "report_next f add now m r =
     (case report_at r of
        None \<Rightarrow> Inr r
      | Some c \<Rightarrow>
          (case umap_find c m of
             None \<Rightarrow> Inl Use_after_free
           | Some st \<Rightarrow>
               Inr \<lparr>report_at = node_after c m,
                 report_text = report_text r @ ''\<newline>'' @ get_stats f now st,
                 report_bps = d_to_u64 f (add (d_of_u64 f (report_bps r)) (current_bps st))\<rparr>))"

text \<open>A schedule of the two threads. \<open>None\<close>: the worker ended by an exception.\<close>

datatype report_act = Next_client | Worker_runs loop_input

fun report_run :: "fp \<Rightarrow> (double \<Rightarrow> double \<Rightarrow> double) \<Rightarrow> time \<Rightarrow> report_act list \<Rightarrow> report
    \<Rightarrow> epoll \<times> world \<Rightarrow> (fault + report \<times> epoll \<times> world) option" where
  "report_run f add now [] r s = Some (Inr (r, s))"
| "report_run f add now (Next_client # xs) r s =
     (case report_next f add now (clients (fst s)) r of
        Inl x \<Rightarrow> Some (Inl x)
      | Inr r' \<Rightarrow> report_run f add now xs r' s)"
| "report_run f add now (Worker_runs x # xs) r s =
     (case worker_input f x s of
        None \<Rightarrow> None
      | Some s' \<Rightarrow> report_run f add now xs r s')"


section \<open>Undisturbed\<close>

lemma node_after_middle:
  assumes "distinct (map fst (xs @ (c, st) # ys))"
  shows "node_after c (xs @ (c, st) # ys) = (case ys of [] \<Rightarrow> None | (d, _) # _ \<Rightarrow> Some d)"
  using assms by (induction xs) (auto split: list.split prod.split)

lemma find_middle:
  assumes "distinct (map fst (xs @ (c, st) # ys))"
  shows "umap_find c (xs @ (c, st) # ys) = Some st"
  using assms by (induction xs) (auto simp: umap_find_def)

text \<open>What has been printed behind a part of the map, and where the iterator stands.\<close>

definition reported_part :: "fp \<Rightarrow> (double \<Rightarrow> double \<Rightarrow> double) \<Rightarrow> time \<Rightarrow> (fd, stats) umap
    \<Rightarrow> (fd, stats) umap \<Rightarrow> report" where
  "reported_part f add now xs ys =
     \<lparr>report_at = (case ys of [] \<Rightarrow> None | (c, _) # _ \<Rightarrow> Some c),
      report_text = concat (map (\<lambda>c. ''\<newline>'' @ get_stats f now (snd c)) xs),
      report_bps = foldl (\<lambda>total_bps c. d_to_u64 f (add (d_of_u64 f total_bps) (current_bps (snd c)))) 0 xs\<rparr>"

lemma report_next_part:
  assumes "distinct (map fst (xs @ (c, st) # ys))"
  shows "report_next f add now (xs @ (c, st) # ys) (reported_part f add now xs ((c, st) # ys)) =
    Inr (reported_part f add now (xs @ [(c, st)]) ys)"
  using node_after_middle [OF assms] find_middle [OF assms]
  by (simp add: report_next_def reported_part_def)

lemma report_run_part:
  assumes "clients e = xs @ ys @ zs" "distinct (map fst (clients e))"
  shows "report_run f add now (replicate (length ys) Next_client @ acts)
      (reported_part f add now xs (ys @ zs)) (e, w) =
    report_run f add now acts (reported_part f add now (xs @ ys) zs) (e, w)"
  using assms
proof (induction ys arbitrary: xs)
  case Nil
  then show ?case by simp
next
  case (Cons y ys)
  obtain c st where y: "y = (c, st)" by (cases y)
  from Cons.prems have "report_next f add now (clients e) (reported_part f add now xs (y # ys @ zs)) =
      Inr (reported_part f add now (xs @ [y]) (ys @ zs))"
    using report_next_part [of xs c st "ys @ zs" f add now] by (simp add: y)
  with Cons.IH [of "xs @ [y]"] Cons.prems show ?case by simp
qed

lemma report_begin_part: "report_begin m = reported_part f add now [] m"
  by (simp add: report_begin_def reported_part_def)

text \<open>Undisturbed, the loop prints what \<open>print_clients_stats\<close> computes and ends behind the last client.\<close>

theorem report_undisturbed:
  assumes "distinct (map fst (clients e))"
  shows "\<exists>r. report_run f add now (replicate (length (clients e)) Next_client) (report_begin (clients e)) (e, w) =
      Some (Inr (r, e, w)) \<and>
    report_at r = None \<and> (report_text r, report_bps r) = print_clients_stats f add now e"
  using report_run_part [of e "[]" "clients e" "[]" f add now "[]" w] assms
  by (simp add: report_begin_part [of _ f add now])
    (simp add: reported_part_def print_clients_stats_def)


section \<open>A client that leaves\<close>

text \<open>C39: The report reads freed memory: whichever client the iterator stands at, when its worker
  handles the hang-up of this client before the iterator has moved on, the next turn of the loop
  uses the node that was erased.\<close>

theorem report_use_after_free:
  assumes "distinct (map fst (clients e))" "clients e = xs @ (c, st) # ys"
    and "hangs_up ev" "ev_fd ev = c" "c \<noteq> sockfd e"
  shows "report_run f add now
      (replicate (length xs) Next_client @ [Worker_runs (Event ev a), Next_client])
      (report_begin (clients e)) (e, w) = Some (Inl Use_after_free)"
proof -
  have s: "exec_event Epoll_base f a ev e w = Inr (remove_client c e w)"
    using assms(3-5) by (simp add: exec_event_def hangs_up_def Let_def)
  have "umap_find c (clients (fst (remove_client c e w))) = None"
    by (simp add: remove_client_def umap_find_erase)
  then have u: "report_next f add now (clients (fst (remove_client c e w)))
      (reported_part f add now xs ((c, st) # ys)) = Inl Use_after_free"
    by (simp add: report_next_def reported_part_def)
  have "report_run f add now (replicate (length xs) Next_client @ [Worker_runs (Event ev a), Next_client])
      (report_begin (clients e)) (e, w) =
    report_run f add now [Worker_runs (Event ev a), Next_client]
      (reported_part f add now xs ((c, st) # ys)) (e, w)"
    using report_run_part [of e "[]" xs "(c, st) # ys" f add now _ w] assms(1,2)
    by (simp add: report_begin_part [of _ f add now])
  also have "\<dots> = Some (Inl Use_after_free)"
    using s u by (simp add: worker_input_def)
  finally show ?thesis .
qed

lemma report_undisturbed_witness:
  "\<exists>r. report_run demo_fp (\<lambda>x y. x) 9 [Next_client]
      (report_begin (clients (demo_worker\<lparr>clients := [(10, new_stats 5)]\<rparr>)))
      (demo_worker\<lparr>clients := [(10, new_stats 5)]\<rparr>, quiet) =
      Some (Inr (r, demo_worker\<lparr>clients := [(10, new_stats 5)]\<rparr>, quiet)) \<and> report_at r = None"
  using report_undisturbed [of "demo_worker\<lparr>clients := [(10, new_stats 5)]\<rparr>" demo_fp "\<lambda>x y. x" 9 quiet]
  by auto

lemma report_use_after_free_witness:
  "report_run demo_fp (\<lambda>x y. x) 9
     [Next_client, Worker_runs (Event \<lparr>ev_fd = 11, evs = 16\<rparr> demo_answers), Next_client]
     (report_begin [(10, new_stats 5), (11, new_stats 5)])
     (demo_worker\<lparr>clients := [(10, new_stats 5), (11, new_stats 5)]\<rparr>, quiet) = Some (Inl Use_after_free)"
  using report_use_after_free [of "demo_worker\<lparr>clients := [(10, new_stats 5), (11, new_stats 5)]\<rparr>"
      "[(10, new_stats 5)]" 11 "new_stats 5" "[]" "\<lparr>ev_fd = 11, evs = 16\<rparr>"]
  by (simp add: hangs_up_def epoll_flags demo_worker_def)

end
