(* ===== verification/ServerCounts.thy ===== *)
theory ServerCounts
  imports ServerStartup RelayNetwork
begin

text \<open>
  What the multi-threaded server counts: over every interleaving of the main thread, the
  workers it creates and the signal, the counter of a connection is the number of bytes received over it
  since it was accepted, wherever in the program the connection is. With a client at the other
  end this relates what is typed to what is counted.
\<close>


section \<open>The history of a connection\<close>

text \<open>The connections an accept event takes: all up to the first failure.\<close>

fun accepted_fds :: "accept_result list \<Rightarrow> fd list" where
  "accepted_fds [] = []"
| "accepted_fds (Accept_failed errn # rest) = []"
| "accepted_fds (Accepted fd addr # rest) = fd # accepted_fds rest"

definition accepts_event :: "epoll \<Rightarrow> epoll_event \<Rightarrow> bool" where
  "accepts_event m ev \<longleftrightarrow>
     readable ev \<and> \<not> (0 < wakeup_fd m \<and> ev_fd ev = wakeup_fd m) \<and> ev_fd ev \<noteq> STDIN_FILENO \<and>
     ev_fd ev \<noteq> timerfd m \<and> 0 < sockfd m \<and> ev_fd ev = sockfd m \<and> is_listen m"

text \<open>What one step of the program adds to the bytes received over \<open>c\<close>.\<close>

fun program_hist :: "fd \<Rightarrow> step_of \<Rightarrow> server_program \<Rightarrow> u8 list option \<Rightarrow> u8 list option" where
  "program_hist c (Main r) s h =
     (case main_at s of
        Handling ((ev, a) # rest) \<Rightarrow>
          if accepts_event (main_loop s) ev \<and> c \<in> set (accepted_fds (a_accepts a)) then Some [] else h
      | _ \<Rightarrow> h)"
| "program_hist c (Worker i r) s h =
     (if i < length (worker_at s)
      then (case worker_at s ! i of
              Handling ((ev, a) # rest) \<Rightarrow> worker_hist c (Event ev a) h
            | _ \<Rightarrow> h)
      else h)"
| "program_hist c Signal s h = h"

definition start_hist :: "fd \<Rightarrow> start_act \<Rightarrow> server_start \<Rightarrow> u8 list option \<Rightarrow> u8 list option" where
  "start_hist c act s h = (case act of Create \<Rightarrow> h | Runs a \<Rightarrow> program_hist c a (server s) h)"

fun received_over :: "fp \<Rightarrow> fd \<Rightarrow> start_act list \<Rightarrow> server_start \<Rightarrow> u8 list option \<Rightarrow> u8 list option" where
  "received_over f c [] s h = h"
| "received_over f c (act # acts) s h =
     (case start_step f act s of
        None \<Rightarrow> h
      | Some s' \<Rightarrow> received_over f c acts s' (start_hist c act s h))"

text \<open>An event of \<open>c\<close> is reported to the loop that watches it.\<close>

fun step_watched :: "fd \<Rightarrow> step_of \<Rightarrow> server_program \<Rightarrow> bool" where
  "step_watched c (Worker i r) s =
     (if i < length (worker_at s)
      then (case worker_at s ! i of
              Handling ((ev, a) # rest) \<Rightarrow>
                ev_fd ev = c \<longrightarrow> umap_count c (clients (subepolls (shared s) ! i))
            | _ \<Rightarrow> True)
      else True)"
| "step_watched c act s = True"

fun run_watched :: "fp \<Rightarrow> fd \<Rightarrow> start_act list \<Rightarrow> server_start \<Rightarrow> bool" where
  "run_watched f c [] s = True"
| "run_watched f c (act # acts) s =
     ((case act of Create \<Rightarrow> True | Runs a \<Rightarrow> step_watched c a (server s)) \<and>
      (case start_step f act s of None \<Rightarrow> True | Some s' \<Rightarrow> run_watched f c acts s'))"


section \<open>Accepting\<close>

lemma worker_count_push:
  "worker_count c (push_external_socket fd st e) =
     (if worker_count c e = None \<and> fd = c then Some (total_bytes st) else worker_count c e)"
  by (auto simp: worker_count_def push_external_socket_def umap_find_snoc split: option.split)

lemma accept_connections_counts:
  assumes "accept_connections Main_epoll a rs m w = Inr (m', w')" "i < length (subepolls w)"
  shows "is_listen (subepolls w' ! i) = is_listen (subepolls w ! i) \<and>
    (worker_count c (subepolls w' ! i) = worker_count c (subepolls w ! i) \<or>
     worker_count c (subepolls w ! i) = None \<and> c \<in> set (accepted_fds rs) \<and>
       worker_count c (subepolls w' ! i) = Some 0)"
  using assms
proof (induction rs arbitrary: m w)
  case Nil
  then show ?case by simp
next
  case (Cons r rs)
  show ?case
  proof (cases r)
    case (Accept_failed errn)
    with Cons.prems show ?thesis by (auto split: if_splits)
  next
    case (Accepted fd addr)
    define st where "st = (new_stats (a_now a))\<lparr>ip := addr\<rparr>"
    have zero: "total_bytes st = 0" by (simp add: st_def new_stats_def)
    obtain j where j: "min_element size_clients (subepolls w) = Some j"
      using Cons.prems(1)
      by (auto simp: Accepted st_def [symmetric] Let_def ONE_THREAD_MODE_def split: option.splits)
    let ?e = "push_external_socket fd st (subepolls w ! j)"
    let ?w = "emit [Woken (wakeup_fd (subepolls w ! j))]
      ((emit [Opened fd] w)\<lparr>subepolls := (subepolls w)[j := ?e]\<rparr>)"
    have r: "accept_connections Main_epoll a rs m ?w = Inr (m', w')"
      using Cons.prems(1) j
      by (simp add: Accepted st_def [symmetric] Let_def ONE_THREAD_MODE_def)
    have one: "is_listen (subepolls ?w ! i) = is_listen (subepolls w ! i)"
      "worker_count c (subepolls ?w ! i) =
        (if i = j \<and> worker_count c (subepolls w ! i) = None \<and> fd = c then Some 0
         else worker_count c (subepolls w ! i))"
      using Cons.prems(2) zero
      by (cases "i = j"; simp add: worker_count_push; simp add: push_external_socket_def)+
    from Cons.IH [OF r] Cons.prems(2) one show ?thesis
      by (auto simp: Accepted split: if_splits)
  qed
qed

lemma accepted_fresh:
  "accepts_fresh keeps S rs \<Longrightarrow> c \<in> set (accepted_fds rs) \<Longrightarrow> c \<notin> S"
  by (induction keeps S rs rule: accepts_fresh.induct) (auto split: if_splits)

lemma exec_event_accepts:
  assumes "exec_event c f a ev m w = Inr (m', w')"
  shows "if accepts_event m ev then accept_connections c a (a_accepts a) m w = Inr (m', w')
    else subepolls w' = subepolls w"
proof (cases "accepts_event m ev")
  case True
  with assms show ?thesis
    by (auto simp: accepts_event_def exec_event_def Let_def readable_def hangs_up_def
        handle_socket_data_def)
next
  case False
  show ?thesis
  proof (cases "follows_subepolls m ev a")
    case True
    with False have "ev_fd ev = timerfd m" "readable ev" "ev_fd ev \<noteq> STDIN_FILENO"
      "\<not> (0 < wakeup_fd m \<and> ev_fd ev = wakeup_fd m)"
      by (auto simp: follows_subepolls_def accepts_event_def split: if_splits)
    with assms have "handle_timer f a m w = Inr (m', w')"
      by (auto simp: exec_event_def Let_def readable_def hangs_up_def)
    with False show ?thesis by (auto simp: handle_timer_def split: if_splits prod.splits)
  next
    case same: False
    with exec_event_world [OF assms] False show ?thesis by simp
  qed
qed


section \<open>The invariant\<close>

definition counts_ok :: "fd \<Rightarrow> u8 list option \<Rightarrow> server_program \<Rightarrow> bool" where
  "counts_ok c h s \<longleftrightarrow>
     (\<forall>e\<in>set (subepolls (shared s)). \<not> is_listen e \<and>
        (\<forall>n. worker_count c e = Some n \<longrightarrow> counted h = Some n))"

lemma counts_okI:
  assumes "\<And>i. i < length (subepolls (shared s)) \<Longrightarrow> \<not> is_listen (subepolls (shared s) ! i)"
    and "\<And>i n. i < length (subepolls (shared s)) \<Longrightarrow>
      worker_count c (subepolls (shared s) ! i) = Some n \<Longrightarrow> counted h = Some n"
  shows "counts_ok c h s"
  using assms by (auto simp: counts_ok_def in_set_conv_nth)

lemma counts_okD:
  assumes "counts_ok c h s" "i < length (subepolls (shared s))"
  shows "\<not> is_listen (subepolls (shared s) ! i)"
    "worker_count c (subepolls (shared s) ! i) = Some n \<Longrightarrow> counted h = Some n"
  using assms by (auto simp: counts_ok_def)

lemma counted_owned:
  assumes "worker_count c e = Some n"
  shows "c \<in> set (owned e)"
proof -
  have "umap_count c (clients e) \<or> umap_count c (pending_new_socks e)"
    using assms by (auto simp: worker_count_def umap_count_find split: option.splits)
  then show ?thesis by (auto simp: owned_def umap_count_def)
qed

lemma distinct_concat_disjoint:
  "distinct (concat xss) \<Longrightarrow> i < length xss \<Longrightarrow> j < length xss \<Longrightarrow> i \<noteq> j \<Longrightarrow>
   set (xss ! i) \<inter> set (xss ! j) = {}"
proof (induction xss arbitrary: i j)
  case (Cons xs xss)
  have out: "set xs \<inter> set (xss ! k) = {}" if "k < length xss" for k
    using Cons.prems(1) nth_mem [OF that] by auto
  show ?case
    using Cons out by (cases i; cases j) (auto simp: Int_commute)
qed simp

lemma worker_distinct:
  assumes "server_ok S0 B m w" "i < length (subepolls w)"
  shows "distinct (owned (subepolls w ! i))"
    "j < length (subepolls w) \<Longrightarrow> i \<noteq> j \<Longrightarrow> set (owned (subepolls w ! i)) \<inter> set (owned (subepolls w ! j)) = {}"
  using assms distinct_concat_disjoint [of "map owned (subepolls w)" i j]
  by (simp_all add: server_ok_def worker_fds_def distinct_concat_iff)

lemma owned_worker_wf: "distinct (owned e) \<Longrightarrow> \<not> is_listen e \<Longrightarrow> worker_wf e"
  by (auto simp: owned_def worker_wf_def)

lemma owned_not_own:
  assumes "distinct (owned e)" "umap_count c (clients e)" "0 < c"
  shows "c \<notin> {STDIN_FILENO, sockfd e, timerfd e, wakeup_fd e}"
proof -
  have "c \<notin> set (open_fd (sockfd e)) \<union> set (open_fd (timerfd e)) \<union> set (open_fd (wakeup_fd e))"
    using assms(1,2) by (auto simp: owned_def umap_count_def)
  moreover have "c \<in> set (open_fd c)" using assms(3) by (simp add: open_fd_def)
  ultimately show ?thesis using assms(3) by (auto simp: STDIN_FILENO_def)
qed

lemma loop_step_idle:
  assumes "loop_step c f r pos e w = Inr (pos', e', w')" "\<And>ev a rest. pos \<noteq> Handling ((ev, a) # rest)"
  shows "e' = e \<and> w' = w"
proof (cases pos)
  case (Handling batch)
  with assms show ?thesis by (cases batch) (auto simp: loop_step_def)
qed (use assms in \<open>auto simp: loop_step_def split: wait_result.splits if_splits\<close>)

lemma loop_step_handles:
  "loop_step c f r (Handling ((ev, a) # rest)) e w = Inr (pos', e', w') \<Longrightarrow>
   exec_event c f a ev e w = Inr (e', w')"
  by (auto simp: loop_step_def split: sum.splits)

lemma counts_ok_same: "counts_ok c h s \<Longrightarrow> subepolls (shared s') = subepolls (shared s) \<Longrightarrow> counts_ok c h s'"
  by (simp add: counts_ok_def)

lemma counts_ok_main:
  assumes ok: "program_ok S0 B s" "outcome s = Running" and step: "main_step f r s = Some s'"
    and run: "outcome s' = Running" and con: "step_contract B (Main r) s" and counts: "counts_ok c h s"
  shows "counts_ok c (program_hist c (Main r) s h) s'"
  using step
proof (cases rule: main_step_cases)
  case (loops pos m w)
  have s': "subepolls (shared s') = subepolls w" using loops(5) by simp
  show ?thesis
  proof (cases "\<exists>ev a rest. main_at s = Handling ((ev, a) # rest)")
    case False
    then have idle: "main_at s \<noteq> Handling ((ev, a) # rest)" for ev a rest by blast
    have "program_hist c (Main r) s h = h"
      using idle by (auto split: loop_at.split list.split)
    with loop_step_idle [OF loops(4) idle] counts s' counts_ok_same show ?thesis by simp
  next
    case True
    then obtain ev a rest where at: "main_at s = Handling ((ev, a) # rest)" by blast
    have ev: "exec_event Main_epoll f a ev (main_loop s) (shared s) = Inr (m, w)"
      using loop_step_handles loops(4) unfolding at by blast
    show ?thesis
    proof (cases "accepts_event (main_loop s) ev")
      case False
      with exec_event_accepts [OF ev] counts s' counts_ok_same at show ?thesis by simp
    next
      case True
      with exec_event_accepts [OF ev]
      have acc: "accept_connections Main_epoll a (a_accepts a) (main_loop s) (shared s) = Inr (m, w)" by simp
      have len: "length (subepolls w) = length (subepolls (shared s))"
        using accept_connections_world [OF acc] by simp
      have fresh: "accepts_fresh (\<lambda>_. True) (B \<union> set (worker_fds (shared s)) \<union> set (owned (main_loop s))) (a_accepts a)"
        using con at by simp
      have h: "program_hist c (Main r) s h = (if c \<in> set (accepted_fds (a_accepts a)) then Some [] else h)"
        using at True by simp
      show ?thesis
        unfolding h
      proof (rule counts_okI)
        fix i assume "i < length (subepolls (shared s'))"
        then have i: "i < length (subepolls (shared s))" using s' len by simp
        note acc_i = accept_connections_counts [OF acc i, of c]
        show "\<not> is_listen (subepolls (shared s') ! i)"
          using acc_i counts_okD(1) [OF counts i] s' by simp
        fix n assume n: "worker_count c (subepolls (shared s') ! i) = Some n"
        show "counted (if c \<in> set (accepted_fds (a_accepts a)) then Some [] else h) = Some n"
        proof (cases "c \<in> set (accepted_fds (a_accepts a))")
          case True
          with accepted_fresh [OF fresh True] i have "c \<notin> set (owned (subepolls (shared s) ! i))"
            by (auto simp: worker_fds_def)
          with counted_owned have "worker_count c (subepolls (shared s) ! i) = None" by fastforce
          with acc_i n s' True show ?thesis by auto
        next
          case False
          with acc_i n s' counts_okD(2) [OF counts i] show ?thesis by simp
        qed
      qed
    qed
  qed
qed (use run in simp_all)

lemma counts_ok_worker:
  assumes ok: "program_ok S0 B s" "outcome s = Running" and step: "worker_thread_func f i r s = Some s'"
    and run: "outcome s' = Running" and watched: "step_watched c (Worker i r) s" and pos: "0 < c"
    and counts: "counts_ok c h s"
  shows "counts_ok c (program_hist c (Worker i r) s h) s'"
proof -
  let ?subs = "subepolls (shared s)"
  have inv: "server_ok S0 B (main_loop s) (shared s)" "gone_empty s" using ok by (simp_all add: program_ok_def)
  show ?thesis
    using step
  proof (cases rule: worker_cases)
    case fails
    with run show ?thesis by simp
  next
    case (loops p e w)
    have i: "i < length ?subs" using loops(1) inv(2) by (simp add: gone_empty_def)
    have s': "subepolls (shared s') = (subepolls w)[i := e]" using loops(5) by (simp add: put_worker_def)
    show ?thesis
    proof (cases "\<exists>ev a rest. worker_at s ! i = Handling ((ev, a) # rest)")
      case False
      then have idle: "worker_at s ! i \<noteq> Handling ((ev, a) # rest)" for ev a rest by blast
      have "program_hist c (Worker i r) s h = h"
        using idle by (auto split: loop_at.split list.split)
      moreover have "subepolls (shared s') = ?subs"
        using loop_step_idle [OF loops(4) idle] i s' by simp
      ultimately show ?thesis using counts counts_ok_same by simp
    next
      case True
      then obtain ev a rest where at: "worker_at s ! i = Handling ((ev, a) # rest)" by blast
      have ev: "exec_event Epoll_base f a ev (?subs ! i) (shared s) = Inr (e, w)"
        using loop_step_handles loops(4) unfolding at by blast
      have subs: "subepolls w = ?subs" using exec_event_world [OF ev] by simp
      have d: "distinct (owned (?subs ! i))" by (rule worker_distinct(1) [OF inv(1) i])
      have wf: "worker_wf (?subs ! i)" using owned_worker_wf [OF d] counts_okD(1) [OF counts i] .
      have h: "program_hist c (Worker i r) s h = worker_hist c (Event ev a) h"
        using at loops(1) by simp
      show ?thesis
        unfolding h
      proof (rule counts_okI)
        fix k assume "k < length (subepolls (shared s'))"
        then have k: "k < length ?subs" using s' subs by simp
        show "\<not> is_listen (subepolls (shared s') ! k)"
          using worker_event_wf [OF ev wf] counts_okD(1) [OF counts k] i k s' subs
          by (cases "k = i") (simp_all add: worker_wf_def)
        fix n assume n: "worker_count c (subepolls (shared s') ! k) = Some n"
        show "counted (worker_hist c (Event ev a) h) = Some n"
        proof (cases "ev_fd ev = c")
          case False
          have "worker_count c (subepolls (shared s') ! k) = worker_count c (?subs ! k)"
            using worker_event_other [OF ev wf False] i k s' subs by (cases "k = i") simp_all
          with n counts_okD(2) [OF counts k] False show ?thesis by simp
        next
          case True
          have c: "umap_count c (clients (?subs ! i))" using watched at loops(1) True by simp
          then obtain st where st: "umap_find c (clients (?subs ! i)) = Some st"
            by (auto simp: umap_count_find)
          then have cnt: "worker_count c (?subs ! i) = counted h"
            using counts_okD(2) [OF counts i] worker_count_client by simp
          have "worker_ok c (Event ev a) (?subs ! i, shared s)"
            using c owned_not_own [OF d c pos] by (simp add: worker_ok_def)
          from worker_event_counts [OF ev wf this cnt]
          have new: "worker_count c e = counted (worker_hist c (Event ev a) h)" .
          have "k = i"
          proof (rule ccontr)
            assume ne: "k \<noteq> i"
            with n i s' subs have "c \<in> set (owned (?subs ! k))" using counted_owned by simp
            moreover have "c \<in> set (owned (?subs ! i))"
              using counted_owned worker_count_client [OF st] by simp
            ultimately show False using worker_distinct(2) [OF inv(1) i k] ne by blast
          qed
          with n new i s' subs show ?thesis by simp
        qed
      qed
    qed
  next
    case (deletes e w)
    have i: "i < length ?subs" using deletes(1) inv(2) by (simp add: gone_empty_def)
    have w: "subepolls w = ?subs" "worker_count c e = None" "is_listen e = is_listen (?subs ! i)"
      using deletes(3) by (auto simp: fullstop_eq worker_count_def)
    have s': "subepolls (shared s') = ?subs[i := e]" using deletes(4) w(1) by (simp add: put_worker_def)
    have h: "program_hist c (Worker i r) s h = h" using deletes(2) by simp
    show ?thesis
      unfolding h
    proof (rule counts_okI)
      fix k assume "k < length (subepolls (shared s'))"
      then have k: "k < length ?subs" using s' by simp
      show "\<not> is_listen (subepolls (shared s') ! k)"
        using counts_okD(1) [OF counts k] w(3) i s' by (cases "k = i") simp_all
      show "counted h = Some n" if "worker_count c (subepolls (shared s') ! k) = Some n" for n
        using that counts_okD(2) [OF counts k] w(2) i s' by (cases "k = i") simp_all
    qed
  qed
qed

lemma counts_ok_step:
  assumes "program_ok S0 B s" "program_step f act s = Some s'" "outcome s' = Running"
    and "step_contract B act s" "step_watched c act s" "0 < c" "counts_ok c h s"
  shows "counts_ok c (program_hist c act s h) s'"
proof (cases act)
  case (Main r)
  with assms counts_ok_main [of S0 B s f r s' c h] show ?thesis by (simp split: if_splits)
next
  case (Worker i r)
  with assms counts_ok_worker [of S0 B s f i r s' c h] show ?thesis by (simp split: if_splits)
next
  case Signal
  with assms show ?thesis
    by (auto simp: stop_signal_handler_def counts_ok_def split: if_splits)
qed

lemma counts_ok_create:
  assumes "counts_ok c h p"
  shows "counts_ok c h (create_worker x p) \<or> outcome (create_worker x p) \<noteq> Running"
proof (cases x p rule: create_worker_cases)
  case (throws e w)
  then show ?thesis by simp
next
  case (creates sub w)
  have "\<not> is_listen sub \<and> worker_count c sub = None"
    using new_epoll_state(1) [OF creates(1)] by (simp add: worker_count_def)
  with assms creates(3) show ?thesis by (auto simp: counts_ok_def)
next
  case (destroys sub w)
  with assms new_epoll_subepolls [OF destroys(1)] show ?thesis
    by (simp add: counts_ok_def fullstop_eq)
qed

lemma counts_ok_start_step:
  assumes "program_ok S0 B (server s)" "start_step f act s = Some s'" "outcome (server s') = Running"
    and "start_contract B act s" "case act of Create \<Rightarrow> True | Runs a \<Rightarrow> step_watched c a (server s)"
    and "0 < c" "counts_ok c h (server s)"
  shows "counts_ok c (start_hist c act s h) (server s')"
  using assms(2)
proof (cases rule: start_step_cases)
  case (creates x rest)
  with counts_ok_create [OF assms(7), of x] assms(3) show ?thesis by (simp add: start_hist_def)
next
  case (runs a p)
  with counts_ok_step [OF assms(1) runs(2) _ _ _ assms(6,7)] assms(3-5) show ?thesis
    by (simp add: start_hist_def del: program_step.simps step_contract.simps step_watched.simps
        program_hist.simps)
qed

lemma counts_ok_run:
  assumes "start_run f acts s = Some s'" "start_run_contract B f acts s" "run_watched f c acts s"
    and "program_ok S0 B (server s)" "0 < c" "counts_ok c h (server s)" "outcome (server s') = Running"
  shows "counts_ok c (received_over f c acts s h) (server s')"
  using assms
proof (induction acts arbitrary: s h)
  case Nil
  then show ?case by simp
next
  case (Cons act acts)
  from Cons.prems(1) obtain s1 where s1: "start_step f act s = Some s1" "start_run f acts s1 = Some s'"
    by (auto simp only: start_run_Cons)
  have c: "start_contract B act s" "start_run_contract B f acts s1"
    "case act of Create \<Rightarrow> True | Runs a \<Rightarrow> step_watched c a (server s)" "run_watched f c acts s1"
    using Cons.prems(2,3) s1(1) by (simp_all del: start_step.simps start_contract.simps step_watched.simps)
  have run: "outcome (server s1) = Running"
  proof (cases acts)
    case Nil
    with s1(2) Cons.prems(7) show ?thesis by simp
  next
    case (Cons b bs)
    with s1(2) obtain s2 where "start_step f b s1 = Some s2" by (auto simp only: start_run_Cons)
    then show ?thesis by (cases rule: start_step_cases) (auto split: if_splits)
  qed
  note ok1 = start_ok_step [OF Cons.prems(4) s1(1) c(1)]
  note counts1 = counts_ok_start_step [OF Cons.prems(4) s1(1) run c(1,3) Cons.prems(5,6)]
  from Cons.IH [OF s1(2) c(2,4) ok1 Cons.prems(5) counts1 Cons.prems(7)] s1(1) show ?case
    by (simp del: start_step.simps)
qed


section \<open>Properties\<close>

lemma program_counts:
  assumes "begin_server k s ws fresh_world = Inr (Inr p)" "so_contract B k"
    and "setup_fresh (insert (so_socket k) B) s"
    and "start_run f acts p = Some q" "start_run_contract B f acts p" "run_watched f c acts p"
    and "outcome (server q) = Running" "0 < c"
    and "e \<in> set (subepolls (shared (server q)))" "(c, st) \<in> set (clients e @ pending_new_socks e)"
  shows "counted (received_over f c acts p None) = Some (total_bytes st)"
proof -
  note start = begin_server_ok [OF assms(1-3)]
  then have ok: "program_ok B B (server p)" and c0: "counts_ok c None (server p)"
    by (simp_all add: counts_ok_def)
  have counts: "counts_ok c (received_over f c acts p None) (server q)"
    by (rule counts_ok_run [OF assms(4-6) ok assms(8) c0 assms(7)])
  have "server_ok B B (main_loop (server q)) (shared (server q))"
    using start_run_ok [OF assms(1-5)] assms(7) by (simp add: program_ok_def)
  with assms(9) have "distinct (owned e)" using worker_distinct(1) by (auto simp: in_set_conv_nth)
  moreover have "\<not> is_listen e" using counts assms(9) by (simp add: counts_ok_def)
  ultimately have d: "distinct (map fst (clients e @ pending_new_socks e))"
    using owned_worker_wf worker_wf_def by blast
  have "map_of (clients e @ pending_new_socks e) c = Some st"
    using d assms(10) by (simp only: map_of_eq_Some_iff)
  then have "worker_count c e = Some (total_bytes st)"
    by (auto simp: worker_count_def umap_find_def map_add_def split: option.splits)
  with counts assms(9) show ?thesis by (simp add: counts_ok_def)
qed




section \<open>Witnesses\<close>

text \<open>Connection 10 is accepted and handed over, and the first of the two letters typed arrives.\<close>

definition demo_counting :: "start_act list" where
  "demo_counting = [Create, Runs (Worker 0 (Ready [])), Create] @ map Runs [Worker 0 (Ready []), Main (Ready [(\<lparr>ev_fd = 3, evs = 1\<rparr>, demo_answers)]), Main (Ready []),
     Worker 0 (Ready [(\<lparr>ev_fd = 8, evs = 1\<rparr>, demo_answers\<lparr>a_accepts := []\<rparr>)]), Worker 0 (Ready []),
     Worker 0 (Ready []),
     Worker 0 (Ready [(\<lparr>ev_fd = 10, evs = 1\<rparr>, demo_answers\<lparr>a_recv := Received [104], a_accepts := []\<rparr>)]),
     Main (Ready []), Worker 0 (Ready [])]"

lemma demo_counting_run:
  "case begin_server demo_socket (demo_setup 4) demo_workers fresh_world of
     Inr (Inr p) \<Rightarrow> start_run_contract {0, 1, 2} demo_fp demo_counting p \<and>
       run_watched demo_fp 10 demo_counting p \<and>
       received_over demo_fp 10 demo_counting p None = Some [104] \<and>
       (case start_run demo_fp demo_counting p of
          Some q \<Rightarrow> outcome (server q) = Running \<and>
            (case subepolls (shared (server q)) of
               [e, e1] \<Rightarrow> (case clients e of [(fd, st)] \<Rightarrow> fd = 10 | _ \<Rightarrow> False) | _ \<Rightarrow> False)
        | None \<Rightarrow> False)
   | _ \<Rightarrow> False"
  by code_simp

lemma demo_counting_parts:
  obtains p q e e1 st where
    "begin_server demo_socket (demo_setup 4) demo_workers fresh_world = Inr (Inr p)"
    "start_run demo_fp demo_counting p = Some q" "start_run_contract {0, 1, 2} demo_fp demo_counting p"
    "run_watched demo_fp 10 demo_counting p" "outcome (server q) = Running"
    "subepolls (shared (server q)) = [e, e1]" "clients e = [(10, st)]"
    "received_over demo_fp 10 demo_counting p None = Some [104]"
  using demo_counting_run
  by (auto split: sum.splits option.splits list.splits prod.splits)



end
