(* ===== verification/HandOver.thy ===== *)
theory HandOver
  imports RelayNetwork
begin

text \<open>
  How a connection gets from the accepting thread to a worker: \<open>push_external_socket\<close> and the
  wake-up handler of \<open>exec\<close>, one access to the queue, the mutex or the \<open>eventfd\<close> at a time.
  Elsewhere each of the two is one step; shown here is that this loses nothing, and that no
  wake-up is lost.
\<close>


section \<open>The two threads\<close>

text \<open>
  Where the accepting thread is in \<open>push_external_socket\<close>: outside, before the lock, before the
  push, before the count is raised, before the unlocking, before the write to the \<open>eventfd\<close>; and
  where the worker is in the handler: in \<open>epoll_wait\<close> or another handler, before the read, before
  the lock, in the loop with the lock.
\<close>

datatype pusher = P_out | P_lock fd stats | P_push fd stats | P_count | P_unlock | P_write

datatype drainer = D_wait | D_read | D_lock | D_loop answers

datatype owner = Pusher | Drainer

record hand_over =
  h_loop :: epoll
  h_world :: world
  h_lock :: "owner option"
  h_eventfd :: nat
  h_main :: pusher
  h_worker :: drainer

text \<open>
  A write of 1 to a non-blocking \<open>eventfd\<close> adds to its counter unless it would exceed its
  maximum; a read resets it; it is reported as readable as long as it is positive.
\<close>

definition eventfd_write :: "nat \<Rightarrow> nat" where
  "eventfd_write n = (if n + 1 \<le> 2 ^ 64 - 2 then n + 1 else n)"

datatype hand_act =
    Accepts fd stats            \<comment> \<open>\<open>balance_socket\<close> chooses this worker\<close>
  | Main_steps
  | Wakes_up                    \<comment> \<open>\<open>epoll_wait\<close> reports the \<open>eventfd\<close>\<close>
  | Worker_steps answers
  | Handles epoll_event answers \<comment> \<open>another event of the worker\<close>

definition pusher_step :: "hand_over \<Rightarrow> hand_over option" where
  "pusher_step s =
     (case h_main s of
        P_out \<Rightarrow> None
      | P_lock fd st \<Rightarrow>
          if h_lock s = None then Some (s\<lparr>h_lock := Some Pusher, h_main := P_push fd st\<rparr>) else None
      | P_push fd st \<Rightarrow>
          Some (s\<lparr>h_loop := (h_loop s)\<lparr>pending_new_socks := pending_new_socks (h_loop s) @ [(fd, st)]\<rparr>,
                  h_main := P_count\<rparr>)
      | P_count \<Rightarrow>
          Some (s\<lparr>h_loop := (h_loop s)\<lparr>size_clients := size_clients (h_loop s) + 1\<rparr>, h_main := P_unlock\<rparr>)
      | P_unlock \<Rightarrow> Some (s\<lparr>h_lock := None, h_main := P_write\<rparr>)
      | P_write \<Rightarrow> Some (s\<lparr>h_eventfd := eventfd_write (h_eventfd s), h_main := P_out\<rparr>))"

definition drainer_step :: "answers \<Rightarrow> hand_over \<Rightarrow> hand_over option" where
  "drainer_step a s =
     (case h_worker s of
        D_wait \<Rightarrow> None
      | D_read \<Rightarrow> Some (s\<lparr>h_eventfd := 0, h_worker := D_lock\<rparr>)
      | D_lock \<Rightarrow>
          if h_lock s = None then Some (s\<lparr>h_lock := Some Drainer, h_worker := D_loop a\<rparr>) else None
      | D_loop b \<Rightarrow>
          (case pending_new_socks (h_loop s) of
             [] \<Rightarrow> Some (s\<lparr>h_lock := None, h_worker := D_wait\<rparr>)
           | (fd, st) # rest \<Rightarrow>
               let e = (h_loop s)\<lparr>pending_new_socks := rest\<rparr>
               in (case add_fd b fd e (h_world s) of
                     (_, w) \<Rightarrow> Some (s\<lparr>h_loop := e\<lparr>clients := umap_emplace fd st (clients e)\<rparr>, h_world := w\<rparr>))))"

definition hand_step :: "fp \<Rightarrow> hand_act \<Rightarrow> hand_over \<Rightarrow> hand_over option" where
  "hand_step f act s =
     (case act of
        Accepts fd st \<Rightarrow> if h_main s = P_out then Some (s\<lparr>h_main := P_lock fd st\<rparr>) else None
      | Main_steps \<Rightarrow> pusher_step s
      | Wakes_up \<Rightarrow>
          if h_worker s = D_wait \<and> 0 < h_eventfd s then Some (s\<lparr>h_worker := D_read\<rparr>) else None
      | Worker_steps a \<Rightarrow> drainer_step a s
      | Handles ev a \<Rightarrow>
          if h_worker s = D_wait \<and> ev_fd ev \<noteq> wakeup_fd (h_loop s)
          then (case exec_event Epoll_base f a ev (h_loop s) (h_world s) of
                  Inl _ \<Rightarrow> None
                | Inr (e, w) \<Rightarrow> Some (s\<lparr>h_loop := e, h_world := w\<rparr>))
          else None)"

fun hand_run :: "fp \<Rightarrow> hand_act list \<Rightarrow> hand_over \<Rightarrow> hand_over option" where
  "hand_run f [] s = Some s"
| "hand_run f (act # acts) s = Option.bind (hand_step f act s) (hand_run f acts)"

definition hand_start :: "epoll \<Rightarrow> world \<Rightarrow> hand_over" where
  "hand_start e w = \<lparr>h_loop = e, h_world = w, h_lock = None, h_eventfd = 0, h_main = P_out, h_worker = D_wait\<rparr>"


section \<open>Refinement of the steps used elsewhere\<close>

text \<open>
  Seen from outside, a connection is handed over when it is pushed, and the queue is emptied when
  the worker takes the lock.
\<close>

definition raised :: "pusher \<Rightarrow> epoll \<Rightarrow> epoll" where
  "raised p e = (if p = P_count then e\<lparr>size_clients := size_clients e + 1\<rparr> else e)"

definition seen :: "hand_over \<Rightarrow> epoll \<times> world" where
  "seen s =
     (case h_worker s of
        D_loop b \<Rightarrow> drain_pending b (pending_new_socks (h_loop s)) (h_loop s) (h_world s)
      | _ \<Rightarrow> (raised (h_main s) (h_loop s), h_world s))"

definition wake_event :: "epoll \<Rightarrow> epoll_event" where
  "wake_event e = \<lparr>ev_fd = wakeup_fd e, evs = EPOLLIN\<rparr>"

text \<open>The step of \<open>worker_input\<close> an action amounts to.\<close>

definition amounts_to :: "hand_act \<Rightarrow> hand_over \<Rightarrow> loop_input list" where
  "amounts_to act s =
     (case act of
        Main_steps \<Rightarrow> (case h_main s of P_push fd st \<Rightarrow> [Handed_over fd st] | _ \<Rightarrow> [])
      | Worker_steps a \<Rightarrow> (if h_worker s = D_lock then [Event (wake_event (h_loop s)) a] else [])
      | Handles ev a \<Rightarrow> [Event ev a]
      | _ \<Rightarrow> [])"

fun inputs_of :: "fp \<Rightarrow> hand_act list \<Rightarrow> hand_over \<Rightarrow> loop_input list" where
  "inputs_of f [] s = []"
| "inputs_of f (act # acts) s =
     amounts_to act s @ (case hand_step f act s of None \<Rightarrow> [] | Some s' \<Rightarrow> inputs_of f acts s')"

text \<open>The lock is held where the positions say, and the loop is one that does not accept.\<close>

definition hand_ok :: "hand_over \<Rightarrow> bool" where
  "hand_ok s \<longleftrightarrow>
     (h_lock s = Some Pusher \<longleftrightarrow> (case h_main s of P_push _ _ \<Rightarrow> True | P_count \<Rightarrow> True | P_unlock \<Rightarrow> True | _ \<Rightarrow> False)) \<and>
     (h_lock s = Some Drainer \<longleftrightarrow> (case h_worker s of D_loop _ \<Rightarrow> True | _ \<Rightarrow> False)) \<and>
     \<not> is_listen (h_loop s) \<and> 0 < wakeup_fd (h_loop s)"

text \<open>A handler lowers the counter or leaves it; it does not matter what it was, nor does the
  queue matter to any handler but that of the wake-up.\<close>

definition count_shift :: "int \<Rightarrow> (failure \<times> epoll \<times> world) + (epoll \<times> world) \<Rightarrow> (epoll \<times> world) option" where
  "count_shift n r = (case r of Inl _ \<Rightarrow> None | Inr (e, w) \<Rightarrow> Some (e\<lparr>size_clients := size_clients e + n\<rparr>, w))"

definition same_queue :: "epoll \<Rightarrow> run \<Rightarrow> bool" where
  "same_queue e r = (case r of Inl _ \<Rightarrow> True | Inr (e', w) \<Rightarrow>
     is_listen e' = is_listen e \<and> wakeup_fd e' = wakeup_fd e \<and> pending_new_socks e' = pending_new_socks e)"

lemma handlers_raised:
  "count_shift 0 (handle_stdin a (e\<lparr>size_clients := size_clients e + n\<rparr>) w) = count_shift n (handle_stdin a e w)"
  "count_shift 0 (handle_timer f a (e\<lparr>size_clients := size_clients e + n\<rparr>) w) = count_shift n (handle_timer f a e w)"
  "count_shift 0 (handle_client_data a fd (e\<lparr>size_clients := size_clients e + n\<rparr>) w) = count_shift n (handle_client_data a fd e w)"
  "\<not> is_listen e \<Longrightarrow>
   count_shift 0 (handle_socket_data c a (e\<lparr>size_clients := size_clients e + n\<rparr>) w) = count_shift n (handle_socket_data c a e w)"
  "count_shift 0 (Inr (remove_client fd (e\<lparr>size_clients := size_clients e + n\<rparr>) w)) = count_shift n (Inr (remove_client fd e w))"
  by (simp_all add: count_shift_def handle_stdin_def handle_timer_def handle_client_data_def handle_socket_data_def
      remove_client_def Let_def split: recv_result.split list.split prod.split)

lemma handlers_queue:
  "same_queue e (handle_stdin a e w)" "same_queue e (handle_timer f a e w)"
  "same_queue e (handle_client_data a fd e w)" "\<not> is_listen e \<Longrightarrow> same_queue e (handle_socket_data c a e w)"
  "same_queue e (Inr (remove_client fd e w))"
  by (simp_all add: same_queue_def handle_stdin_def handle_timer_def handle_client_data_def
      handle_socket_data_def remove_client_def Let_def split: recv_result.split list.split prod.split)

lemma event_dispatch:
  assumes "ev_fd ev \<noteq> wakeup_fd e"
  shows "exec_event c f a ev e w =
    (let fd = ev_fd ev
     in if hangs_up ev then
          (if fd = sockfd e then Inr (e\<lparr>socket_closed := True\<rparr>, w) else Inr (remove_client fd e w))
        else if readable ev then
          (if fd = STDIN_FILENO then handle_stdin a e w
           else if fd = timerfd e then handle_timer f a e w
           else if 0 < sockfd e \<and> fd = sockfd e then handle_socket_data c a e w
           else if umap_count fd (clients e) then handle_client_data a fd e w
           else Inr (e, w))
        else Inr (e, w))"
  using assms by (simp add: exec_event_def hangs_up_def readable_def Let_def)

lemma exec_event_raised:
  assumes "\<not> is_listen e" "ev_fd ev \<noteq> wakeup_fd e"
  shows "count_shift 0 (exec_event Epoll_base f a ev (e\<lparr>size_clients := size_clients e + n\<rparr>) w) =
    count_shift n (exec_event Epoll_base f a ev e w)"
  using assms by (cases "ev_fd ev = sockfd e") (simp_all add: event_dispatch Let_def handlers_raised, simp_all add: count_shift_def)

lemma exec_event_queue:
  assumes "\<not> is_listen e" "ev_fd ev \<noteq> wakeup_fd e"
  shows "same_queue e (exec_event Epoll_base f a ev e w)"
  using assms by (cases "ev_fd ev = sockfd e") (simp_all add: event_dispatch Let_def handlers_queue, simp_all add: same_queue_def)

lemma drain_pending_queue:
  "drain_pending a ps (e\<lparr>pending_new_socks := qs\<rparr>) w = drain_pending a ps e w"
proof (induction ps arbitrary: e w)
  case Nil
  then show ?case by simp
next
  case (Cons p ps)
  obtain fd st where p: "p = (fd, st)" by (cases p)
  have add: "add_fd a fd (e\<lparr>pending_new_socks := qs\<rparr>) w = add_fd a fd e w" by (simp add: add_fd_def)
  have commute: "e\<lparr>pending_new_socks := qs, clients := cs\<rparr> = e\<lparr>clients := cs, pending_new_socks := qs\<rparr>"
    for cs by simp
  show ?case by (simp only: p drain_pending.simps add commute Cons.IH) (simp split: prod.split)
qed

lemma drain_pending_loop:
  "drain_pending a ps (e\<lparr>pending_new_socks := qs, clients := cs\<rparr>) w = drain_pending a ps (e\<lparr>clients := cs\<rparr>) w"
proof -
  have "e\<lparr>pending_new_socks := qs, clients := cs\<rparr> = e\<lparr>clients := cs, pending_new_socks := qs\<rparr>" by simp
  then show ?thesis by (simp only: drain_pending_queue)
qed

lemma wake_event_handled:
  assumes "0 < wakeup_fd e"
  shows "exec_event c f a (wake_event e) e w = Inr (drain_pending a (pending_new_socks e) e w)"
  using assms by (simp add: exec_event_def wake_event_def Let_def epoll_flags)


lemma count_shift_Some:
  "count_shift n r = Some (e, w) \<longleftrightarrow> (\<exists>e'. r = Inr (e', w) \<and> e = e'\<lparr>size_clients := size_clients e' + n\<rparr>)"
  by (auto simp: count_shift_def split: sum.split)

lemma exec_event_seen:
  assumes "\<not> is_listen e" "ev_fd ev \<noteq> wakeup_fd e" and step: "exec_event Epoll_base f a ev e w = Inr (e', w')"
  shows "worker_input f (Event ev a) (raised p e, w) = Some (raised p e', w')"
proof -
  have "count_shift 0 (exec_event Epoll_base f a ev (e\<lparr>size_clients := size_clients e + 1\<rparr>) w) =
      Some (e'\<lparr>size_clients := size_clients e' + 1\<rparr>, w')"
    unfolding exec_event_raised [OF assms(1,2)] step by (simp add: count_shift_def)
  then have "exec_event Epoll_base f a ev (e\<lparr>size_clients := size_clients e + 1\<rparr>) w =
      Inr (e'\<lparr>size_clients := size_clients e' + 1\<rparr>, w')"
    by (simp add: count_shift_Some)
  with step show ?thesis by (simp add: worker_input_def raised_def)
qed

lemmas hand_defs = hand_ok_def seen_def raised_def amounts_to_def push_external_socket_def worker_input_def

lemma pusher_step_seen:
  assumes "hand_ok s" "pusher_step s = Some s'"
  shows "hand_ok s' \<and> run_steps (worker_input f) (amounts_to Main_steps s) (seen s) = Some (seen s')"
  using assms
  by (cases "h_main s"; cases "h_worker s") (auto simp: pusher_step_def hand_defs split: if_splits)

lemma drainer_step_seen:
  assumes ok: "hand_ok s" and step: "drainer_step a s = Some s'"
  shows "hand_ok s' \<and> run_steps (worker_input f) (amounts_to (Worker_steps a) s) (seen s) = Some (seen s')"
proof (cases "h_worker s")
  case D_wait
  with step show ?thesis by (simp add: drainer_step_def)
next
  case D_read
  with ok step show ?thesis by (auto simp: drainer_step_def hand_defs)
next
  case D_lock
  with ok step have "h_lock s = None" "h_main s \<noteq> P_count"
    by (auto simp: drainer_step_def hand_ok_def split: if_splits)
  with D_lock ok step show ?thesis
    by (auto simp: drainer_step_def hand_defs wake_event_handled split: pusher.splits)
next
  case (D_loop b)
  with ok have main: "h_main s \<noteq> P_count" by (auto simp: hand_ok_def)
  show ?thesis
  proof (cases "pending_new_socks (h_loop s)")
    case Nil
    with D_loop ok step main show ?thesis
      by (auto simp: drainer_step_def hand_defs split: pusher.splits)
  next
    case (Cons p rest)
    obtain fd st where p: "p = (fd, st)" by (cases p)
    with D_loop ok step Cons show ?thesis
      by (auto simp: drainer_step_def hand_defs add_fd_def drain_pending_loop)
  qed
qed

lemma hand_step_seen:
  assumes ok: "hand_ok s" and step: "hand_step f act s = Some s'"
  shows "hand_ok s' \<and> run_steps (worker_input f) (amounts_to act s) (seen s) = Some (seen s')"
proof (cases act)
  case (Accepts fd st)
  with ok step show ?thesis
    by (auto simp: hand_step_def hand_defs split: if_splits drainer.split)
next
  case Main_steps
  with pusher_step_seen [OF ok] step show ?thesis by (simp add: hand_step_def)
next
  case Wakes_up
  with ok step show ?thesis by (auto simp: hand_step_def hand_defs split: if_splits)
next
  case (Worker_steps a)
  with drainer_step_seen [OF ok] step show ?thesis by (simp add: hand_step_def)
next
  case (Handles ev a)
  with step obtain e w where wait: "h_worker s = D_wait" and fd: "ev_fd ev \<noteq> wakeup_fd (h_loop s)"
    and event: "exec_event Epoll_base f a ev (h_loop s) (h_world s) = Inr (e, w)"
    and s': "s' = s\<lparr>h_loop := e, h_world := w\<rparr>"
    by (auto simp: hand_step_def split: if_splits sum.splits)
  have listen: "\<not> is_listen (h_loop s)" using ok by (simp add: hand_ok_def)
  from exec_event_queue [OF this fd, of f a "h_world s"] event ok have "hand_ok s'"
    by (simp add: hand_ok_def s' same_queue_def)
  with exec_event_seen [OF listen fd event] Handles wait show ?thesis
    by (simp add: amounts_to_def seen_def s')
qed

lemma run_steps_append:
  "run_steps step (xs @ ys) s = Option.bind (run_steps step xs s) (run_steps step ys)"
proof (induction xs arbitrary: s)
  case (Cons x xs)
  then show ?case by (cases "step x s") simp_all
qed simp

lemma handover_simulates:
  assumes "hand_ok s" "hand_run f acts s = Some s'"
  shows "hand_ok s' \<and> run_steps (worker_input f) (inputs_of f acts s) (seen s) = Some (seen s')"
  using assms
proof (induction acts arbitrary: s)
  case Nil
  then show ?case by simp
next
  case (Cons act acts)
  from Cons.prems(2) obtain t where t: "hand_step f act s = Some t" "hand_run f acts t = Some s'"
    by (auto simp: bind_eq_Some_conv)
  from hand_step_seen [OF Cons.prems(1) t(1)] Cons.IH [OF _ t(2)] t(1)
  show ?case by (simp add: run_steps_append)
qed

text \<open>The wake-up that is still owed: on its way from the accepting thread, or being handled.\<close>

definition wake_owed :: "hand_over \<Rightarrow> bool" where
  "wake_owed s \<longleftrightarrow>
     pending_new_socks (h_loop s) = [] \<or> 0 < h_eventfd s \<or> h_main s \<in> {P_count, P_unlock, P_write} \<or>
     (case h_worker s of D_lock \<Rightarrow> True | D_loop _ \<Rightarrow> True | _ \<Rightarrow> False)"

lemma eventfd_write_positive: "eventfd_write n \<noteq> 0"
  by (simp add: eventfd_write_def)

lemma hand_step_owed:
  assumes ok: "hand_ok s" "wake_owed s" and step: "hand_step f act s = Some s'"
  shows "wake_owed s'"
proof (cases act)
  case (Accepts fd st)
  with ok step show ?thesis by (auto simp: hand_step_def wake_owed_def split: if_splits)
next
  case Main_steps
  with ok step show ?thesis
    by (cases "h_main s")
      (auto simp: hand_step_def pusher_step_def wake_owed_def eventfd_write_positive split: if_splits)
next
  case Wakes_up
  with ok step show ?thesis by (auto simp: hand_step_def wake_owed_def split: if_splits)
next
  case (Worker_steps a)
  with ok step show ?thesis
    by (cases "h_worker s"; cases "pending_new_socks (h_loop s)")
      (auto simp: hand_step_def drainer_step_def wake_owed_def add_fd_def Let_def split: if_splits)
next
  case (Handles ev a)
  with step obtain e w where fd: "ev_fd ev \<noteq> wakeup_fd (h_loop s)"
    and event: "exec_event Epoll_base f a ev (h_loop s) (h_world s) = Inr (e, w)"
    and s': "s' = s\<lparr>h_loop := e, h_world := w\<rparr>"
    by (auto simp: hand_step_def split: if_splits sum.splits)
  from ok exec_event_queue [OF _ fd, of f a "h_world s"] event show ?thesis
    by (simp add: hand_ok_def same_queue_def s' wake_owed_def)
qed

lemma hand_run_owed:
  assumes "hand_ok s" "wake_owed s" "hand_run f acts s = Some s'"
  shows "wake_owed s'"
  using assms
proof (induction acts arbitrary: s)
  case Nil
  then show ?case by simp
next
  case (Cons act acts)
  from Cons.prems(3) obtain t where t: "hand_step f act s = Some t" "hand_run f acts t = Some s'"
    by (auto simp: bind_eq_Some_conv)
  from Cons.IH [OF _ hand_step_owed [OF Cons.prems(1,2) t(1)] t(2)] hand_step_seen [OF Cons.prems(1) t(1)]
  show ?case by blast
qed

lemma drain_run:
  assumes "h_worker s = D_loop b" "drain_pending b (pending_new_socks (h_loop s)) (h_loop s) (h_world s) = (e, w)"
  shows "hand_run f (replicate (length (pending_new_socks (h_loop s)) + 1) (Worker_steps a)) s =
    Some (s\<lparr>h_loop := e, h_world := w, h_lock := None, h_worker := D_wait\<rparr>)"
  using assms
proof (induction "pending_new_socks (h_loop s)" arbitrary: s)
  case Nil
  have "(h_loop s)\<lparr>pending_new_socks := []\<rparr> = h_loop s" unfolding Nil.hyps by simp
  moreover have "pending_new_socks (h_loop s) = []" using Nil.hyps by simp
  ultimately show ?case using Nil.prems by (auto simp: hand_step_def drainer_step_def)
next
  case (Cons p rest)
  obtain fd st where p: "p = (fd, st)" by (cases p)
  note queue = Cons.hyps(2) [symmetric]
  let ?l = "(h_loop s)\<lparr>pending_new_socks := rest, clients := umap_emplace fd st (clients (h_loop s))\<rparr>"
  let ?s = "s\<lparr>h_loop := ?l, h_world := snd (add_fd b fd (h_loop s) (h_world s))\<rparr>"
  have "hand_step f (Worker_steps a) s = Some ?s"
    using Cons.prems(1) by (simp add: hand_step_def drainer_step_def queue p add_fd_def)
  moreover have "hand_run f (replicate (length rest + 1) (Worker_steps a)) ?s =
      Some (?s\<lparr>h_loop := e, h_world := w, h_lock := None, h_worker := D_wait\<rparr>)"
    using Cons.hyps(1) [of ?s] Cons.prems by (simp add: queue p drain_pending_loop)
  ultimately show ?case by (simp add: queue)
qed

lemma drain_pending_clients:
  "pending_new_socks (fst (drain_pending a ps e w)) = [] \<and>
   (fd \<in> fst ` set ps \<or> umap_count fd (clients e) \<longrightarrow> umap_count fd (clients (fst (drain_pending a ps e w))))"
proof (induction ps arbitrary: e w)
  case (Cons p ps)
  obtain c st where p: "p = (c, st)" by (cases p)
  let ?e = "e\<lparr>clients := umap_emplace c st (clients e)\<rparr>"
  have "umap_count fd (clients ?e)" if "fd = c \<or> umap_count fd (clients e)"
    using that by (auto simp: umap_emplace_def umap_count_def)
  with Cons.IH [of ?e "snd (add_fd a c e w)"] show ?case by (auto simp: p)
qed simp

lemma hand_start_ok:
  assumes "new_epoll (-1) False False s0 w0 = Inr (e, w)" "0 < wakeup_fd e"
  shows "hand_ok (hand_start e w)" "wake_owed (hand_start e w)" "seen (hand_start e w) = (e, w)"
  using assms(2) new_epoll_state(1) [OF assms(1)]
  by (simp_all add: hand_ok_def hand_start_def wake_owed_def seen_def raised_def)


text \<open>The connections accepted, those handed over, and the one between the two.\<close>

definition accepts :: "hand_act \<Rightarrow> (fd \<times> stats) list" where
  "accepts act = (case act of Accepts fd st \<Rightarrow> [(fd, st)] | _ \<Rightarrow> [])"

definition hands :: "loop_input \<Rightarrow> (fd \<times> stats) list" where
  "hands x = (case x of Handed_over fd st \<Rightarrow> [(fd, st)] | Event _ _ \<Rightarrow> [])"

definition in_flight :: "pusher \<Rightarrow> (fd \<times> stats) list" where
  "in_flight p = (case p of P_lock fd st \<Rightarrow> [(fd, st)] | P_push fd st \<Rightarrow> [(fd, st)] | _ \<Rightarrow> [])"

lemma hand_step_hands:
  assumes "hand_step f act s = Some s'"
  shows "in_flight (h_main s) @ accepts act = concat (map hands (amounts_to act s)) @ in_flight (h_main s')"
proof (cases act)
  case Main_steps
  with assms show ?thesis
    by (cases "h_main s")
      (auto simp: hand_step_def pusher_step_def in_flight_def accepts_def hands_def amounts_to_def split: if_splits)
next
  case (Worker_steps a)
  with assms have "h_main s' = h_main s"
    by (auto simp: hand_step_def drainer_step_def Let_def split: drainer.splits list.splits if_splits prod.splits)
  with Worker_steps show ?thesis by (simp add: accepts_def hands_def amounts_to_def)
qed (use assms in \<open>auto simp: hand_step_def in_flight_def accepts_def hands_def amounts_to_def
  split: if_splits sum.splits\<close>)

lemma hand_run_hands:
  assumes "hand_run f acts s = Some s'"
  shows "in_flight (h_main s) @ concat (map accepts acts) =
    concat (map hands (inputs_of f acts s)) @ in_flight (h_main s')"
  using assms
proof (induction acts arbitrary: s)
  case Nil
  then show ?case by simp
next
  case (Cons act acts)
  from Cons.prems obtain t where t: "hand_step f act s = Some t" "hand_run f acts t = Some s'"
    by (auto simp: bind_eq_Some_conv)
  from hand_step_hands [OF t(1)] Cons.IH [OF t(2)] t(1) show ?case
    by simp (metis append.assoc)
qed


section \<open>Properties\<close>

text \<open>C9: The steps of \<open>push_external_socket\<close> and of the handler of a wake-up can be interleaved in
  any way, with each other and with the worker's other events: whenever both are done, the worker
  and the system are as if each connection had been handed over in one step and each wake-up
  handled in one, and the connections handed over are those accepted, in that order.
\<close>

theorem handover_refines:
  assumes "new_epoll (-1) False False s0 w0 = Inr (e, w)" "0 < wakeup_fd e"
    and "hand_run f acts (hand_start e w) = Some s" "h_main s = P_out" "h_worker s = D_wait"
  shows "run_steps (worker_input f) (inputs_of f acts (hand_start e w)) (e, w) = Some (h_loop s, h_world s) \<and>
    concat (map hands (inputs_of f acts (hand_start e w))) = concat (map accepts acts)"
  using handover_simulates [OF hand_start_ok(1) [OF assms(1,2)] assms(3)] hand_run_hands [OF assms(3)]
    assms(4,5) hand_start_ok(3) [OF assms(1,2)]
  by (simp add: seen_def raised_def in_flight_def) (simp add: hand_start_def)

text \<open>C13: No wake-up is lost: once the accepting thread has left \<open>push_external_socket\<close> and the worker
  is back in \<open>epoll_wait\<close>, any connection still in the queue has left the \<open>eventfd\<close> readable, so
  \<open>epoll_wait\<close> reports it, and handling it makes every queued connection a client, with the
  queue empty and the mutex free.
\<close>

theorem no_lost_wakeup:
  assumes "new_epoll (-1) False False s0 w0 = Inr (e, w)" "0 < wakeup_fd e"
    and "hand_run f acts (hand_start e w) = Some s" "h_main s = P_out" "h_worker s = D_wait"
    and "pending_new_socks (h_loop s) \<noteq> []"
  shows "\<exists>s'. hand_run f (Wakes_up # replicate (length (pending_new_socks (h_loop s)) + 3) (Worker_steps a)) s = Some s' \<and>
    pending_new_socks (h_loop s') = [] \<and> h_worker s' = D_wait \<and> h_lock s' = None \<and>
    (\<forall>fd\<in>fst ` set (pending_new_socks (h_loop s)). umap_count fd (clients (h_loop s')))"
proof -
  let ?ps = "pending_new_socks (h_loop s)"
  obtain e' w' where drain: "drain_pending a ?ps (h_loop s) (h_world s) = (e', w')" by fastforce
  let ?t = "s\<lparr>h_eventfd := 0, h_lock := Some Drainer, h_worker := D_loop a\<rparr>"
  have "hand_ok s" "wake_owed s"
    using handover_simulates [OF hand_start_ok(1) [OF assms(1,2)] assms(3)]
      hand_run_owed [OF hand_start_ok(1,2) [OF assms(1,2)] assms(3)] by auto
  then have "0 < h_eventfd s" "h_lock s = None"
    using assms(4-6) by (auto simp: wake_owed_def hand_ok_def) (metis owner.exhaust option.exhaust)
  then have "hand_run f (Wakes_up # replicate (length ?ps + 3) (Worker_steps a)) s =
      hand_run f (replicate (length ?ps + 1) (Worker_steps a)) ?t"
    using assms(5) by (simp add: hand_step_def drainer_step_def numeral_3_eq_3)
  also have "\<dots> = Some (?t\<lparr>h_loop := e', h_world := w', h_lock := None, h_worker := D_wait\<rparr>)"
    using drain_run [of ?t a e' w'] drain by simp
  finally show ?thesis using drain_pending_clients [of a ?ps "h_loop s" "h_world s"] drain by auto
qed


section \<open>Witnesses\<close>

text \<open>
  The second connection is accepted while the worker handles the wake-up of the first, and its
  own wake-up comes when the worker is back in \<open>epoll_wait\<close>.
\<close>

definition demo_handover :: "hand_act list" where
  "demo_handover =
     [Accepts 9 (new_stats 0), Main_steps, Main_steps, Main_steps, Main_steps, Main_steps,
      Wakes_up, Worker_steps demo_answers, Accepts 10 (new_stats 0), Worker_steps demo_answers,
      Worker_steps demo_answers, Worker_steps demo_answers,
      Main_steps, Main_steps, Main_steps, Main_steps, Main_steps]"

lemma demo_handover_run:
  assumes "new_epoll (-1) False False (demo_setup 4) quiet = Inr (e, w)"
  shows "\<exists>s. hand_run demo_fp demo_handover (hand_start e w) = Some s \<and> h_main s = P_out \<and>
    h_worker s = D_wait \<and> pending_new_socks (h_loop s) = [(10, new_stats 0)]"
    and "0 < wakeup_fd e"
  using new_epoll_state(1) [OF assms]
  by (simp_all add: demo_handover_def hand_start_def hand_step_def pusher_step_def drainer_step_def
      eventfd_write_def demo_setup_def add_fd_def)

lemma handover_refines_witness:
  "\<exists>e w. \<exists>s :: hand_over. run_steps (worker_input demo_fp) (inputs_of demo_fp demo_handover (hand_start e w)) (e, w) =
      Some (h_loop s, h_world s) \<and>
    concat (map hands (inputs_of demo_fp demo_handover (hand_start e w))) = [(9, new_stats 0), (10, new_stats 0)]"
proof -
  obtain e w where new: "new_epoll (-1) False False (demo_setup 4) quiet = Inr (e, w)"
    by (simp add: new_epoll_def setup_epoll_def Let_def demo_setup_def setup_add_def create_timer_def
        quiet_def)
  from demo_handover_run(1) [OF this] obtain s where
    s: "hand_run demo_fp demo_handover (hand_start e w) = Some s" "h_main s = P_out" "h_worker s = D_wait"
    by blast
  have "concat (map accepts demo_handover) = [(9, new_stats 0), (10, new_stats 0)]"
    by (simp add: demo_handover_def accepts_def)
  with handover_refines [OF new demo_handover_run(2) [OF new] s] show ?thesis by metis
qed

lemma no_lost_wakeup_witness:
  "\<exists>e w s s'. hand_run demo_fp demo_handover (hand_start e w) = Some s \<and>
    hand_run demo_fp (Wakes_up # replicate 4 (Worker_steps demo_answers)) s = Some s' \<and>
    pending_new_socks (h_loop s') = [] \<and> umap_count 10 (clients (h_loop s'))"
proof -
  obtain e w where new: "new_epoll (-1) False False (demo_setup 4) quiet = Inr (e, w)"
    by (simp add: new_epoll_def setup_epoll_def Let_def demo_setup_def setup_add_def create_timer_def
        quiet_def)
  from demo_handover_run(1) [OF this] obtain s where
    s: "hand_run demo_fp demo_handover (hand_start e w) = Some s" "h_main s = P_out" "h_worker s = D_wait"
    and queue: "pending_new_socks (h_loop s) = [(10, new_stats 0)]"
    by blast
  have "pending_new_socks (h_loop s) \<noteq> []" by (simp add: queue)
  from no_lost_wakeup [OF new demo_handover_run(2) [OF new] s this, of demo_answers]
  obtain s' where "hand_run demo_fp (Wakes_up # replicate (length (pending_new_socks (h_loop s)) + 3)
      (Worker_steps demo_answers)) s = Some s'"
    and "pending_new_socks (h_loop s') = []" "umap_count 10 (clients (h_loop s'))"
    by (auto simp: queue)
  moreover have "length (pending_new_socks (h_loop s)) + 3 = 4" by (simp add: queue)
  ultimately show ?thesis using s(1) by metis
qed

end
