(* ===== verification/Spec2Isabelle.thy ===== *)
theory Spec2Isabelle
  imports Conversation NetUtils
    SimpleServer SocketRegistry MyncProgram NetScenario BenchmarkProgram PipeExperiment CoroutineExample
    PacketQueue ServerReport ServerCounts HandOver
begin

text \<open>
  \<^bold>\<open>The program.\<close> The repository holds two generations of a TCP client and server in C++, and
  the experiments they grew from. \<open>src/mync\<close> is a netcat-like tool: an event loop over
  \<open>epoll\<close> that relays standard input and a socket (client mode), or accepts connections and
  hands each to the least loaded of its worker threads (server mode). \<open>src/netlib\<close> is a
  library: a message parser over a socket, client and server classes, each with an event loop
  in a thread of its own. \<open>mync/io_uring.h\<close> is the relay once more, over \<open>io_uring\<close>.
  \<open>src/simpleepoll\<close> is a server whose threads share one \<open>epoll\<close>, \<open>src/test_threadpool\<close> a pool
  of threads that resume coroutines. \<open>src/testcontainer\<close> compares containers for connections,
  registries of them and an identifier generator.

  \<^bold>\<open>The theories\<close> and what they model.

  \<^item> \<open>Prelude\<close>: machine types, failures (\<open>fault\<close> is undefined behaviour a model has reached,
    \<open>exn\<close> a C++ exception), byte and bit lemmas, \<open>std::min_element\<close>, \<open>std::unordered_map\<close>.
  \<^item> \<open>Kernel\<close>: the calls of the loops as a log, events, and the replay of the log on the set
    of open descriptors.
  \<^item> \<open>KeyedStore\<close>, \<open>FlatMap\<close>, \<open>SocketStores\<close>: the open-addressing table of
    \<open>testcontainer/main.cpp\<close> and \<open>mync/simple_flat_map.h\<close>, and the three containers it is
    compared with. The locale \<open>keyed_store\<close> is the interface of all four; the agreement of any
    two is proved in it.
  \<^item> \<open>Snowflake\<close>: the generators of \<open>mync/snowflakeidgen.h\<close> and \<open>testcontainer/main.cpp\<close>;
    the locale \<open>id_source\<close> is the contract that makes identifiers increase.
  \<^item> \<open>Wire\<close>, \<open>MessageParser\<close>: the packed structures and \<open>class MessageParser\<close> of
    \<open>netlib/serialization.h\<close>: parsers, reading loop, senders. \<open>Conversation\<close>: two parsers at the
    ends of one connection.
  \<^item> \<open>Stats\<close>: the traffic counters of \<open>mync/stats.h\<close> and \<open>netlib/stats.h\<close>.
  \<^item> \<open>Epoll\<close>: \<open>class Epoll\<close> and \<open>class MainEpoll\<close> of \<open>mync/epollserver.h\<close> and \<open>.cpp\<close>.
    The record \<open>epoll\<close> is the object, \<open>world\<close> what the threads share; a handler is a
    function of the kernel's answers, the object and the world. \<open>class_tag\<close> selects the
    override of the virtual \<open>balance_socket\<close>.
    \<open>EpollOwnership\<close> proves who owns which descriptor, \<open>EpollProperties\<close> the properties of
    the whole server under every interleaving of its loops, \<open>EpollBehaviour\<close> how loops end,
    what the client relays, and behaviours at odds with the intent. \<open>LeastLoaded\<close> is the
    interface of the balancing.
  \<^item> \<open>ServerProgram\<close>: the loops as threads. \<open>loop_step\<close> is one step of \<open>exec\<close> (it is
    shown that the steps add up to it), \<open>worker_thread_func\<close> and \<open>destroy_main\<close>
    the worker threads and \<open>~MainEpoll\<close>, \<open>program_step\<close> a step of any thread or the signal, and
    \<open>listen_mode_epoll\<close> the program from the socket on; \<open>show_shared_stats\<close> is its report.
    There the workers are created before anybody runs; \<open>ServerStartup\<close> adds the constructor of
    \<open>MainEpoll\<close> as a thread among those it has already started, of which that is one schedule.
    \<open>ServerReport\<close> takes the loop of \<open>print_clients_stats\<close> apart, one client at a time, with the
    worker whose clients it walks running in between. \<open>HandOver\<close> takes the passing of a
    connection to a worker apart, from the lock in \<open>push_external_socket\<close> to the wake-up handler.
  \<^item> \<open>MyncProgram\<close>: \<open>main\<close> of \<open>mync/main.cpp\<close>, over every command line and both modes.
  \<^item> \<open>SocketSetup\<close>: the three functions that make a socket (\<open>mync/utils.cpp\<close>,
    \<open>netlib/server.cpp\<close>, \<open>netlib/client.cpp\<close>).
  \<^item> \<open>NetLoop\<close>, \<open>NetClient\<close>, \<open>NetServer\<close>: \<open>netlib/epoll.cpp\<close>, \<open>client.cpp\<close> and
    \<open>server.cpp\<close>. The locale \<open>event_loop\<close> is what \<open>IEpoll::exec\<close> relies on.
  \<^item> \<open>NetScenario\<close>: the factory of \<open>netlib/netlib.h\<close> and the test program
    \<open>usingnetlib-tests/main.cpp\<close>, in which a server and two clients meet; a pause of the test is
    what the threads of the loops do in it.
  \<^item> \<open>NetUtils\<close>: random numbers and random data, session identifiers and the dump file of \<open>netlib/utils.cpp\<close>.
  \<^item> \<open>UringRelay\<close>: \<open>class UringBidirectionalRelay\<close> of \<open>mync/io_uring.h\<close>. A request is a heap
    object in flight; a completion gives it back to the handler of its kind.
    \<open>UringOwnership\<close> proves who owns requests and descriptors in every reachable state, by
    keeping account of the one request each source is meant to have.
  \<^item> \<open>RelayNetwork\<close>: the two relays against each other. The locale \<open>byte_relay\<close> is a client that
    sends what is typed and shows what arrives, \<open>byte_counter\<close> a server that counts what it
    receives per connection; the epoll loops and the \<open>io_uring\<close> relay are instances of both.
    \<open>ServerCounts\<close> follows a connection through the whole multi-threaded server, and joins a
    client to it.
  \<^item> \<open>Programs\<close>: the command lines (\<open>mync/main.cpp\<close>, \<open>clientapp/main.cpp\<close>,
    \<open>serverapp/main.cpp\<close>), the retried read
    and the complete write of standard input and output (\<open>mync/utils.cpp\<close>,
    \<open>test_write/main.cpp\<close>), and \<open>client_mode_epoll\<close>, \<open>listen_mode_iouring\<close> and
    \<open>client_mode_iouring\<close>, which compose socket, loop and destructor, with the paced sender.
  \<^item> \<open>SimpleServer\<close>: \<open>class EpollServer\<close> of \<open>simpleepoll/main.cpp\<close>. Each thread is a program
    counter, the descriptor table of the kernel part of the state, so that a descriptor that
    is used again stands for another connection. \<open>simple_main\<close> is the program.
  \<^item> \<open>ThreadPool\<close>: \<open>test_threadpool/main.cpp\<close>. The workers, the mutex, the condition variable and
    the destructor as interleaved steps; the specification is the queue of tasks
    \<open>task_queue\<close>, to which \<open>queue_of\<close> maps the pool. \<open>CoroutineExample\<close> is the program: the
    coroutine \<open>Example\<close>, whose frame has a state of its own, and \<open>main\<close>.
  \<^item> \<open>PacketQueue\<close>: \<open>netlib/queue.h\<close>, its mutex and its unprotected counter, with any number of
    writing threads.
  \<^item> \<open>SocketRegistry\<close>: the registries of \<open>testcontainer/n.h\<close> and \<open>s.h\<close> against the
    specification \<open>index_spec\<close>; the locale \<open>id_index\<close> holds the refinement, both registries
    are its instances.
  \<^item> \<open>DoubleBuffer\<close>: \<open>class DoubleBufferMap\<close> of \<open>testcontainer/main.cpp\<close>, readers without a lock
    against writers with one.
  \<^item> \<open>SocketBenchmarks\<close>: the lookup benchmarks of \<open>testcontainer/main.cpp\<close> and their median. The
    locale \<open>counting_store\<close> extends \<open>keyed_store\<close> by the counter raised in place.
    \<open>BenchmarkProgram\<close> adds the insertion benchmarks, the generators of descriptors, identifiers
    and lookups, the benchmark over the double buffer, and \<open>main\<close>; its locale \<open>repeating_store\<close>
    extends \<open>counting_store\<close> by keys that may repeat.
  \<^item> \<open>PipeExperiment\<close>: \<open>test_write/main.cpp\<close> as two processes and a pipe between them, the kernel
    moving the bytes of a \<open>write\<close> piece by piece.

  \<^bold>\<open>Conventions.\<close> What the kernel answers is an input: a list of results where a loop makes
  many calls, a record of results where a handler makes a few. A loop whose list of results
  ends before it does has the value \<open>None\<close>: it is still blocked. Where a theorem says that
  code returns, it says which answers suffice (a byte list of length \<open>n\<close> is sent by at most
  \<open>n\<close> successful calls, a loop ends at the first turn that finds its stop flag). Calls that
  open, close, register or send are logged. What the kernel promises is a named hypothesis
  (\<open>accepts_fresh\<close>, \<open>setup_fresh\<close>, \<open>so_contract\<close>, \<open>sends_within\<close>, \<open>event_ok\<close>, \<open>offered\<close>,
  \<open>possible\<close>, \<open>writes_fit\<close>, \<open>run_contract\<close>, \<open>start_run_contract\<close>, \<open>run_watched\<close>, \<open>run_ok\<close>,
  \<open>mync_kernel\<close>, \<open>rng_ok\<close>), with a witness that satisfies it. Threads that share memory are
  program counters in one state, and a step of one thread is one access to what they share;
  properties hold for every interleaving of the steps. \<open>quiescent\<close> is a state of the pool in
  which only new tasks or unasked wake-ups could still change something: a run that goes on as
  long as it can gets there, since every step lowers \<open>pool_weight\<close>.

  \<^bold>\<open>What the properties show.\<close> For \<open>mync\<close> as a program: whatever the command line, the users, the
  kernel and the scheduler do, an exit leaves no descriptor behind and closes none twice, and
  after a signal, even one during the start, the threads end within a number of steps counted in advance. For its loops:
  descriptors have one owner, the balancing counters are exact and the workers stay balanced;
  passing a connection to a worker is one step for everybody who looks on, and no wake-up is lost. End
  to end: the server counts, for every connection and under every interleaving, the bytes received
  over it, and these are the first of the bytes typed at the client; and the two implementations of
  client and server cannot be told apart by what they relay and count. For
  the parser of \<open>netlib\<close>: it never reads outside its buffer and rebuilds every message from any
  fragmentation, and what one end sends in turn the other end reads; for its client and server: descriptors, and the exact output of the test program.
  For the containers, generators and benchmarks: lookups and rows agree, every row is completed,
  identifiers increase, and the registry of \<open>n.h\<close> refines a map from descriptors to identifiers.
  For the relay over \<open>io_uring\<close>: every request is released once and every source has exactly one
  in flight. For the thread pool: it is a first-in first-out queue, whatever the schedule, runs
  dry, and takes the example to a thread of the pool. For the simple server: its program closes
  what it opened, and with one thread what has ended is closed, once. For the pipe: the message
  arrives complete, between the lines that report it, and both processes end. A group of
  properties states where the code does not do what it is for: the server that hangs when its
  input ends, the loop that is used after its worker has deleted it, the report that walks over a
  client that has left, the lost wake-up in the
  destructor of the pool. More of them are theorems of their components: the clients that
  \<open>ServerLightEpoll\<close> never watches, the stop flag that is never reset, the double header of
  \<open>sendDataPkt\<close>, the empty worker list of \<open>ServerMultithEpoll\<close>, the connection of a stranger
  that the simple server closes, the requests the relay leaks, the buffer that is overwritten
  while it is read, and others.

  \<^bold>\<open>Not modelled.\<close> The look of terminal output where it has no bearing on the state, and thread
  affinity; the scheduling inside one handler of \<open>mync\<close> (a mutex is held or the state is the
  thread's own, except for the counters, which are atomic, and the report, which \<open>ServerProgram\<close>
  takes from one instant and \<open>ServerReport\<close> takes apart; \<open>HandOver\<close> proves for the queue of new
  connections that its steps may be taken as one); floating point rounding (an argument, \<open>fp\<close>); random engines (an
  argument); the kernel's ring behind \<open>liburing\<close> and the weak memory order of the hardware
  (steps are sequentially consistent). The statement of \<open>netlib/queue.h\<close> that appends a pointer to
  a vector of characters, the second halves of \<open>serverapp/main.cpp\<close> and
  \<open>clientapp/main.cpp\<close> and \<open>find_by_fd\<close> of \<open>testcontainer/s.h\<close> do not compile,
  \<open>testcontainer/fm.h\<close> holds only comments, and \<open>setSocketTimeout\<close> is never called.
\<close>

end
